(* ===== verification/Prelude.thy ===== *)
theory Prelude
  imports Main "HOL-Library.Word"
begin

text \<open>
  Shared vocabulary of the development: the machine integer types of the C sources, the
  byte-addressed memory with little-endian loads and stores of several widths, the alignment
  vocabulary of the paging code, and the lemma collections the component theories use.

  \<^item> \<open>rd n m a\<close> is the \<open>n\<close>-byte little-endian load from address \<open>a\<close>, \<open>wr n m a v\<close> the
    corresponding store; \<open>load64\<close>, \<open>load32\<close>, \<open>store64\<close>, \<open>store32\<close> are what dereferencing an
    \<open>uint64_t *\<close> or an \<open>uint32_t *\<close> (or an \<open>int *\<close>) does on x86-64.
  \<^item> \<open>outside a n x\<close> says that address \<open>x\<close> is not one of the \<open>n\<close> bytes from \<open>a\<close>; address
    arithmetic is modulo \<open>2 ^ 64\<close>, as in the code.
\<close>

unbundle bit_operations_syntax

named_theorems mem_simps \<open>loads after stores\<close>
named_theorems page_simps \<open>alignment of addresses\<close>
named_theorems model_defs \<open>definitions unfolded to evaluate a concrete instance\<close>

section \<open>Machine integers\<close>

type_synonym u8 = "8 word"
type_synonym u16 = "16 word"
type_synonym u32 = "32 word"
type_synonym u64 = "64 word"

type_synonym memory = "u64 \<Rightarrow> u8"

section \<open>Byte memory\<close>

primrec rd :: "nat \<Rightarrow> memory \<Rightarrow> u64 \<Rightarrow> 'a::len word" where
  "rd 0 m a = 0"
| "rd (Suc n) m a = ucast (m a) OR push_bit 8 (rd n m (a + 1))"

primrec wr :: "nat \<Rightarrow> memory \<Rightarrow> u64 \<Rightarrow> 'a::len word \<Rightarrow> memory" where
  "wr 0 m a v = m"
| "wr (Suc n) m a v = wr n (m(a := ucast v)) (a + 1) (drop_bit 8 v)"

definition load64 :: "memory \<Rightarrow> u64 \<Rightarrow> u64" where
  "load64 m a = rd 8 m a"

definition store64 :: "memory \<Rightarrow> u64 \<Rightarrow> u64 \<Rightarrow> memory" where
  "store64 m a v = wr 8 m a v"

definition load32 :: "memory \<Rightarrow> u64 \<Rightarrow> u32" where
  "load32 m a = rd 4 m a"

definition store32 :: "memory \<Rightarrow> u64 \<Rightarrow> u32 \<Rightarrow> memory" where
  "store32 m a v = wr 4 m a v"

definition outside :: "u64 \<Rightarrow> nat \<Rightarrow> u64 \<Rightarrow> bool" where
  "outside a n x \<longleftrightarrow> n \<le> unat (x - a)"

subsection \<open>Which bytes a load reads and a store writes\<close>

lemma unat_add_of_nat:
  assumes "n < 2 ^ 64"
  shows "unat ((x::u64) + of_nat n) = (unat x + n) mod 2 ^ 64"
  using assms by (simp add: unat_word_ariths unat_of_nat take_bit_eq_mod)

lemma unat_u64_less: "unat (x::u64) < 2 ^ 64" "unat (x::u64) < 18446744073709551616"
  using unsigned_less [of x, where 'a = nat] by simp_all

lemma unat_of_nat_u64: "n < 2 ^ 64 \<Longrightarrow> unat (of_nat n :: u64) = n"
  by (simp add: unat_of_nat take_bit_nat_eq_self)

lemma unat_ucast_u64:
  fixes x :: "'a::len word"
  assumes "LENGTH('a) \<le> 64"
  shows "unat (ucast x :: u64) = unat x"
proof -
  have "unat x < 2 ^ LENGTH('a)" by (rule unsigned_less)
  also have "\<dots> \<le> 2 ^ 64" using assms by (intro power_increasing) simp_all
  finally show ?thesis by (subst unsigned_ucast_eq) (simp add: take_bit_nat_eq_self)
qed

lemma offset_unat_iff: "n < 2 ^ 64 \<Longrightarrow> (x::u64) = p + of_nat n \<longleftrightarrow> unat (x - p) = n"
proof -
  assume "n < 2 ^ 64"
  moreover have "x = p + of_nat n \<longleftrightarrow> x - p = of_nat n" by (auto simp: algebra_simps)
  ultimately show ?thesis by (simp add: word_unat_eq_iff unat_of_nat_u64)
qed

lemma outside_Suc:
  assumes "Suc n < 2 ^ 64"
  shows "outside a (Suc n) x \<longleftrightarrow> x \<noteq> a \<and> outside (a + 1) n x"
proof (cases "x = a")
  case True
  then show ?thesis by (simp add: outside_def)
next
  case False
  define d where "d = x - a"
  from False have d0: "d \<noteq> 0" by (simp add: d_def)
  have eq: "x - (a + 1) = d - 1" by (simp add: d_def)
  have "unat (d - 1) = unat d - 1"
    using d0 by (simp add: unat_minus_one)
  moreover have "0 < unat d" using d0 by (simp add: unat_gt_0)
  ultimately show ?thesis
    using False by (auto simp: outside_def eq d_def [symmetric])
qed

lemma wr_outside:
  "n < 2 ^ 64 \<Longrightarrow> outside a n x \<Longrightarrow> wr n m a v x = m x"
proof (induction n arbitrary: m a v)
  case 0
  then show ?case by simp
next
  case (Suc n)
  then have "x \<noteq> a" and "outside (a + 1) n x" by (simp_all add: outside_Suc)
  with Suc show ?case by simp
qed

lemma wr_cong: "m x = m' x \<Longrightarrow> wr n m a v x = wr n m' a v x"
proof (induction n arbitrary: m m' a v)
  case (Suc n)
  then have "(m(a := ucast v)) x = (m'(a := ucast v)) x" by simp
  from Suc.IH [of "m(a := ucast v)" "m'(a := ucast v)", OF this] show ?case by (simp only: wr.simps)
qed simp

text \<open>Being outside a range is being outside every part of it.\<close>

lemma outside_sub:
  assumes "outside a n x" "j + k \<le> n" "n < 2 ^ 64"
  shows "outside (a + of_nat j) k x"
proof -
  obtain y where y: "x = a + y" by (metis add_diff_cancel_left' diff_add_cancel add.commute)
  then have "n \<le> unat y" using assms(1) by (simp add: outside_def)
  moreover have "unat (of_nat j :: u64) = j" using assms(2,3) by (intro unat_of_nat_u64) simp
  ultimately show ?thesis using assms(2) by (simp add: y outside_def unat_sub_if')
qed

lemma rd_cong:
  "(\<And>i. i < n \<Longrightarrow> m (a + of_nat i) = m' (a + of_nat i)) \<Longrightarrow>
     rd n m a = (rd n m' a :: 'a::len word)"
proof (induction n arbitrary: a)
  case 0
  then show ?case by simp
next
  case (Suc n)
  have "m (a + 1 + of_nat i) = m' (a + 1 + of_nat i)" if "i < n" for i
    using Suc.prems [of "Suc i"] that by (simp add: algebra_simps)
  then have "rd n m (a + 1) = (rd n m' (a + 1) :: 'a word)" by (rule Suc.IH)
  moreover have "m a = m' a" using Suc.prems [of 0] by simp
  ultimately show ?case by simp
qed

lemma rd_wr_same:
  assumes "n < 2 ^ 64"
  shows "rd n (wr n m a v) a = take_bit (8 * n) (v :: 'a::len word)"
  using assms
proof (induction n arbitrary: m a v)
  case 0
  then show ?case by simp
next
  case (Suc n)
  have a: "wr n (m(a := ucast v)) (a + 1) (drop_bit 8 v) a = ucast v"
  proof -
    have "outside (a + 1) n a"
      using Suc.prems by (simp add: outside_def unsigned_minus_1_eq_mask mask_eq_exp_minus_1)
    then show ?thesis using Suc.prems by (simp add: wr_outside)
  qed
  from Suc have "rd n (wr n (m(a := ucast v)) (a + 1) (drop_bit 8 v)) (a + 1)
      = take_bit (8 * n) (drop_bit 8 v)" by simp
  then show ?case
    by (simp add: a) (rule bit_word_eqI, auto simp: bit_simps)
qed

text \<open>\<open>apart a n b k\<close>: the \<open>n\<close> bytes from \<open>a\<close> and the \<open>k\<close> bytes from \<open>b\<close> do not overlap.\<close>

definition apart :: "u64 \<Rightarrow> nat \<Rightarrow> u64 \<Rightarrow> nat \<Rightarrow> bool" where
  "apart a n b k \<longleftrightarrow> n \<le> unat (b - a) \<and> k \<le> unat (a - b)"

lemma apart_sym: "apart a n b k \<Longrightarrow> apart b k a n"
  by (simp add: apart_def)

lemma apart_outside:
  assumes "apart a n b k" and "i < k"
  shows "outside a n (b + of_nat i)"
proof (cases "b = a")
  case True
  with assms show ?thesis by (simp add: apart_def)
next
  case False
  define d where "d = b - a"
  from False have "d \<noteq> 0" by (simp add: d_def)
  have "unat (a - b) = 2 ^ 64 - unat d"
  proof -
    have ne: "unat a \<noteq> unat b" using False by (simp add: word_unat_eq_iff)
    have "unat a < 2 ^ 64" "unat b < 2 ^ 64" using unsigned_less [of a] unsigned_less [of b] by simp_all
    with ne show ?thesis by (auto simp: d_def unat_sub_if')
  qed
  with assms have lt: "unat d + i < 2 ^ 64" and i: "i < 2 ^ 64"
    by (auto simp: apart_def)
  have "unat (d + of_nat i) = unat d + i"
    using lt i by (simp add: unat_add_of_nat)
  moreover have "b + of_nat i - a = d + of_nat i" by (simp add: d_def)
  ultimately have "unat (b + of_nat i - a) = unat d + i" by (simp only:)
  with assms show ?thesis by (simp add: outside_def apart_def d_def)
qed

lemma rd_wr_apart:
  assumes "apart a n b k" and "n < 2 ^ 64"
  shows "rd k (wr n m a v) b = (rd k m b :: 'a::len word)"
  by (rule rd_cong) (rule wr_outside [OF assms(2)], rule apart_outside [OF assms(1)])

lemma load64_store64_same [simp, mem_simps]: "load64 (store64 m a v) a = v"
  by (simp add: load64_def store64_def rd_wr_same take_bit_word_eq_self)

lemma load32_store32_same [simp, mem_simps]: "load32 (store32 m a v) a = v"
  by (simp add: load32_def store32_def rd_wr_same take_bit_word_eq_self)

lemma load64_store64_apart [mem_simps]:
  "apart a 8 b 8 \<Longrightarrow> load64 (store64 m a v) b = load64 m b"
  by (simp add: load64_def store64_def rd_wr_apart)

lemma load32_store64_apart [mem_simps]:
  "apart a 8 b 4 \<Longrightarrow> load32 (store64 m a v) b = load32 m b"
  by (simp add: load32_def store64_def rd_wr_apart)

lemma load64_store32_apart [mem_simps]:
  "apart a 4 b 8 \<Longrightarrow> load64 (store32 m a v) b = load64 m b"
  by (simp add: load64_def store32_def rd_wr_apart)

lemma load32_store32_apart [mem_simps]:
  "apart a 4 b 4 \<Longrightarrow> load32 (store32 m a v) b = load32 m b"
  by (simp add: load32_def store32_def rd_wr_apart)

lemma store64_outside: "outside a 8 x \<Longrightarrow> store64 m a v x = m x"
  by (simp add: store64_def wr_outside)

lemma store32_outside: "outside a 4 x \<Longrightarrow> store32 m a v x = m x"
  by (simp add: store32_def wr_outside)

lemma load64_cong:
  "(\<And>i. i < 8 \<Longrightarrow> m (a + of_nat i) = m' (a + of_nat i)) \<Longrightarrow> load64 m a = load64 m' a"
  unfolding load64_def by (rule rd_cong)

lemma load32_cong:
  "(\<And>i. i < 4 \<Longrightarrow> m (a + of_nat i) = m' (a + of_nat i)) \<Longrightarrow> load32 m a = load32 m' a"
  unfolding load32_def by (rule rd_cong)

lemma rd_zero: "(\<And>i. i < n \<Longrightarrow> m (a + of_nat i) = 0) \<Longrightarrow> rd n m a = 0"
proof (induction n arbitrary: a)
  case 0
  then show ?case by simp
next
  case (Suc n)
  have "m (a + 1 + of_nat i) = 0" if "i < n" for i
    using Suc.prems [of "Suc i"] that by (simp add: algebra_simps)
  then have "rd n m (a + 1) = (0 :: 'a word)" by (rule Suc.IH)
  with Suc.prems [of 0] show ?case by simp
qed

lemma load64_zero: "(\<And>i. i < 8 \<Longrightarrow> m (a + of_nat i) = 0) \<Longrightarrow> load64 m a = 0"
  unfolding load64_def by (rule rd_zero)

text \<open>Fields of one structure: two offsets whose fields do not overlap.\<close>

lemma field_apart:
  assumes "unat x + n \<le> unat y \<or> unat y + k \<le> unat x" "n \<le> 2 ^ 32" "k \<le> 2 ^ 32"
    "unat x \<le> 2 ^ 32" "unat y \<le> 2 ^ 32" "0 < n" "0 < k"
  shows "apart (a + x) n (a + y) k"
proof -
  have d: "a + y - (a + x) = y - x" "a + x - (a + y) = x - y" by simp_all
  show ?thesis unfolding apart_def d using assms by (auto simp: unat_sub_if')
qed

lemmas field_apart_0 = field_apart [where x = 0, simplified] field_apart [where y = 0, simplified]

text \<open>A property of bytes can be decided by evaluating it at all 256 of them.\<close>

lemma all_bytes: "list_all P (map word_of_nat [0 ..< 256]) \<Longrightarrow> P (x :: u8)"
proof -
  assume "list_all P (map word_of_nat [0 ..< 256])"
  moreover have "unat x < 256" using unsigned_less [of x, where 'a = nat] by simp
  moreover from this have "x \<in> set (map word_of_nat [0 ..< 256])"
    by (auto intro: image_eqI [of _ _ "unat x"])
  ultimately show ?thesis by (simp only: list_all_iff)
qed

text \<open>Two words are equal when their bits are.\<close>

lemma u64_eqI: "list_all (\<lambda>n. bit x n = bit y n) [0 ..< 64] \<Longrightarrow> x = (y :: u64)"
  by (rule bit_word_eqI) (auto simp: list_all_iff)

lemma u32_eqI: "list_all (\<lambda>n. bit x n = bit y n) [0 ..< 32] \<Longrightarrow> x = (y :: u32)"
  by (rule bit_word_eqI) (auto simp: list_all_iff)

lemma u16_eqI: "list_all (\<lambda>n. bit x n = bit y n) [0 ..< 16] \<Longrightarrow> x = (y :: u16)"
  by (rule bit_word_eqI) (auto simp: list_all_iff)

lemma upt64: "[0 ..< 64] = [0, 1, 2, 3, 4, 5, 6, 7, 8, 9, 10, 11, 12, 13, 14, 15, 16, 17, 18, 19, 20, 21,
  22, 23, 24, 25, 26, 27, 28, 29, 30, 31, 32, 33, 34, 35, 36, 37, 38, 39, 40, 41, 42, 43, 44, 45, 46, 47,
  48, 49, 50, 51, 52, 53, 54, 55, 56, 57, 58, 59, 60, 61, 62, 63 :: nat]"
  by code_simp

lemma bit_beyond: "8 \<le> n \<Longrightarrow> \<not> bit (b :: u8) n" "32 \<le> n \<Longrightarrow> \<not> bit (w :: u32) n"
  using bit_imp_le_length [of b n] bit_imp_le_length [of w n] by auto

lemma take_take_append: "take n (take n ys @ xs) = take n (ys @ xs)"
  by (cases "length ys \<le> n") auto

lemma not_suffix_self: "xs \<noteq> ys @ x # xs"
proof
  assume "xs = ys @ x # xs"
  then have "length xs = length (ys @ x # xs)" by (rule arg_cong)
  then show False by simp
qed

section \<open>Page alignment\<close>

text \<open>\<open>~0xFFF\<close> in the sources is an \<open>int\<close> that sign-extends to 64 bits when combined with an
  \<open>uint64_t\<close>, so \<open>x & ~0xFFF\<close> clears exactly the low twelve bits.\<close>

definition page_down :: "u64 \<Rightarrow> u64" where
  "page_down x = x AND NOT 0xFFF"

definition page_up :: "u64 \<Rightarrow> u64" where
  "page_up x = (x + 0xFFF) AND NOT 0xFFF"

definition page_aligned :: "u64 \<Rightarrow> bool" where
  "page_aligned x \<longleftrightarrow> x AND 0xFFF = 0"

lemma mask12: "(0xFFF :: u64) = mask 12"
  by (simp add: mask_eq_exp_minus_1)

lemma page_aligned_take_bit: "page_aligned x \<longleftrightarrow> take_bit 12 x = 0"
  by (simp add: page_aligned_def mask12 take_bit_eq_mask)

lemma page_aligned_dvd: "page_aligned x \<longleftrightarrow> 4096 dvd unat x"
proof -
  have "page_aligned x \<longleftrightarrow> unat (take_bit 12 x) = 0"
    by (simp add: page_aligned_take_bit unsigned_eq_0_iff)
  also have "unat (take_bit 12 x) = unat x mod 4096"
    by (subst unsigned_take_bit_eq) (simp add: take_bit_eq_mod)
  finally show ?thesis by (simp add: dvd_eq_mod_eq_0)
qed

lemma page_down_aligned [simp, page_simps]: "page_aligned (page_down x)"
  by (simp add: page_aligned_def page_down_def and.assoc)

lemma page_up_aligned [simp, page_simps]: "page_aligned (page_up x)"
  by (simp add: page_aligned_def page_up_def and.assoc)

lemma page_down_add:
  assumes "page_aligned p" and "i < 4096"
  shows "page_down (p + i) = p"
proof -
  from assms(1) have p: "\<not> bit p n" if "n < 12" for n
    using that by (metis bit_take_bit_iff page_aligned_take_bit bit_0_eq bot_apply bot_bool_def)
  from assms(2) have "take_bit 12 i = i"
    by (simp add: take_bit_eq_mod word_arith_nat_mod word_less_nat_alt)
  then have i: "\<not> bit i n" if "12 \<le> n" for n
    using that by (metis bit_take_bit_iff linorder_not_less)
  have "p + i = p OR i"
    by (rule disjunctive_add) (metis i p linorder_not_less)
  then show ?thesis
    by (auto intro!: bit_word_eqI simp: page_down_def bit_simps mask12 p i)
qed

lemma page_down_same: "page_aligned p \<Longrightarrow> page_down p = p"
  using page_down_add [of p 0] by simp

text \<open>Two different page-aligned addresses are whole pages apart.\<close>

lemma aligned_add_inj:
  assumes "page_aligned p" "page_aligned q" "i < 4096" "j < 4096" "p + i = q + j"
  shows "p = q \<and> i = j"
  using assms by (metis page_down_add add_left_cancel)

end
