(* ===== verification/Machine.thy ===== *)
theory Machine
  imports Prelude
begin

text \<open>
  The processor and its devices as the kernel's C code sees them (\<open>kernel.h\<close>): the memory of
  the kernel's address space, the control register \<open>CR3\<close>, the interrupt flag, the I/O ports,
  and the log of every instruction with an effect outside memory.

  \<^item> Pointers are 64-bit virtual addresses; \<open>mem\<close> is indexed by them. The paging code and the frame
    allocator reach a physical frame \<open>p\<close> through the higher-half direct map, at \<open>hhdm + p\<close>.
  \<^item> What a device answers is not under the kernel's control: \<open>port_in p k\<close> is the byte that the
    \<open>k\<close>-th read of port \<open>p\<close> returns, \<open>port_rd p\<close> counts the reads so far. Theorems hold for every
    such device, or name what they need of it.
  \<^item> \<open>hw_log\<close> is the sequence of port writes and privileged instructions, oldest first.
\<close>

section \<open>The machine state\<close>

datatype hw_event =
    Outb u16 u8
  | Outw u16 u16
  | Invlpg u64
  | Load_cr3 u64
  | Lgdt u16 u64
  | Lidt u16 u64
  | Sti
  | Cli
  | Hlt
  | Int_n u8

record machine =
  mem :: memory
  cr3 :: u64
  if_flag :: bool
  port_in :: "u16 \<Rightarrow> nat \<Rightarrow> u8"
  port_rd :: "u16 \<Rightarrow> nat"
  hw_log :: "hw_event list"

definition hw_emit :: "hw_event \<Rightarrow> 'a machine_scheme \<Rightarrow> 'a machine_scheme" where
  "hw_emit e s = s\<lparr>hw_log := hw_log s @ [e]\<rparr>"

section \<open>Port input and output\<close>

definition outb :: "u16 \<Rightarrow> u8 \<Rightarrow> 'a machine_scheme \<Rightarrow> 'a machine_scheme" where
  "outb port val s = hw_emit (Outb port val) s"

definition inb :: "u16 \<Rightarrow> 'a machine_scheme \<Rightarrow> u8 \<times> 'a machine_scheme" where
  "inb port s =
     (port_in s port (port_rd s port), s\<lparr>port_rd := (port_rd s)(port := Suc (port_rd s port))\<rparr>)"

definition outw :: "u16 \<Rightarrow> u16 \<Rightarrow> 'a machine_scheme \<Rightarrow> 'a machine_scheme" where
  "outw port val s = hw_emit (Outw port val) s"

text \<open>A 16-bit read at \<open>port\<close> takes the byte of \<open>port\<close> and the byte of \<open>port + 1\<close>.\<close>

definition inw :: "u16 \<Rightarrow> 'a machine_scheme \<Rightarrow> u16 \<times> 'a machine_scheme" where
  "inw port s =
     (let (lo, s1) = inb port s; (hi, s2) = inb (port + 1) s1
      in (ucast lo OR push_bit 8 (ucast hi), s2))"

definition io_wait :: "'a machine_scheme \<Rightarrow> 'a machine_scheme" where
  "io_wait s = outb 0x80 0 s"

section \<open>Interrupt flag and privileged instructions\<close>

definition sti :: "'a machine_scheme \<Rightarrow> 'a machine_scheme" where
  "sti s = hw_emit Sti (s\<lparr>if_flag := True\<rparr>)"

definition cli :: "'a machine_scheme \<Rightarrow> 'a machine_scheme" where
  "cli s = hw_emit Cli (s\<lparr>if_flag := False\<rparr>)"

lemmas io_defs [model_defs] =
  hw_emit_def outb_def inb_def outw_def inw_def io_wait_def sti_def cli_def

lemma hw_emit_frame [simp]:
  "mem (hw_emit e s) = mem s" "cr3 (hw_emit e s) = cr3 s" "if_flag (hw_emit e s) = if_flag s"
  "port_in (hw_emit e s) = port_in s" "port_rd (hw_emit e s) = port_rd s"
  "hw_log (hw_emit e s) = hw_log s @ [e]"
  by (simp_all add: hw_emit_def)

lemma outb_frame [simp]:
  "mem (outb p v s) = mem s" "cr3 (outb p v s) = cr3 s" "if_flag (outb p v s) = if_flag s"
  "port_in (outb p v s) = port_in s" "port_rd (outb p v s) = port_rd s"
  "hw_log (outb p v s) = hw_log s @ [Outb p v]"
  by (simp_all add: outb_def)

text \<open>The bytes written to one port, in order: what the device behind the port received.\<close>

fun port_writes :: "u16 \<Rightarrow> hw_event list \<Rightarrow> u8 list" where
  "port_writes p [] = []"
| "port_writes p (Outb q v # es) = (if q = p then v # port_writes p es else port_writes p es)"
| "port_writes p (e # es) = port_writes p es"

lemma port_writes_append [simp]:
  "port_writes p (xs @ ys) = port_writes p xs @ port_writes p ys"
proof (induction xs)
  case Nil
  then show ?case by simp
next
  case (Cons e xs)
  then show ?case by (cases e) simp_all
qed

section \<open>The interrupt frame\<close>

record registers_t =
  r15 :: u64
  r14 :: u64
  r13 :: u64
  r12 :: u64
  r11 :: u64
  r10 :: u64
  r9 :: u64
  r8 :: u64
  rbp :: u64
  rdi :: u64
  rsi :: u64
  rdx :: u64
  rcx :: u64
  rbx :: u64
  rax :: u64
  int_no :: u64
  error_code :: u64
  rip :: u64
  cs :: u64
  rflags :: u64
  rsp :: u64
  ss :: u64

text \<open>The packed structure in memory: 22 consecutive 64-bit fields in declaration order, so
  \<open>sizeof(registers_t) = 176\<close>. \<open>registers_at\<close> reads the structure a pointer designates.\<close>

definition registers_at :: "memory \<Rightarrow> u64 \<Rightarrow> registers_t" where
  "registers_at m p =
     \<lparr>r15 = load64 m p, r14 = load64 m (p + 8), r13 = load64 m (p + 16),
      r12 = load64 m (p + 24), r11 = load64 m (p + 32), r10 = load64 m (p + 40),
      r9 = load64 m (p + 48), r8 = load64 m (p + 56), rbp = load64 m (p + 64),
      rdi = load64 m (p + 72), rsi = load64 m (p + 80), rdx = load64 m (p + 88),
      rcx = load64 m (p + 96), rbx = load64 m (p + 104), rax = load64 m (p + 112),
      int_no = load64 m (p + 120), error_code = load64 m (p + 128), rip = load64 m (p + 136),
      cs = load64 m (p + 144), rflags = load64 m (p + 152), rsp = load64 m (p + 160),
      ss = load64 m (p + 168)\<rparr>"

end
