(* ===== verification/Pmm.thy ===== *)
theory Pmm
  imports Machine
begin

text \<open>
  \<open>src/kernel/memory/pmm.c\<close>: the physical frame allocator. Free frames form a linked list
  threaded through the frames themselves: the first eight bytes of a free frame, reached through
  the direct map at \<open>pmm_hhdm + frame\<close>, hold the next free frame, and 0 ends the list.

  \<open>pmm_inv s ps\<close> relates a state to the abstract stack \<open>ps\<close> of free frames. The theory shows
  that \<open>pmm_init\<close> builds that stack from the memory map, that \<open>pmm_alloc\<close> and \<open>pmm_free\<close> pop and
  push it, and that no run of a client that allocates, frees and writes its own frames ever sees
  one frame handed out twice. The boot loader's memory map is an argument: the list of entries
  of the response, or \<open>None\<close> where the response pointer is null.
\<close>

section \<open>State and operations\<close>

record limine_memmap_entry =
  me_base :: u64
  me_length :: u64
  me_type :: u64

definition LIMINE_MEMMAP_USABLE :: u64 where
  "LIMINE_MEMMAP_USABLE = 0"

record pmm_state = machine +
  pmm_hhdm :: u64
  free_count :: u64
  free_list_head :: u64

definition pmm_push :: "u64 \<Rightarrow> u64 \<Rightarrow> pmm_state \<Rightarrow> pmm_state" where
  "pmm_push hhdm page s =
     s\<lparr>mem := store64 (mem s) (hhdm + page) (free_list_head s),
       free_list_head := page, free_count := free_count s + 1\<rparr>"

text \<open>The loop over the pages of one region. The increment is modulo \<open>2 ^ 64\<close>, so the loop is a
  partial function.\<close>

partial_function (option) pmm_add_pages :: "u64 \<Rightarrow> u64 \<Rightarrow> u64 \<Rightarrow> pmm_state \<Rightarrow> pmm_state option" where
  "pmm_add_pages hhdm page etop s =
     (if page < etop then pmm_add_pages hhdm (page + 0x1000) etop (pmm_push hhdm page s)
      else Some s)"

text \<open>The bounds left of one entry after the kernel image has been cut out of it.\<close>

definition pmm_clip :: "u64 \<Rightarrow> u64 \<Rightarrow> u64 \<Rightarrow> u64 \<Rightarrow> u64" where
  "pmm_clip kstart kend base etop =
     (if base < kend \<and> kstart < etop
      then (let base1 = (if base < kstart then kend else base)
            in if kend < etop then (if kstart < base1 then base1 else kend) else base1)
      else base)"

definition pmm_add_entry ::
    "u64 \<Rightarrow> u64 \<Rightarrow> u64 \<Rightarrow> limine_memmap_entry \<Rightarrow> pmm_state \<Rightarrow> pmm_state option" where
  "pmm_add_entry hhdm kstart kend entry s =
     (if me_type entry \<noteq> LIMINE_MEMMAP_USABLE then Some s
      else (let etop = me_base entry + me_length entry;
                base = pmm_clip kstart kend (me_base entry) etop
            in if etop \<le> base then Some s
               else pmm_add_pages hhdm (page_up base) (page_down etop) s))"

fun pmm_add_entries ::
    "u64 \<Rightarrow> u64 \<Rightarrow> u64 \<Rightarrow> limine_memmap_entry list \<Rightarrow> pmm_state \<Rightarrow> pmm_state option" where
  "pmm_add_entries hhdm kstart kend [] s = Some s"
| "pmm_add_entries hhdm kstart kend (entry # es) s =
     (case pmm_add_entry hhdm kstart kend entry s of
        None \<Rightarrow> None
      | Some s' \<Rightarrow> pmm_add_entries hhdm kstart kend es s')"

definition pmm_init ::
    "u64 \<Rightarrow> u64 \<Rightarrow> limine_memmap_entry list option \<Rightarrow> u64 \<Rightarrow> pmm_state \<Rightarrow> pmm_state option" where
  "pmm_init kernel_start kernel_end mmr hhdm_offset s =
     (let s1 = s\<lparr>pmm_hhdm := hhdm_offset\<rparr>
      in case mmr of
           None \<Rightarrow> Some s1
         | Some es \<Rightarrow>
             pmm_add_entries hhdm_offset (page_down kernel_start) (page_up kernel_end) es s1)"

definition pmm_alloc :: "pmm_state \<Rightarrow> u64 \<times> pmm_state" where
  "pmm_alloc s =
     (if free_list_head s = 0 then (0, s)
      else (let page = free_list_head s
            in (page, s\<lparr>free_list_head := load64 (mem s) (pmm_hhdm s + page),
                        free_count := free_count s - 1\<rparr>)))"

definition pmm_free :: "u64 \<Rightarrow> pmm_state \<Rightarrow> pmm_state" where
  "pmm_free phys_addr s =
     (if phys_addr = 0 then s
      else s\<lparr>mem := store64 (mem s) (pmm_hhdm s + phys_addr) (free_list_head s),
             free_list_head := phys_addr, free_count := free_count s + 1\<rparr>)"

definition pmm_get_free_count :: "pmm_state \<Rightarrow> u64" where
  "pmm_get_free_count s = free_count s"

definition pmm_get_hhdm :: "pmm_state \<Rightarrow> u64" where
  "pmm_get_hhdm s = pmm_hhdm s"

section \<open>The free list as an abstract stack\<close>

primrec free_chain :: "memory \<Rightarrow> u64 \<Rightarrow> u64 \<Rightarrow> u64 list \<Rightarrow> bool" where
  "free_chain m h p [] \<longleftrightarrow> p = 0"
| "free_chain m h p (q # qs) \<longleftrightarrow> p = q \<and> q \<noteq> 0 \<and> free_chain m h (load64 m (h + q)) qs"

definition frame_list :: "u64 list \<Rightarrow> bool" where
  "frame_list ps \<longleftrightarrow> distinct ps \<and> (\<forall>p \<in> set ps. page_aligned p \<and> p \<noteq> 0)"

definition pmm_inv :: "pmm_state \<Rightarrow> u64 list \<Rightarrow> bool" where
  "pmm_inv s ps \<longleftrightarrow> free_chain (mem s) (pmm_hhdm s) (free_list_head s) ps
     \<and> frame_list ps \<and> unat (free_count s) = length ps"

text \<open>\<open>in_frame h p x\<close>: the virtual address \<open>x\<close> lies in the direct-map image of frame \<open>p\<close>.\<close>

definition in_frame :: "u64 \<Rightarrow> u64 \<Rightarrow> u64 \<Rightarrow> bool" where
  "in_frame h p x \<longleftrightarrow> unat (x - (h + p)) < 4096"

lemma frame_list_simps [simp]:
  "frame_list []"
  "frame_list (p # ps) \<longleftrightarrow> page_aligned p \<and> p \<noteq> 0 \<and> p \<notin> set ps \<and> frame_list ps"
  by (auto simp: frame_list_def)

text \<open>There are at most \<open>2 ^ 52\<close> page-aligned addresses, so the counter cannot overflow.\<close>

lemma frame_list_length: "frame_list ps \<Longrightarrow> length ps \<le> 2 ^ 52"
proof -
  assume fl: "frame_list ps"
  let ?f = "\<lambda>p::u64. unat p div 4096"
  have inj: "inj_on ?f (set ps)"
  proof (rule inj_onI)
    fix p q
    assume "p \<in> set ps" "q \<in> set ps" and eq: "?f p = ?f q"
    then have "4096 dvd unat p" "4096 dvd unat q"
      using fl by (auto simp: frame_list_def page_aligned_dvd)
    with eq have "unat p = unat q" by (metis dvd_div_mult_self)
    then show "p = q" by (simp add: word_unat_eq_iff)
  qed
  have "?f ` set ps \<subseteq> {..< 2 ^ 52}"
  proof
    fix y assume "y \<in> ?f ` set ps"
    then obtain p :: u64 where y: "y = unat p div 4096" by auto
    show "y \<in> {..< 2 ^ 52}" using unat_u64_less(2) [of p] by (simp add: y)
  qed
  then have "card (?f ` set ps) \<le> 2 ^ 52"
    using card_mono [of "{..< 2 ^ 52 :: nat}"] by simp
  with inj fl show ?thesis
    by (simp add: card_image distinct_card frame_list_def)
qed

lemma in_frame_add: "page_aligned p \<Longrightarrow> i < 4096 \<Longrightarrow> in_frame h p (h + p + of_nat i)"
  by (simp add: in_frame_def unat_of_nat_u64)

lemma in_frame_unique:
  assumes "page_aligned p" "page_aligned q" "in_frame h p x" "in_frame h q x"
  shows "p = q"
proof -
  have "x - (h + p) < 4096" "x - (h + q) < 4096"
    using assms(3,4) by (simp_all add: in_frame_def word_less_nat_alt)
  moreover have "p + (x - (h + p)) = q + (x - (h + q))" by (simp add: algebra_simps)
  ultimately show ?thesis using aligned_add_inj assms(1,2) by blast
qed

lemma unat_frame_offset:
  assumes "page_aligned p" "i < 4096"
  shows "\<exists>k. unat (p + of_nat i) = 4096 * k + i \<and> unat p = 4096 * k \<and> k < 2 ^ 52"
proof -
  obtain k where k: "unat p = 4096 * k"
    using assms(1) by (auto simp: page_aligned_dvd)
  then have "k < 2 ^ 52" using unat_u64_less(2) [of p] by simp
  with k assms(2) show ?thesis
    by (simp add: unat_add_of_nat)
qed

lemma frames_apart:
  assumes "page_aligned p" "page_aligned q" "p \<noteq> q" "n + i \<le> 4096" "k + j \<le> 4096"
    "0 < n" "0 < k"
  shows "apart (h + p + of_nat i) n (h + q + of_nat j) k"
proof -
  obtain P where P: "unat (p + of_nat i) = 4096 * P + i" "unat p = 4096 * P" "P < 2 ^ 52"
    using unat_frame_offset [of p i] assms by auto
  obtain Q where Q: "unat (q + of_nat j) = 4096 * Q + j" "unat q = 4096 * Q" "Q < 2 ^ 52"
    using unat_frame_offset [of q j] assms by auto
  from \<open>p \<noteq> q\<close> P Q have "P \<noteq> Q" by (auto simp: word_unat_eq_iff)
  have d: "h + q + of_nat j - (h + p + of_nat i) = (q + of_nat j) - (p + of_nat i)"
    "h + p + of_nat i - (h + q + of_nat j) = (p + of_nat i) - (q + of_nat j)"
    by (simp_all add: algebra_simps)
  from \<open>P \<noteq> Q\<close> consider "P + 1 \<le> Q" | "Q + 1 \<le> P" by linarith
  then show ?thesis
    unfolding apart_def d using P Q assms by cases (auto simp: unat_sub_if')
qed

lemma free_chain_cong:
  assumes "\<And>q. q \<in> set ps \<Longrightarrow> load64 m' (h + q) = load64 m (h + q)"
  shows "free_chain m' h p ps = free_chain m h p ps"
  using assms by (induction ps arbitrary: p) simp_all

text \<open>The free list survives any change of memory outside the free frames.\<close>

lemma pmm_inv_mem_cong:
  assumes "pmm_inv s ps"
    and "\<And>p x. p \<in> set ps \<Longrightarrow> in_frame (pmm_hhdm s) p x \<Longrightarrow> m x = mem s x"
  shows "pmm_inv (s\<lparr>mem := m\<rparr>) ps"
proof -
  have "load64 m (pmm_hhdm s + q) = load64 (mem s) (pmm_hhdm s + q)" if "q \<in> set ps" for q
  proof (rule load64_cong)
    fix i :: nat assume "i < 8"
    then have "in_frame (pmm_hhdm s) q (pmm_hhdm s + q + of_nat i)"
      using that assms(1) by (auto intro!: in_frame_add simp: pmm_inv_def frame_list_def)
    with assms(2) that show "m (pmm_hhdm s + q + of_nat i) = mem s (pmm_hhdm s + q + of_nat i)"
      by blast
  qed
  with assms(1) show ?thesis
    by (simp add: pmm_inv_def free_chain_cong [of ps m "pmm_hhdm s" "mem s"])
qed

lemma pmm_alloc_Nil: "pmm_inv s [] \<Longrightarrow> pmm_alloc s = (0, s)"
  by (simp add: pmm_inv_def pmm_alloc_def)

lemma pmm_alloc_Cons:
  assumes "pmm_inv s (p # ps)"
  obtains s' where "pmm_alloc s = (p, s')" "pmm_inv s' ps" "mem s' = mem s"
    "pmm_hhdm s' = pmm_hhdm s" "cr3 s' = cr3 s" "hw_log s' = hw_log s"
proof -
  have "unat (free_count s - 1) = length ps"
    using assms by (auto simp: pmm_inv_def unat_sub_if' unat_eq_zero)
  with assms show ?thesis
    by (intro that [of "snd (pmm_alloc s)"]) (auto simp: pmm_inv_def pmm_alloc_def Let_def)
qed

lemma store64_other_frame:
  assumes "page_aligned p" "page_aligned q" "p \<noteq> q"
  shows "load64 (store64 m (h + p) v) (h + q) = load64 m (h + q)"
  using frames_apart [of p q 8 0 8 0 h] assms by (simp add: load64_store64_apart)

lemma pmm_push_inv:
  assumes "pmm_inv s ps" "page_aligned p" "p \<noteq> 0" "p \<notin> set ps"
  shows "pmm_inv (pmm_push (pmm_hhdm s) p s) (p # ps)"
proof -
  from assms have fl: "frame_list (p # ps)" by (simp add: pmm_inv_def)
  from frame_list_length [OF this] assms(1) have "unat (free_count s + 1) = Suc (length ps)"
    by (simp add: pmm_inv_def unat_word_ariths)
  moreover have "load64 (store64 (mem s) (pmm_hhdm s + p) v) (pmm_hhdm s + q)
      = load64 (mem s) (pmm_hhdm s + q)" if "q \<in> set ps" for q v
    using that assms fl by (intro store64_other_frame) (auto simp: frame_list_def)
  then have "free_chain (store64 (mem s) (pmm_hhdm s + p) (free_list_head s)) (pmm_hhdm s)
      (free_list_head s) ps = free_chain (mem s) (pmm_hhdm s) (free_list_head s) ps"
    by (rule free_chain_cong)
  ultimately show ?thesis
    using assms fl by (simp add: pmm_inv_def pmm_push_def)
qed

lemma pmm_free_eq_push: "p \<noteq> 0 \<Longrightarrow> pmm_free p s = pmm_push (pmm_hhdm s) p s"
  by (simp add: pmm_free_def pmm_push_def)

section \<open>Building the free list\<close>

definition region_pages :: "u64 \<Rightarrow> u64 \<Rightarrow> u64 list" where
  "region_pages base etop =
     map (\<lambda>i. base + 0x1000 * of_nat i) [0 ..< (unat etop - unat base) div 4096]"

lemma region_pages_step:
  assumes "page_aligned base" "page_aligned etop" "base < etop"
  shows "region_pages base etop = base # region_pages (base + 0x1000) etop"
    and "unat (base + 0x1000) = unat base + 4096"
    and "page_aligned (base + 0x1000)"
    and "(unat etop - unat base) div 4096 = Suc ((unat etop - unat (base + 0x1000)) div 4096)"
proof -
  obtain b where b: "unat base = 4096 * b" using assms(1) by (auto simp: page_aligned_dvd)
  obtain t where t: "unat etop = 4096 * t" using assms(2) by (auto simp: page_aligned_dvd)
  from assms(3) b t have bt: "b < t" by (simp add: word_less_nat_alt)
  from t have t52: "t < 2 ^ 52" using unat_u64_less(2) [of etop] by simp
  show u: "unat (base + 0x1000) = unat base + 4096"
    using b bt t52 by (simp add: unat_word_ariths)
  then show "page_aligned (base + 0x1000)" using b by (simp add: page_aligned_dvd)
  show n: "(unat etop - unat base) div 4096 = Suc ((unat etop - unat (base + 0x1000)) div 4096)"
    using b t bt u by simp
  have "[0 ..< Suc k] = 0 # map Suc [0 ..< k]" for k
    by (simp add: map_Suc_upt upt_conv_Cons)
  then show "region_pages base etop = base # region_pages (base + 0x1000) etop"
    unfolding region_pages_def n by (simp add: algebra_simps comp_def)
qed

lemma region_pages_empty: "etop \<le> base \<Longrightarrow> region_pages base etop = []"
  by (simp add: region_pages_def word_le_nat_alt)

lemma pmm_add_pages_eq:
  assumes "page_aligned base" "page_aligned etop"
  shows "pmm_add_pages h base etop s = Some (fold (pmm_push h) (region_pages base etop) s)"
  using assms
proof (induction "(unat etop - unat base) div 4096" arbitrary: base s)
  case 0
  then have "\<not> base < etop" using region_pages_step(4) by fastforce
  then show ?case
    by (simp add: pmm_add_pages.simps [of h base] region_pages_empty)
next
  case (Suc k)
  then have lt: "base < etop" by (auto simp: word_less_nat_alt intro: ccontr)
  from Suc.hyps(2) region_pages_step(4) [OF Suc.prems lt]
  have "k = (unat etop - unat (base + 0x1000)) div 4096" by simp
  from Suc.hyps(1) [OF this region_pages_step(3) [OF Suc.prems lt] Suc.prems(2)] lt show ?case
    by (simp add: pmm_add_pages.simps [of h base] region_pages_step(1) [OF Suc.prems lt])
qed

lemma region_pages_mem:
  assumes "page_aligned base" "page_aligned etop" "p \<in> set (region_pages base etop)"
  shows "page_aligned p \<and> base \<le> p \<and> p < etop"
  using assms
proof (induction "(unat etop - unat base) div 4096" arbitrary: base)
  case 0
  then show ?case by (simp add: region_pages_def)
next
  case (Suc k)
  then have lt: "base < etop" by (auto simp: word_less_nat_alt intro: ccontr)
  note st = region_pages_step [OF Suc.prems(1,2) lt]
  from st(2) have le: "base \<le> base + 0x1000" by (simp add: word_le_nat_alt)
  from Suc.hyps(2) st(4) have k: "k = (unat etop - unat (base + 0x1000)) div 4096" by simp
  from Suc.prems(3) st(1) consider "p = base" | "p \<in> set (region_pages (base + 0x1000) etop)"
    by auto
  then show ?case
  proof cases
    case 1
    with Suc.prems lt show ?thesis by simp
  next
    case 2
    with Suc.hyps(1) [OF k st(3) Suc.prems(2)] le show ?thesis by (auto intro: order_trans)
  qed
qed

lemma region_pages_distinct: "distinct (region_pages base etop)"
proof -
  have "inj_on (\<lambda>i. base + 0x1000 * of_nat i) {0 ..< (unat etop - unat base) div 4096}"
  proof (rule inj_onI)
    fix i j :: nat
    assume "i \<in> {0 ..< (unat etop - unat base) div 4096}" "j \<in> {0 ..< (unat etop - unat base) div 4096}"
    then have ij: "i < 2 ^ 52" "j < 2 ^ 52" using unat_u64_less(2) [of etop] by auto
    have u: "unat (0x1000 * of_nat k :: u64) = 4096 * k" if "k < 2 ^ 52" for k :: nat
      using that by (simp add: unat_word_ariths unat_of_nat_u64)
    assume "base + 0x1000 * of_nat i = base + 0x1000 * of_nat j"
    then have "unat (0x1000 * of_nat i :: u64) = unat (0x1000 * of_nat j :: u64)" by simp
    with u ij show "i = j" by simp
  qed
  then show ?thesis by (simp add: region_pages_def distinct_map)
qed

lemma pmm_push_frame [simp]:
  "pmm_hhdm (pmm_push h p s) = pmm_hhdm s" "cr3 (pmm_push h p s) = cr3 s"
  by (simp_all add: pmm_push_def)

lemma pmm_push_mem:
  "\<not> in_frame h p x \<Longrightarrow> mem (pmm_push h p s) x = mem s x"
  by (simp add: pmm_push_def store64_outside outside_def in_frame_def)

lemma fold_push_frame:
  "pmm_hhdm (fold (pmm_push h) qs s) = pmm_hhdm s \<and> cr3 (fold (pmm_push h) qs s) = cr3 s
     \<and> ((\<forall>q \<in> set qs. \<not> in_frame h q x) \<longrightarrow> mem (fold (pmm_push h) qs s) x = mem s x)"
  by (induction qs arbitrary: s) (simp_all add: pmm_push_mem)

lemma fold_push_inv:
  assumes "pmm_inv s ps" "frame_list (rev qs @ ps)" "h = pmm_hhdm s"
  shows "pmm_inv (fold (pmm_push h) qs s) (rev qs @ ps)"
  using assms
proof (induction qs arbitrary: s ps)
  case Nil
  then show ?case by simp
next
  case (Cons q qs)
  then have "pmm_inv (pmm_push h q s) (q # ps)"
    by (auto intro!: pmm_push_inv simp: frame_list_def)
  from Cons.IH [OF this] Cons.prems show ?case by simp
qed

text \<open>What the Limine protocol promises of the entries of type \<open>USABLE\<close>: page-aligned, inside the
  address space, never the first page, in ascending order and not overlapping each other or the
  memory of the kernel image.\<close>

definition usable :: "limine_memmap_entry list \<Rightarrow> limine_memmap_entry list" where
  "usable es = filter (\<lambda>e. me_type e = LIMINE_MEMMAP_USABLE) es"

definition me_end :: "limine_memmap_entry \<Rightarrow> u64" where
  "me_end e = me_base e + me_length e"

definition memmap_ok :: "u64 \<Rightarrow> u64 \<Rightarrow> limine_memmap_entry list \<Rightarrow> bool" where
  "memmap_ok kstart kend es \<longleftrightarrow>
     list_all (\<lambda>e. page_aligned (me_base e) \<and> page_aligned (me_length e) \<and> 0x1000 \<le> me_base e
        \<and> unat (me_base e) + unat (me_length e) < 2 ^ 64
        \<and> (me_end e \<le> page_down kstart \<or> page_up kend \<le> me_base e)) (usable es)
     \<and> sorted_wrt (\<lambda>d e. me_end d \<le> me_base e) (usable es)"

definition usable_pages :: "limine_memmap_entry list \<Rightarrow> u64 list" where
  "usable_pages es = concat (map (\<lambda>e. region_pages (me_base e) (me_end e)) (usable es))"

lemma page_up_same: "page_aligned x \<Longrightarrow> page_up x = x"
  using page_down_add [of x "0xFFF"] by (simp add: page_up_def page_down_def)

lemma me_end_aligned:
  assumes "page_aligned (me_base e)" "page_aligned (me_length e)"
    "unat (me_base e) + unat (me_length e) < 2 ^ 64"
  shows "page_aligned (me_end e)" "unat (me_end e) = unat (me_base e) + unat (me_length e)"
proof -
  show "unat (me_end e) = unat (me_base e) + unat (me_length e)"
    using assms(3) by (simp add: me_end_def unat_word_ariths)
  with assms show "page_aligned (me_end e)" by (simp add: page_aligned_dvd)
qed

lemma pmm_add_entry_eq:
  assumes "memmap_ok kstart kend [e]"
  shows "pmm_add_entry h (page_down kstart) (page_up kend) e s
      = Some (fold (pmm_push h) (usable_pages [e]) s)"
proof (cases "me_type e = LIMINE_MEMMAP_USABLE")
  case False
  then show ?thesis by (simp add: pmm_add_entry_def usable_pages_def usable_def)
next
  case True
  with assms have al: "page_aligned (me_base e)" "page_aligned (me_end e)"
    and out: "me_end e \<le> page_down kstart \<or> page_up kend \<le> me_base e"
    by (auto simp: memmap_ok_def usable_def me_end_aligned)
  have clip: "pmm_clip (page_down kstart) (page_up kend) (me_base e) (me_end e) = me_base e"
    using out by (auto simp: pmm_clip_def Let_def)
  show ?thesis
    using True al clip page_down_same [OF al(2)] page_up_same [OF al(1)]
    by (auto simp: pmm_add_entry_def Let_def me_end_def [symmetric] pmm_add_pages_eq
        usable_pages_def usable_def region_pages_empty)
qed

lemma memmap_ok_Cons:
  "memmap_ok kstart kend (e # es) \<Longrightarrow> memmap_ok kstart kend [e] \<and> memmap_ok kstart kend es"
  by (auto simp: memmap_ok_def usable_def)

lemma usable_pages_Cons: "usable_pages (e # es) = usable_pages [e] @ usable_pages es"
  by (simp add: usable_pages_def usable_def)

lemma pmm_add_entries_eq:
  "memmap_ok kstart kend es \<Longrightarrow>
   pmm_add_entries h (page_down kstart) (page_up kend) es s
     = Some (fold (pmm_push h) (usable_pages es) s)"
proof (induction es arbitrary: s)
  case Nil
  then show ?case by (simp add: usable_pages_def usable_def)
next
  case (Cons e es)
  from memmap_ok_Cons [OF Cons.prems] Cons.IH show ?case
    by (simp add: pmm_add_entry_eq usable_pages_Cons [of e es])
qed

lemma usable_pages_lower:
  assumes "memmap_ok kstart kend es" "p \<in> set (usable_pages es)"
  shows "\<exists>e \<in> set (usable es). me_base e \<le> p \<and> p < me_end e \<and> page_aligned p \<and> 0x1000 \<le> me_base e"
proof -
  from assms(2) obtain e where e: "e \<in> set (usable es)"
    and p: "p \<in> set (region_pages (me_base e) (me_end e))"
    by (auto simp: usable_pages_def)
  from assms(1) e have ok: "page_aligned (me_base e)" "page_aligned (me_length e)"
    "0x1000 \<le> me_base e" "unat (me_base e) + unat (me_length e) < 2 ^ 64"
    by (auto simp: memmap_ok_def list_all_iff)
  with region_pages_mem [OF ok(1) me_end_aligned(1) [OF ok(1,2,4)] p] e show ?thesis by blast
qed

lemma usable_pages_frame_list:
  assumes "memmap_ok kstart kend es"
  shows "frame_list (usable_pages es)"
proof -
  have "p \<noteq> 0 \<and> page_aligned p" if "p \<in> set (usable_pages es)" for p
    using usable_pages_lower [OF assms that] by (auto simp: word_le_nat_alt)
  moreover from assms have "distinct (usable_pages es)"
  proof (induction es)
    case Nil
    then show ?case by (simp add: usable_pages_def usable_def)
  next
    case (Cons e es)
    note ok = memmap_ok_Cons [OF Cons.prems]
    have "p \<noteq> q" if p: "p \<in> set (usable_pages [e])" and q: "q \<in> set (usable_pages es)" for p q
    proof -
      obtain d where d: "d \<in> set (usable [e])" "p < me_end d"
        using usable_pages_lower [OF conjunct1 [OF ok] p] by auto
      obtain d' where d': "d' \<in> set (usable es)" "me_base d' \<le> q"
        using usable_pages_lower [OF conjunct2 [OF ok] q] by auto
      have "me_end d \<le> me_base d'"
        using Cons.prems d(1) d'(1) by (auto simp: memmap_ok_def usable_def split: if_splits)
      with d d' show ?thesis by auto
    qed
    then have "set (usable_pages [e]) \<inter> set (usable_pages es) = {}" by blast
    moreover have "distinct (usable_pages [e])"
      by (simp add: usable_pages_def usable_def region_pages_distinct)
    ultimately show ?case
      using Cons.IH [OF conjunct2 [OF ok]] by (simp add: usable_pages_Cons [of e es])
  qed
  ultimately show ?thesis by (auto simp: frame_list_def)
qed

section \<open>The contract of a frame allocator\<close>

text \<open>\<open>frames s ps\<close>: in state \<open>s\<close> exactly the frames \<open>ps\<close> can still be allocated, in that order.
  The paging code, the heap and the scheduler rely on these laws only.\<close>

fun alloc_many :: "('s \<Rightarrow> u64 \<times> 's) \<Rightarrow> nat \<Rightarrow> 's \<Rightarrow> u64 list \<times> 's" where
  "alloc_many al 0 s = ([], s)"
| "alloc_many al (Suc n) s =
     (let (p, s1) = al s; (ps, s2) = alloc_many al n s1 in (p # ps, s2))"

locale frame_allocator =
  fixes alloc :: "'s \<Rightarrow> u64 \<times> 's"
    and release :: "u64 \<Rightarrow> 's \<Rightarrow> 's"
    and frames :: "'s \<Rightarrow> u64 list \<Rightarrow> bool"
  assumes frames_valid: "frames s ps \<Longrightarrow> frame_list ps"
    and alloc_none: "frames s [] \<Longrightarrow> alloc s = (0, s)"
    and alloc_some: "frames s (p # ps) \<Longrightarrow> \<exists>s'. alloc s = (p, s') \<and> frames s' ps"
    and release_null: "release 0 s = s"
    and release_some:
      "frames s ps \<Longrightarrow> page_aligned p \<Longrightarrow> p \<noteq> 0 \<Longrightarrow> p \<notin> set ps \<Longrightarrow> frames (release p s) (p # ps)"
begin

lemma alloc_zero_iff: "frames s ps \<Longrightarrow> fst (alloc s) = 0 \<longleftrightarrow> ps = []"
proof (cases ps)
  case Nil
  assume "frames s ps"
  with Nil show ?thesis by (simp add: alloc_none)
next
  case (Cons p qs)
  assume "frames s ps"
  with Cons alloc_some [of s p qs] frames_valid [of s "p # qs"] show ?thesis by auto
qed

lemma alloc_many_frames:
  "frames s ps \<Longrightarrow> n \<le> length ps \<Longrightarrow>
     \<exists>s'. alloc_many alloc n s = (take n ps, s') \<and> frames s' (drop n ps)"
proof (induction n arbitrary: s ps)
  case 0
  then show ?case by simp
next
  case (Suc n)
  then obtain p qs where ps: "ps = p # qs" by (cases ps) auto
  with Suc.prems alloc_some obtain s1 where "alloc s = (p, s1)" "frames s1 qs" by blast
  moreover from Suc.IH [OF this(2)] Suc.prems ps obtain s2
    where "alloc_many alloc n s1 = (take n qs, s2)" "frames s2 (drop n qs)" by auto
  ultimately show ?case using ps by auto
qed

lemma alloc_many_distinct:
  assumes "frames s ps" "n \<le> length ps"
  shows "frame_list (fst (alloc_many alloc n s))"
  using alloc_many_frames [OF assms] frames_valid [OF assms(1)]
  by (auto simp: frame_list_def dest!: in_set_takeD)

lemma release_alloc:
  assumes "frames s ps" "page_aligned p" "p \<noteq> 0" "p \<notin> set ps"
  shows "\<exists>s'. alloc (release p s) = (p, s') \<and> frames s' ps"
  using alloc_some [OF release_some [OF assms]] .

end

interpretation pmm_frames: frame_allocator pmm_alloc pmm_free pmm_inv
proof unfold_locales
  show "frame_list ps" if "pmm_inv s ps" for s ps
    using that by (simp add: pmm_inv_def)
  show "pmm_alloc s = (0, s)" if "pmm_inv s []" for s
    using that by (rule pmm_alloc_Nil)
  show "\<exists>s'. pmm_alloc s = (p, s') \<and> pmm_inv s' ps" if "pmm_inv s (p # ps)" for s p ps
    using that by (rule pmm_alloc_Cons) blast
  show "pmm_free 0 s = s" for s
    by (simp add: pmm_free_def)
  show "pmm_inv (pmm_free p s) (p # ps)"
    if "pmm_inv s ps" "page_aligned p" "p \<noteq> 0" "p \<notin> set ps" for s ps p
    using that by (simp add: pmm_free_eq_push pmm_push_inv)
qed

section \<open>Runs of a client\<close>

text \<open>A client owns the frames it was given. It may allocate, release a frame it owns, and write
  anything into the frames it owns.\<close>

inductive pmm_client :: "pmm_state \<times> u64 set \<Rightarrow> pmm_state \<times> u64 set \<Rightarrow> bool" where
  client_alloc: "pmm_alloc s = (p, s') \<Longrightarrow> p \<noteq> 0 \<Longrightarrow> pmm_client (s, A) (s', insert p A)"
| client_full: "pmm_alloc s = (0, s') \<Longrightarrow> pmm_client (s, A) (s', A)"
| client_free: "p \<in> A \<Longrightarrow> pmm_client (s, A) (pmm_free p s, A - {p})"
| client_write: "(\<And>x. m x \<noteq> mem s x \<Longrightarrow> \<exists>p \<in> A. in_frame (pmm_hhdm s) p x) \<Longrightarrow>
     pmm_client (s, A) (s\<lparr>mem := m\<rparr>, A)"

inductive_cases pmm_client_elim: "pmm_client (s, A) (t, B)"

definition pmm_partition :: "u64 set \<Rightarrow> pmm_state \<times> u64 set \<Rightarrow> bool" where
  "pmm_partition F c \<longleftrightarrow>
     (\<exists>ps. pmm_inv (fst c) ps \<and> set ps \<inter> snd c = {} \<and> set ps \<union> snd c = F)
     \<and> (\<forall>p \<in> F. page_aligned p \<and> p \<noteq> 0)"

lemma pmm_client_partition:
  assumes "pmm_client c d" "pmm_partition F c"
  shows "pmm_partition F d"
  using assms
proof (induction rule: pmm_client.induct)
  case (client_alloc s p s' A)
  then obtain ps where ps: "pmm_inv s ps" "set ps \<inter> A = {}" "set ps \<union> A = F"
    by (auto simp: pmm_partition_def)
  from client_alloc.hyps pmm_frames.alloc_zero_iff [OF ps(1)] obtain q qs where "ps = q # qs"
    by (cases ps) auto
  with ps pmm_frames.alloc_some [of s q qs] pmm_frames.frames_valid [of s "q # qs"]
    client_alloc show ?case
    by (fastforce simp: pmm_partition_def)
next
  case (client_full s s' A)
  then obtain ps where ps: "pmm_inv s ps" by (auto simp: pmm_partition_def)
  with client_full.hyps pmm_frames.alloc_zero_iff [OF ps] have "ps = []" by simp
  with ps client_full pmm_alloc_Nil [of s] show ?case by simp
next
  case (client_free p A s)
  then obtain ps where ps: "pmm_inv s ps" "set ps \<inter> A = {}" "set ps \<union> A = F"
    and F: "\<forall>p \<in> F. page_aligned p \<and> p \<noteq> 0"
    by (auto simp: pmm_partition_def)
  with client_free.hyps have "pmm_inv (pmm_free p s) (p # ps)"
    by (intro pmm_frames.release_some) auto
  moreover have "set (p # ps) \<inter> (A - {p}) = {}" "set (p # ps) \<union> (A - {p}) = F"
    using ps client_free.hyps by auto
  ultimately show ?case using F unfolding pmm_partition_def fst_conv snd_conv by blast
next
  case (client_write m s A)
  then obtain ps where ps: "pmm_inv s ps" "set ps \<inter> A = {}" "set ps \<union> A = F"
    and F: "\<forall>p \<in> F. page_aligned p \<and> p \<noteq> 0"
    by (auto simp: pmm_partition_def)
  have "m x = mem s x" if "p \<in> set ps" "in_frame (pmm_hhdm s) p x" for p x
  proof (rule ccontr)
    assume "m x \<noteq> mem s x"
    with client_write.hyps obtain q where "q \<in> A" "in_frame (pmm_hhdm s) q x" by blast
    with that ps F in_frame_unique [of p q "pmm_hhdm s" x] show False by blast
  qed
  with ps(1) have "pmm_inv (s\<lparr>mem := m\<rparr>) ps" by (rule pmm_inv_mem_cong)
  with ps F show ?case unfolding pmm_partition_def fst_conv snd_conv by blast
qed

lemma pmm_clients_partition:
  "pmm_client\<^sup>*\<^sup>* c d \<Longrightarrow> pmm_partition F c \<Longrightarrow> pmm_partition F d"
  by (induction rule: rtranclp_induct) (auto intro: pmm_client_partition)

section \<open>Properties\<close>

text \<open>The state in which the kernel enters \<open>kmain\<close>: zeroed static variables, and here also zeroed
  memory and silent devices. Used to exhibit instances.\<close>

definition pmm_boot_state :: pmm_state where
  "pmm_boot_state = \<lparr>mem = (\<lambda>_. 0), cr3 = 0, if_flag = False, port_in = (\<lambda>_ _. 0),
     port_rd = (\<lambda>_. 0), hw_log = [], pmm_hhdm = 0, free_count = 0, free_list_head = 0\<rparr>"

text \<open>C14: on a memory map that keeps the boot protocol's promises, \<open>pmm_init\<close> returns, the free
  list holds every page of every usable entry exactly once, latest page first, the counter
  equals its length, and no byte outside those pages is written.\<close>

theorem pmm_init_correct:
  assumes "memmap_ok kernel_start kernel_end es"
    and "free_count s = 0" and "free_list_head s = 0"
  shows "\<exists>s'. pmm_init kernel_start kernel_end (Some es) hhdm s = Some s'
     \<and> pmm_inv s' (rev (usable_pages es))
     \<and> pmm_get_free_count s' = of_nat (length (usable_pages es)) \<and> pmm_get_hhdm s' = hhdm
     \<and> (\<forall>x. (\<forall>p \<in> set (usable_pages es). \<not> in_frame hhdm p x) \<longrightarrow> mem s' x = mem s x)"
proof -
  let ?s = "s\<lparr>pmm_hhdm := hhdm\<rparr>" and ?ps = "usable_pages es"
  let ?s' = "fold (pmm_push hhdm) ?ps ?s"
  have "pmm_inv ?s []" using assms by (simp add: pmm_inv_def)
  moreover have "frame_list (rev ?ps @ [])"
    using usable_pages_frame_list [OF assms(1)] by (simp add: frame_list_def)
  ultimately have inv: "pmm_inv ?s' (rev ?ps @ [])"
    by (rule fold_push_inv) simp
  then have l: "length ?ps = unat (free_count ?s')" by (simp add: pmm_inv_def)
  have "free_count ?s' = of_nat (length ?ps)" by (simp add: l)
  moreover have "pmm_init kernel_start kernel_end (Some es) hhdm s = Some ?s'"
    using assms(1) by (simp add: pmm_init_def pmm_add_entries_eq)
  ultimately show ?thesis
    using inv fold_push_frame [of hhdm ?ps ?s]
    by (auto simp: pmm_get_free_count_def pmm_get_hhdm_def)
qed

definition memmap_example :: "limine_memmap_entry list" where
  "memmap_example =
     [\<lparr>me_base = 0x1000, me_length = 0x3000, me_type = LIMINE_MEMMAP_USABLE\<rparr>,
      \<lparr>me_base = 0x4000, me_length = 0x1234, me_type = 1\<rparr>,
      \<lparr>me_base = 0x8000, me_length = 0x1000, me_type = LIMINE_MEMMAP_USABLE\<rparr>]"

lemma memmap_example_ok: "memmap_ok 0xffffffff80000000 0xffffffff80020000 memmap_example"
  by (simp add: memmap_ok_def usable_def memmap_example_def LIMINE_MEMMAP_USABLE_def
      page_aligned_def me_end_def page_down_def page_up_def)

theorem pmm_init_correct_witness:
  "\<exists>s'. pmm_init 0xffffffff80000000 0xffffffff80020000 (Some memmap_example) 0xffff800000000000
        pmm_boot_state = Some s' \<and> pmm_inv s' (rev (usable_pages memmap_example))"
proof -
  have "free_count pmm_boot_state = 0" "free_list_head pmm_boot_state = 0"
    by (simp_all add: pmm_boot_state_def)
  from pmm_init_correct [OF memmap_example_ok this] show ?thesis by blast
qed

text \<open>C1: no frame is handed out twice. However a client allocates, releases and writes into
  its own frames, starting from a free list \<open>ps\<close> and owning nothing: the free frames and the
  owned frames always partition \<open>ps\<close>, the counter is exact, and a further allocation
  either fails because every frame is owned or returns a frame nobody owns.\<close>

theorem pmm_no_double_allocation:
  assumes "pmm_inv s ps" and "pmm_client\<^sup>*\<^sup>* (s, {}) (t, A)"
  shows "\<exists>qs. pmm_inv t qs \<and> set qs \<inter> A = {} \<and> set qs \<union> A = set ps
     \<and> unat (free_count t) = length qs
     \<and> (if A = set ps then pmm_alloc t = (0, t) else fst (pmm_alloc t) \<in> set ps - A)"
proof -
  from assms(1) have "pmm_partition (set ps) (s, {})"
    by (auto simp: pmm_partition_def pmm_inv_def frame_list_def)
  from pmm_clients_partition [OF assms(2) this] obtain qs
    where qs: "pmm_inv t qs" "set qs \<inter> A = {}" "set qs \<union> A = set ps"
    by (auto simp: pmm_partition_def)
  have "if A = set ps then pmm_alloc t = (0, t) else fst (pmm_alloc t) \<in> set ps - A"
  proof (cases qs)
    case Nil
    with qs pmm_alloc_Nil [of t] show ?thesis by simp
  next
    case (Cons q rs)
    with qs pmm_frames.alloc_some [of t q rs] show ?thesis by auto
  qed
  moreover from qs(1) have "unat (free_count t) = length qs" by (simp add: pmm_inv_def)
  ultimately show ?thesis using qs by blast
qed

lemma pmm_boot_empty: "pmm_inv pmm_boot_state []"
  by (simp add: pmm_inv_def pmm_boot_state_def)

lemma pmm_example_inv: "pmm_inv (pmm_free 0x5000 pmm_boot_state) [0x5000]"
  by (rule pmm_frames.release_some [OF pmm_boot_empty]) (simp_all add: page_aligned_def)

theorem pmm_no_double_allocation_witness:
  "\<exists>t qs. pmm_client\<^sup>*\<^sup>* (pmm_free 0x5000 pmm_boot_state, {}) (t, {0x5000}) \<and> pmm_inv t qs
     \<and> set qs \<inter> {0x5000} = {} \<and> pmm_alloc t = (0, t)"
proof -
  obtain t where t: "pmm_alloc (pmm_free 0x5000 pmm_boot_state) = (0x5000, t)"
    using pmm_frames.alloc_some [OF pmm_example_inv] by blast
  have "pmm_client\<^sup>*\<^sup>* (pmm_free 0x5000 pmm_boot_state, {}) (t, {0x5000})"
    by (rule r_into_rtranclp) (rule pmm_client.client_alloc [OF t], simp)
  with pmm_no_double_allocation [OF pmm_example_inv this] show ?thesis by auto
qed

text \<open>Releasing a frame and allocating again returns that very frame and the free list as it
  was before (the allocator is a stack); releasing the null frame does nothing.\<close>

theorem pmm_free_alloc:
  assumes "pmm_inv s ps" "page_aligned p" "p \<noteq> 0" "p \<notin> set ps"
  shows "pmm_free 0 s = s \<and> (\<exists>s'. pmm_alloc (pmm_free p s) = (p, s') \<and> pmm_inv s' ps
     \<and> free_count s' = free_count s \<and> free_list_head s' = free_list_head s)"
proof -
  from pmm_frames.release_alloc [OF assms] obtain s'
    where s': "pmm_alloc (pmm_free p s) = (p, s')" "pmm_inv s' ps" by blast
  moreover have "free_count s' = free_count s"
    using s'(2) assms(1) by (simp add: pmm_inv_def word_unat_eq_iff)
  moreover have "free_list_head s' = free_list_head s"
    using s'(1) assms(3) by (auto simp: pmm_alloc_def pmm_free_def)
  ultimately show ?thesis by (simp add: pmm_frames.release_null)
qed

theorem pmm_free_alloc_witness:
  "\<exists>s'. pmm_alloc (pmm_free 0x7000 (pmm_free 0x5000 pmm_boot_state)) = (0x7000, s')
     \<and> pmm_inv s' [0x5000]"
  using pmm_free_alloc [OF pmm_example_inv, of "0x7000"] by (auto simp: page_aligned_def)

text \<open>What the exclusion of the kernel image does to a region that meets it. A region that
  starts below the image loses everything below the end of the image; a region that starts at
  the image and ends behind it is cut to what follows the image; but a region that starts inside
  the image and ends behind it, or lies inside it, is not cut at all, so its pages, which hold
  the kernel, become allocatable.\<close>

theorem pmm_clip_cases:
  assumes "kstart < kend" and "base < kend" and "kstart < etop"
  shows "pmm_clip kstart kend base etop =
     (if base < kstart then kend
      else if base = kstart \<and> kend < etop then kend
      else base)"
  using assms by (auto simp: pmm_clip_def Let_def)

theorem pmm_clip_cases_witness:
  "pmm_clip 0x200000 0x300000 0x210000 0x400000 = 0x210000
   \<and> (0x210000 :: u64) \<in> {0x200000 ..< 0x300000}"
  using pmm_clip_cases [of "0x200000" "0x300000" "0x210000" "0x400000"] by simp

end
