(* ===== verification/CString.thy ===== *)
theory CString
  imports Machine
begin

text \<open>
  \<open>src/kernel/string.c\<close>: \<open>memset\<close>, \<open>memcpy\<close>, \<open>strlen\<close> and \<open>strcmp\<close> over the byte memory.
  The counted loops are recursive functions on their counter; the two scans for a terminating
  zero byte have no bound in the code, so they are partial functions into \<open>option\<close> and \<open>None\<close>
  is a scan that never returns. The lemmas give the bytes each copying loop leaves behind and
  the results of the scans on C strings.
\<close>

section \<open>Counted loops\<close>

function memset_loop :: "u64 \<Rightarrow> u8 \<Rightarrow> nat \<Rightarrow> nat \<Rightarrow> memory \<Rightarrow> memory" where
  "memset_loop p c i n m =
     (if i < n then memset_loop p c (Suc i) n (m(p + of_nat i := c)) else m)"
  by pat_completeness auto
termination
  by (relation "measure (\<lambda>(p, c, i, n, m). n - i)") auto

definition memset :: "u64 \<Rightarrow> int \<Rightarrow> u64 \<Rightarrow> memory \<Rightarrow> u64 \<times> memory" where
  "memset dst c n m = (dst, memset_loop dst (word_of_int c) 0 (unat n) m)"

function memcpy_loop :: "u64 \<Rightarrow> u64 \<Rightarrow> nat \<Rightarrow> nat \<Rightarrow> memory \<Rightarrow> memory" where
  "memcpy_loop d s i n m =
     (if i < n then memcpy_loop d s (Suc i) n (m(d + of_nat i := m (s + of_nat i))) else m)"
  by pat_completeness auto
termination
  by (relation "measure (\<lambda>(d, s, i, n, m). n - i)") auto

definition memcpy :: "u64 \<Rightarrow> u64 \<Rightarrow> u64 \<Rightarrow> memory \<Rightarrow> u64 \<times> memory" where
  "memcpy dst src n m = (dst, memcpy_loop dst src 0 (unat n) m)"

declare memset_loop.simps [simp del] memcpy_loop.simps [simp del]

section \<open>Scans for the terminating byte\<close>

partial_function (option) strlen_loop :: "memory \<Rightarrow> u64 \<Rightarrow> u64 \<Rightarrow> u64 option" where
  "strlen_loop m str len = (if m (str + len) = 0 then Some len else strlen_loop m str (len + 1))"

definition strlen :: "memory \<Rightarrow> u64 \<Rightarrow> u64 option" where
  "strlen m str = strlen_loop m str 0"

partial_function (option) strcmp :: "memory \<Rightarrow> u64 \<Rightarrow> u64 \<Rightarrow> int option" where
  "strcmp m a b =
     (if m a \<noteq> 0 \<and> m a = m b then strcmp m (a + 1) (b + 1)
      else Some (uint (m a) - uint (m b)))"

text \<open>\<open>cstring_at m a s\<close>: the C string at address \<open>a\<close> is \<open>s\<close>, none of whose bytes is zero.\<close>

primrec cstring_at :: "memory \<Rightarrow> u64 \<Rightarrow> u8 list \<Rightarrow> bool" where
  "cstring_at m a [] \<longleftrightarrow> m a = 0"
| "cstring_at m a (c # s) \<longleftrightarrow> c \<noteq> 0 \<and> m a = c \<and> cstring_at m (a + 1) s"

section \<open>Properties\<close>

lemma memset_loop_eq:
  assumes "n \<le> 2 ^ 64"
  shows "memset_loop p c i n m x = (if i \<le> unat (x - p) \<and> unat (x - p) < n then c else m x)"
  using assms
proof (induction "n - i" arbitrary: i m)
  case 0
  then show ?case by (auto simp: memset_loop.simps [of p c i n m])
next
  case (Suc k)
  then have i: "i < n" and "i < 2 ^ 64" by simp_all
  then have eq: "x = p + of_nat i \<longleftrightarrow> unat (x - p) = i" by (simp add: offset_unat_iff)
  from Suc have "k = n - Suc i" by simp
  from Suc.hyps(1) [OF this, of "m(p + of_nat i := c)"] i eq Suc.prems show ?case
    by (auto simp: memset_loop.simps [of p c i n m])
qed

lemma memset_mem:
  "snd (memset dst c n m) x = (if unat (x - dst) < unat n then word_of_int c else m x)"
  by (simp add: memset_def memset_loop_eq [OF less_imp_le [OF unat_u64_less(1)]])

lemma strlen_loop_cstring:
  "cstring_at m (str + len) s \<Longrightarrow> strlen_loop m str len = Some (len + of_nat (length s))"
proof (induction s arbitrary: len)
  case Nil
  then show ?case by (simp add: strlen_loop.simps)
next
  case (Cons c s)
  then have "m (str + len) \<noteq> 0" and "cstring_at m (str + (len + 1)) s"
    by (auto simp: algebra_simps)
  with Cons.IH [of "len + 1"] show ?case
    by (simp add: strlen_loop.simps [of m str len] algebra_simps)
qed

lemma cstring_at_unique:
  "cstring_at m a s \<Longrightarrow> cstring_at m a t \<Longrightarrow> s = t"
proof (induction s arbitrary: a t)
  case Nil
  then show ?case by (cases t) auto
next
  case (Cons c s)
  then show ?case by (cases t) auto
qed

lemma strcmp_step:
  "strcmp m a b =
     (if m a \<noteq> 0 \<and> m a = m b then strcmp m (a + 1) (b + 1) else Some (uint (m a) - uint (m b)))"
  by (rule strcmp.simps)

lemma strcmp_cstring:
  assumes "cstring_at m a s" and "cstring_at m b t"
  shows "\<exists>r. strcmp m a b = Some r \<and> (r = 0 \<longleftrightarrow> s = t) \<and> (r < 0 \<longleftrightarrow> ord_class.lexordp s t)"
  using assms
proof (induction s arbitrary: a b t)
  case Nil
  then show ?case by (cases t) (auto simp: strcmp_step [of m a b] word_neq_0_conv word_less_def)
next
  case (Cons c s)
  show ?case
  proof (cases t)
    case Nil
    with Cons.prems show ?thesis
      by (auto simp: strcmp_step [of m a b] word_neq_0_conv word_less_def)
  next
    case (Cons d t')
    with Cons.prems have a: "m a = c" "c \<noteq> 0" "cstring_at m (a + 1) s"
      and b: "m b = d" "d \<noteq> 0" "cstring_at m (b + 1) t'" by auto
    show ?thesis
    proof (cases "c = d")
      case True
      with Cons.IH [OF a(3) b(3)] a b \<open>t = d # t'\<close> show ?thesis
        by (auto simp: strcmp_step [of m a b])
    next
      case False
      with a b \<open>t = d # t'\<close> show ?thesis
        by (auto simp: strcmp_step [of m a b] word_uint_eq_iff word_less_def)
    qed
  qed
qed

lemma memcpy_loop_eq:
  assumes "i \<le> n" and "apart d n s n" and "n < 2 ^ 64"
  shows "memcpy_loop d s i n m x
     = (if i \<le> unat (x - d) \<and> unat (x - d) < n then m (s + (x - d)) else m x)"
  using assms
proof (induction "n - i" arbitrary: i m)
  case 0
  then show ?case by (subst memcpy_loop.simps) auto
next
  case (Suc k)
  then have i: "i < n" and i64: "i < 2 ^ 64" by simp_all
  then have eq: "x = d + of_nat i \<longleftrightarrow> unat (x - d) = i" by (simp add: offset_unat_iff)
  define m' where "m' = m(d + of_nat i := m (s + of_nat i))"
  have src: "m' (s + (x - d)) = m (s + (x - d))" if "unat (x - d) < n"
  proof -
    have "outside d n (s + of_nat (unat (x - d)))"
      using Suc.prems(2) that by (rule apart_outside)
    then have "unat (s + (x - d) - d) \<noteq> i" using i by (simp add: outside_def)
    then show ?thesis
      using i64 by (simp add: m'_def offset_unat_iff)
  qed
  from Suc have "k = n - Suc i" by simp
  from Suc.hyps(1) [OF this, of m'] i Suc.prems
  have "memcpy_loop d s i n m x
     = (if Suc i \<le> unat (x - d) \<and> unat (x - d) < n then m' (s + (x - d)) else m' x)"
    by (simp add: memcpy_loop.simps [of d s i n m] m'_def)
  with src eq i show ?case
    by (auto simp: m'_def)
qed

lemma memcpy_mem:
  assumes "apart dst (unat n) src (unat n)"
  shows "snd (memcpy dst src n m) x = (if unat (x - dst) < unat n then m (src + (x - dst)) else m x)"
  using assms by (simp add: memcpy_def memcpy_loop_eq [OF _ _ unat_u64_less(1)])

end
