(* ===== verification/Vmm.thy ===== *)
theory Vmm
  imports Pmm CString
begin

text \<open>
  \<open>src/kernel/memory/vmm.c\<close>: the four-level page tables. Tables are frames reached through the
  direct map; \<open>vmm_map_page\<close> creates missing tables with frames of the allocator.

  The abstraction is the page-table tree: \<open>pt_entry m h r js j\<close> is entry \<open>j\<close> of the table that the
  index path \<open>js\<close> (innermost index first) leads to, if there is one. \<open>pt_inv s ps\<close> says that the
  tree shares no table, that no table is a free frame, and that the free list is intact. Creating
  a table changes no translation; writing a leaf entry changes the translation of one page.
\<close>

section \<open>Operations\<close>

definition PML4_I :: "u64 \<Rightarrow> u64" where
  "PML4_I v = drop_bit 39 v AND 0x1FF"

definition PDPT_I :: "u64 \<Rightarrow> u64" where
  "PDPT_I v = drop_bit 30 v AND 0x1FF"

definition PD_I :: "u64 \<Rightarrow> u64" where
  "PD_I v = drop_bit 21 v AND 0x1FF"

definition PT_I :: "u64 \<Rightarrow> u64" where
  "PT_I v = drop_bit 12 v AND 0x1FF"

definition phys_mask :: "u64 \<Rightarrow> u64" where
  "phys_mask e = e AND 0x000FFFFFFFFFF000"

definition get_cr3 :: "'a machine_scheme \<Rightarrow> u64" where
  "get_cr3 s = cr3 s"

definition do_invlpg :: "u64 \<Rightarrow> 'a machine_scheme \<Rightarrow> 'a machine_scheme" where
  "do_invlpg v s = hw_emit (Invlpg v) s"

text \<open>The address of entry \<open>i\<close> of the table in frame \<open>t\<close>: \<open>&((uint64_t *)(hhdm + t))[i]\<close>.\<close>

abbreviation cell :: "u64 \<Rightarrow> u64 \<Rightarrow> u64 \<Rightarrow> u64" where
  "cell h t i \<equiv> h + t + 8 * i"

definition ensure_table :: "u64 \<Rightarrow> u64 \<Rightarrow> u64 \<Rightarrow> pmm_state \<Rightarrow> u64 \<times> pmm_state" where
  "ensure_table hhdm entry flags s =
     (if load64 (mem s) entry AND 1 \<noteq> 0 then (phys_mask (load64 (mem s) entry), s)
      else (let (p, s1) = pmm_alloc s
            in if p = 0 then (0, s1)
               else (let s2 = s1\<lparr>mem := memset_loop (hhdm + p) 0 0 4096 (mem s1)\<rparr>
                     in (p, s2\<lparr>mem := store64 (mem s2) entry (p OR flags)\<rparr>))))"

definition vmm_init :: "pmm_state \<Rightarrow> pmm_state" where
  "vmm_init s = s"

definition vmm_map_page :: "u64 \<Rightarrow> u64 \<Rightarrow> u64 \<Rightarrow> u64 \<Rightarrow> pmm_state \<Rightarrow> pmm_state" where
  "vmm_map_page hhdm virt phys flags s =
     (let pml4_pa = page_down (get_cr3 s);
          (pdpt_pa, s1) = ensure_table hhdm (cell hhdm pml4_pa (PML4_I virt)) 0x03 s
      in if pdpt_pa = 0 then s1
      else let p3e = cell hhdm pdpt_pa (PDPT_I virt)
      in if load64 (mem s1) p3e AND 0x80 \<noteq> 0 then s1
      else let (pd_pa, s2) = ensure_table hhdm p3e 0x03 s1
      in if pd_pa = 0 then s2
      else let p2e = cell hhdm pd_pa (PD_I virt)
      in if load64 (mem s2) p2e AND 0x80 \<noteq> 0 then s2
      else let (pt_pa, s3) = ensure_table hhdm p2e 0x03 s2
      in if pt_pa = 0 then s3
      else do_invlpg virt
             (s3\<lparr>mem := store64 (mem s3) (cell hhdm pt_pa (PT_I virt)) (page_down phys OR flags)\<rparr>))"

definition vmm_unmap_page :: "u64 \<Rightarrow> u64 \<Rightarrow> pmm_state \<Rightarrow> pmm_state" where
  "vmm_unmap_page hhdm virt s =
     (let p4e = load64 (mem s) (cell hhdm (page_down (get_cr3 s)) (PML4_I virt))
      in if p4e AND 1 = 0 then s
      else let p3e = load64 (mem s) (cell hhdm (phys_mask p4e) (PDPT_I virt))
      in if p3e AND 1 = 0 \<or> p3e AND 0x80 \<noteq> 0 then s
      else let p2e = load64 (mem s) (cell hhdm (phys_mask p3e) (PD_I virt))
      in if p2e AND 1 = 0 \<or> p2e AND 0x80 \<noteq> 0 then s
      else do_invlpg virt
             (s\<lparr>mem := store64 (mem s) (cell hhdm (phys_mask p2e) (PT_I virt)) 0\<rparr>))"

definition vmm_virt_to_phys :: "u64 \<Rightarrow> u64 \<Rightarrow> 'a machine_scheme \<Rightarrow> u64" where
  "vmm_virt_to_phys hhdm virt s =
     (let p4e = load64 (mem s) (cell hhdm (page_down (get_cr3 s)) (PML4_I virt))
      in if p4e AND 1 = 0 then 0
      else let p3e = load64 (mem s) (cell hhdm (phys_mask p4e) (PDPT_I virt))
      in if p3e AND 1 = 0 then 0
      else if p3e AND 0x80 \<noteq> 0 then (p3e AND 0x000FFFFFC0000000) + (virt AND 0x3FFFFFFF)
      else let p2e = load64 (mem s) (cell hhdm (phys_mask p3e) (PD_I virt))
      in if p2e AND 1 = 0 then 0
      else if p2e AND 0x80 \<noteq> 0 then phys_mask p2e + (virt AND 0x1FFFFF)
      else let p1e = load64 (mem s) (cell hhdm (phys_mask p2e) (PT_I virt))
      in if p1e AND 1 = 0 then 0
      else phys_mask p1e + (virt AND 0xFFF))"

section \<open>The page-table tree\<close>

text \<open>The table behind entry \<open>i\<close> of table \<open>t\<close>; \<open>chk\<close> is false at the top level only, whose entries
  have no large-page bit.\<close>

definition pt_next :: "memory \<Rightarrow> u64 \<Rightarrow> bool \<Rightarrow> u64 \<Rightarrow> u64 \<Rightarrow> u64 option" where
  "pt_next m h chk t i =
     (let e = load64 m (cell h t i)
      in if e AND 1 = 0 \<or> chk \<and> e AND 0x80 \<noteq> 0 then None else Some (phys_mask e))"

primrec pt_table :: "memory \<Rightarrow> u64 \<Rightarrow> u64 \<Rightarrow> u64 list \<Rightarrow> u64 option" where
  "pt_table m h r [] = Some r"
| "pt_table m h r (i # js) =
     (case pt_table m h r js of None \<Rightarrow> None | Some t \<Rightarrow> pt_next m h (js \<noteq> []) t i)"

definition pt_entry :: "memory \<Rightarrow> u64 \<Rightarrow> u64 \<Rightarrow> u64 list \<Rightarrow> u64 \<Rightarrow> u64 option" where
  "pt_entry m h r js j = map_option (\<lambda>t. load64 m (cell h t j)) (pt_table m h r js)"

definition pt_path :: "u64 list \<Rightarrow> bool" where
  "pt_path js \<longleftrightarrow> length js \<le> 3 \<and> (\<forall>j \<in> set js. j < 512)"

definition pt_tree :: "memory \<Rightarrow> u64 \<Rightarrow> u64 \<Rightarrow> bool" where
  "pt_tree m h r \<longleftrightarrow> page_aligned r
     \<and> (\<forall>js t. pt_path js \<longrightarrow> pt_table m h r js = Some t \<longrightarrow> t \<noteq> 0)
     \<and> (\<forall>js ks t. pt_path js \<longrightarrow> pt_path ks \<longrightarrow>
          pt_table m h r js = Some t \<longrightarrow> pt_table m h r ks = Some t \<longrightarrow> js = ks)"

definition pt_inv :: "pmm_state \<Rightarrow> u64 list \<Rightarrow> bool" where
  "pt_inv s ps \<longleftrightarrow> pmm_inv s ps \<and> (\<forall>p \<in> set ps. p < 2 ^ 52)
     \<and> pt_tree (mem s) (pmm_hhdm s) (page_down (cr3 s))
     \<and> (\<forall>js t. pt_path js \<longrightarrow> pt_table (mem s) (pmm_hhdm s) (page_down (cr3 s)) js = Some t \<longrightarrow>
          t \<notin> set ps)"

text \<open>The translation as a function of the tree.\<close>

definition pt_xlat :: "(u64 list \<Rightarrow> u64 \<Rightarrow> u64 option) \<Rightarrow> u64 \<Rightarrow> u64" where
  "pt_xlat E v =
     (let e4 = the (E [] (PML4_I v))
      in if e4 AND 1 = 0 then 0
      else let e3 = the (E [PML4_I v] (PDPT_I v))
      in if e3 AND 1 = 0 then 0
      else if e3 AND 0x80 \<noteq> 0 then (e3 AND 0x000FFFFFC0000000) + (v AND 0x3FFFFFFF)
      else let e2 = the (E [PDPT_I v, PML4_I v] (PD_I v))
      in if e2 AND 1 = 0 then 0
      else if e2 AND 0x80 \<noteq> 0 then phys_mask e2 + (v AND 0x1FFFFF)
      else let e1 = the (E [PD_I v, PDPT_I v, PML4_I v] (PT_I v))
      in if e1 AND 1 = 0 then 0 else phys_mask e1 + (v AND 0xFFF))"

lemma vmm_virt_to_phys_xlat:
  "vmm_virt_to_phys h v s = pt_xlat (pt_entry (mem s) h (page_down (cr3 s))) v"
  by (simp add: vmm_virt_to_phys_def pt_xlat_def pt_entry_def get_cr3_def pt_next_def Let_def)

subsection \<open>Indices and cells\<close>

lemma and_1FF_less: "(x::u64) AND 0x1FF < 512"
proof -
  have "x AND 0x1FF \<le> 0x1FF" by (rule word_and_le1)
  then show ?thesis by (simp add: word_le_nat_alt word_less_nat_alt)
qed

lemma index_less [simp]: "PML4_I v < 512" "PDPT_I v < 512" "PD_I v < 512" "PT_I v < 512"
  by (simp_all add: PML4_I_def PDPT_I_def PD_I_def PT_I_def and_1FF_less)

lemma pt_path_simps [simp]:
  "pt_path []" "pt_path (j # js) \<longleftrightarrow> length js \<le> 2 \<and> j < 512 \<and> (\<forall>j \<in> set js. j < 512)"
  by (auto simp: pt_path_def)

lemma phys_mask_aligned [simp]: "page_aligned (phys_mask e)"
  by (simp add: page_aligned_def phys_mask_def and.assoc)

lemma cells_apart:
  assumes "page_aligned t" "page_aligned t'" "i < 512" "j < 512" "t \<noteq> t' \<or> i \<noteq> j"
  shows "apart (cell h t i) 8 (cell h t' j) 8"
proof (cases "t = t'")
  case False
  with assms have "apart (h + t + of_nat (8 * unat i)) 8 (h + t' + of_nat (8 * unat j)) 8"
    by (intro frames_apart) (auto simp: word_less_nat_alt)
  then show ?thesis by simp
next
  case True
  with assms have ne: "unat i \<noteq> unat j" by (auto simp: word_unat_eq_iff)
  have i: "unat (8 * i) = 8 * unat i" "unat (8 * j) = 8 * unat j" and
    lt: "unat i < 512" "unat j < 512"
    using assms by (simp_all add: word_less_nat_alt unat_word_ariths)
  have d: "cell h t j - cell h t i = 8 * j - 8 * i" "cell h t i - cell h t j = 8 * i - 8 * j"
    by simp_all
  from ne consider "unat i < unat j" | "unat j < unat i" by linarith
  then show ?thesis
    unfolding True [symmetric] apart_def d using lt
    by cases (auto simp: unat_sub_if' i)
qed

lemma cell_in_frame:
  assumes "i < 512" "k < 8"
  shows "in_frame h t (cell h t i + of_nat k)"
proof -
  have "8 * i + of_nat k = (of_nat (8 * unat i + k) :: u64)" by simp
  moreover have "8 * unat i + k < 4096" using assms by (simp add: word_less_nat_alt)
  moreover from this have "unat (of_nat (8 * unat i + k) :: u64) = 8 * unat i + k"
    by (intro unat_of_nat_u64) simp
  ultimately have "unat (8 * i + of_nat k) < 4096" by (simp only:)
  then show ?thesis by (simp add: in_frame_def)
qed

lemma cell_outside:
  assumes "i < 512" "\<not> in_frame h t x"
  shows "outside (cell h t i) 8 x"
proof (rule ccontr)
  assume "\<not> outside (cell h t i) 8 x"
  then have "unat (x - cell h t i) < 8" by (simp add: outside_def)
  from cell_in_frame [OF assms(1) this, of h t] assms(2) show False by simp
qed

text \<open>Clearing a frame: every entry of it reads 0, every other frame keeps its contents.\<close>

definition zero_frame :: "u64 \<Rightarrow> u64 \<Rightarrow> memory \<Rightarrow> memory" where
  "zero_frame h p m = memset_loop (h + p) 0 0 4096 m"

lemma zero_frame_mem: "zero_frame h p m x = (if in_frame h p x then 0 else m x)"
  by (simp add: zero_frame_def memset_loop_eq in_frame_def)

lemma zero_frame_cell: "i < 512 \<Longrightarrow> load64 (zero_frame h p m) (cell h p i) = 0"
  by (rule load64_zero) (simp add: zero_frame_mem cell_in_frame)

text \<open>A change inside one frame is invisible in every other frame.\<close>

lemma frame_update_other:
  assumes "\<And>x. \<not> in_frame h p x \<Longrightarrow> m' x = m x" "page_aligned p" "page_aligned t" "p \<noteq> t" "i < 512"
  shows "load64 m' (cell h t i) = load64 m (cell h t i)"
proof (rule load64_cong)
  fix k :: nat assume "k < 8"
  with assms(5) have "in_frame h t (cell h t i + of_nat k)" by (rule cell_in_frame)
  with assms(2-4) have "\<not> in_frame h p (cell h t i + of_nat k)" using in_frame_unique by blast
  then show "m' (cell h t i + of_nat k) = m (cell h t i + of_nat k)" by (rule assms(1))
qed

lemma zero_frame_other:
  assumes "page_aligned p" "page_aligned t" "p \<noteq> t" "i < 512"
  shows "load64 (zero_frame h p m) (cell h t i) = load64 m (cell h t i)"
  by (rule frame_update_other [OF _ assms]) (simp add: zero_frame_mem)

subsection \<open>The tree under memory updates\<close>

lemma pt_path_tl: "pt_path (j # js) \<Longrightarrow> pt_path js"
  by (auto simp: pt_path_def)

lemma pt_table_aligned: "page_aligned r \<Longrightarrow> pt_table m h r js = Some t \<Longrightarrow> page_aligned t"
  by (cases js) (auto simp: pt_next_def Let_def split: option.splits if_splits)

lemma tree_cong:
  assumes same: "\<And>js t j. pt_path js \<Longrightarrow> pt_table m h r js = Some t \<Longrightarrow> j < 512 \<Longrightarrow>
      load64 m' (cell h t j) = load64 m (cell h t j)"
  shows "pt_path js \<Longrightarrow> pt_table m' h r js = pt_table m h r js"
proof (induction js)
  case Nil
  then show ?case by simp
next
  case (Cons j js)
  then have "pt_path js" "j < 512" using pt_path_tl by auto
  with Cons.IH same [of js _ j] show ?case
    by (auto simp: pt_next_def split: option.splits)
qed

lemma tree_store_cell:
  assumes tree: "pt_tree m h r" and js0: "pt_path js0" "pt_table m h r js0 = Some t" "i < 512"
    and js: "pt_path js" "pt_table m h r js = Some t'" "j < 512"
  shows "load64 (store64 m (cell h t i) v) (cell h t' j)
     = (if js = js0 \<and> j = i then v else load64 m (cell h t' j))"
proof (cases "js = js0 \<and> j = i")
  case True
  with js0 js show ?thesis by simp
next
  case False
  with tree js0 js have "t \<noteq> t' \<or> i \<noteq> j" unfolding pt_tree_def by blast
  moreover have "page_aligned t" "page_aligned t'"
    using tree js0 js pt_table_aligned by (auto simp: pt_tree_def)
  ultimately have "apart (cell h t i) 8 (cell h t' j) 8" using js0 js by (intro cells_apart)
  with False show ?thesis by (auto simp: load64_store64_apart)
qed

text \<open>Writing entry \<open>i\<close> of the table at \<open>js0\<close> leaves every table in place that is not reached
  through that entry.\<close>

lemma tree_store:
  assumes tree: "pt_tree m h r" and js0: "pt_path js0" "pt_table m h r js0 = Some t" "i < 512"
  shows "pt_path js \<Longrightarrow> (\<And>ks. js \<noteq> ks @ i # js0) \<Longrightarrow>
     pt_table (store64 m (cell h t i) v) h r js = pt_table m h r js"
proof (induction js)
  case Nil
  then show ?case by simp
next
  case (Cons k js)
  have p: "pt_path js" "k < 512" using Cons.prems(1) pt_path_tl by auto
  have "js \<noteq> ks @ i # js0" for ks using Cons.prems(2) [of "k # ks"] by simp
  with Cons.IH p have IH: "pt_table (store64 m (cell h t i) v) h r js = pt_table m h r js" by blast
  have "\<not> (js = js0 \<and> k = i)" using Cons.prems(2) [of "[]"] by auto
  then have "load64 (store64 m (cell h t i) v) (cell h t' k) = load64 m (cell h t' k)"
    if "pt_table m h r js = Some t'" for t'
    using tree_store_cell [OF tree js0 p(1) that p(2)] by auto
  with IH show ?case by (simp add: pt_next_def split: option.split)
qed

lemma tree_store_entry:
  assumes "pt_tree m h r" "pt_path js0" "pt_table m h r js0 = Some t" "i < 512"
    and "pt_path js" "\<And>ks. js \<noteq> ks @ i # js0" "j < 512"
  shows "pt_entry (store64 m (cell h t i) v) h r js j
     = (if js = js0 \<and> j = i then Some v else pt_entry m h r js j)"
  using tree_store [OF assms(1-6)] tree_store_cell [OF assms(1-5) _ assms(7)] assms(3)
  by (cases "pt_table m h r js") (auto simp: pt_entry_def)

subsection \<open>Creating a table\<close>

lemma less_4096_and: "(f::u64) < 4096 \<Longrightarrow> f AND 0xFFF = f"
  by (simp add: mask12 take_bit_eq_mask [symmetric] take_bit_eq_mod word_arith_nat_mod
      word_less_nat_alt)

lemma phys_frame_mask: "page_aligned p \<Longrightarrow> p < 2 ^ 52 \<Longrightarrow> phys_mask p = p"
proof -
  assume p: "page_aligned p" "p < 2 ^ 52"
  have "take_bit 52 p = p"
    using p(2) by (simp add: take_bit_eq_mod word_arith_nat_mod word_less_nat_alt)
  then have "p AND 0xFFFFFFFFFFFFF = p"
    by (simp add: take_bit_eq_mask mask_eq_exp_minus_1)
  moreover have "phys_mask p = page_down (p AND 0xFFFFFFFFFFFFF)"
    by (simp add: phys_mask_def page_down_def and.assoc)
  ultimately show ?thesis using page_down_same [OF p(1)] by simp
qed

text \<open>An entry is a frame address and flag bits; neither part disturbs the other.\<close>

lemma entry_flags:
  assumes "page_aligned p" "c < 4096"
  shows "(p OR f) AND c = f AND c"
proof -
  have "p AND c = (p AND 0xFFF) AND c"
    using less_4096_and [OF assms(2)] by (metis and.assoc and.commute)
  also have "\<dots> = 0" using assms(1) by (simp add: page_aligned_def)
  finally show ?thesis by (simp add: bit.conj_disj_distrib2)
qed

lemma entry_frame:
  assumes "page_aligned p" "p < 2 ^ 52" "f < 4096"
  shows "phys_mask (p OR f) = p"
proof -
  have "phys_mask f = (f AND 0xFFF) AND 0x000FFFFFFFFFF000"
    using less_4096_and [OF assms(3)] by (simp add: phys_mask_def)
  also have "\<dots> = 0" by (simp add: and.assoc)
  finally have "phys_mask f = 0" .
  with phys_frame_mask [OF assms(1,2)] show ?thesis
    by (simp add: phys_mask_def bit.conj_disj_distrib2)
qed

text \<open>\<open>ensure_table\<close> on an absent entry links a cleared frame into the tree.\<close>

definition link_table :: "u64 \<Rightarrow> u64 \<Rightarrow> u64 \<Rightarrow> u64 \<Rightarrow> memory \<Rightarrow> memory" where
  "link_table h p t i m = store64 (zero_frame h p m) (cell h t i) (p OR 3)"

definition not_table :: "memory \<Rightarrow> u64 \<Rightarrow> u64 \<Rightarrow> u64 \<Rightarrow> bool" where
  "not_table m h r p \<longleftrightarrow> (\<forall>js. pt_path js \<longrightarrow> pt_table m h r js \<noteq> Some p)"

lemma frame_update_tree:
  assumes tree: "pt_tree m h r" and p: "page_aligned p" "not_table m h r p"
    and upd: "\<And>x. \<not> in_frame h p x \<Longrightarrow> m' x = m x"
  shows "pt_path js \<Longrightarrow> pt_table m' h r js = pt_table m h r js"
    and "pt_path js \<Longrightarrow> j < 512 \<Longrightarrow> pt_entry m' h r js j = pt_entry m h r js j"
    and "pt_tree m' h r"
proof -
  have same: "load64 m' (cell h t j) = load64 m (cell h t j)"
    if "pt_path js" "pt_table m h r js = Some t" "j < 512" for js t j
  proof (rule frame_update_other [OF upd p(1)])
    show "page_aligned t" using tree that pt_table_aligned by (auto simp: pt_tree_def)
    show "p \<noteq> t" using p(2) that by (auto simp: not_table_def)
  qed (use that(3) in auto)
  then show t: "pt_table m' h r js = pt_table m h r js" if "pt_path js" for js
    using that by (rule tree_cong)
  show "pt_path js \<Longrightarrow> j < 512 \<Longrightarrow> pt_entry m' h r js j = pt_entry m h r js j"
    using t same by (cases "pt_table m h r js") (auto simp: pt_entry_def)
  show "pt_tree m' h r" using tree t unfolding pt_tree_def by metis
qed

lemma zero_frame_tree:
  assumes "pt_tree m h r" "page_aligned p" "not_table m h r p"
  shows "pt_path js \<Longrightarrow> pt_table (zero_frame h p m) h r js = pt_table m h r js"
    and "pt_path js \<Longrightarrow> j < 512 \<Longrightarrow> pt_entry (zero_frame h p m) h r js j = pt_entry m h r js j"
    and "pt_tree (zero_frame h p m) h r"
  using frame_update_tree [OF assms, of "zero_frame h p m"] by (simp_all add: zero_frame_mem)

lemma pt_table_absent:
  "pt_table m h r js = None \<Longrightarrow> pt_table m h r (ks @ js) = None"
  by (induction ks) simp_all

lemma link_table_tree:
  assumes tree: "pt_tree m h r" and p: "page_aligned p" "p < 2 ^ 52"
      "not_table m h r p"
    and at: "pt_path (i # js0)" "pt_table m h r js0 = Some t" "load64 m (cell h t i) AND 1 = 0"
    and js: "pt_path js"
  shows "pt_table (link_table h p t i m) h r js
      = (if js = i # js0 then Some p else pt_table m h r js)"
proof -
  let ?z = "zero_frame h p m" and ?m = "link_table h p t i m"
  have js0: "pt_path js0" "i < 512" using at(1) pt_path_tl by auto
  have ztree: "pt_tree ?z h r" using tree p by (intro zero_frame_tree(3))
  have zt: "pt_table ?z h r js0 = Some t"
    using zero_frame_tree(1) [OF tree p(1,3) js0(1)] at(2) by simp
  note st = tree_store [OF ztree js0(1) zt js0(2), where v = "p OR 3", folded link_table_def]
  show ?thesis
  proof (cases "\<exists>ks. js = ks @ i # js0")
    case False
    then have "pt_table ?m h r js = pt_table ?z h r js" using st js by blast
    also have "\<dots> = pt_table m h r js" using zero_frame_tree(1) [OF tree p(1,3) js] .
    finally show ?thesis using False by auto
  next
    case True
    then obtain ks where ks: "js = ks @ i # js0" by blast
    have link: "pt_table ?m h r (i # js0) = Some p"
      using st [OF js0(1) not_suffix_self] zt p entry_flags [OF p(1), of 1 3] entry_flags [OF p(1), of "0x80" 3]
        entry_frame [OF p(1,2), of 3]
      by (simp add: pt_next_def link_table_def)
    have below: "pt_table ?m h r (k # i # js0) = None" if "k < 512" for k
    proof -
      have "t \<noteq> p" using p(3) at(2) js0(1) by (auto simp: not_table_def)
      moreover have "page_aligned t" using tree at(2) pt_table_aligned by (auto simp: pt_tree_def)
      ultimately have "apart (cell h t i) 8 (cell h p k) 8"
        using p(1) js0(2) that by (intro cells_apart) auto
      then have "load64 ?m (cell h p k) = 0"
        using that by (simp add: link_table_def load64_store64_apart zero_frame_cell)
      with link show ?thesis by (simp add: pt_next_def)
    qed
    have old: "pt_table m h r (i # js0) = None" using at by (simp add: pt_next_def)
    show ?thesis
    proof (cases ks rule: rev_cases)
      case Nil
      with ks link show ?thesis by simp
    next
      case (snoc ks' k)
      with ks js have "k < 512" by (auto simp: pt_path_def)
      from pt_table_absent [OF below [OF this], of ks'] pt_table_absent [OF old, of ks]
      show ?thesis using ks snoc by simp
    qed
  qed
qed

lemma link_table_pt_tree:
  assumes tree: "pt_tree m h r" and p: "page_aligned p" "p < 2 ^ 52" "p \<noteq> 0"
      "not_table m h r p"
    and at: "pt_path (i # js0)" "pt_table m h r js0 = Some t" "load64 m (cell h t i) AND 1 = 0"
  shows "pt_tree (link_table h p t i m) h r"
proof -
  note lt = link_table_tree [OF tree p(1,2,4) at]
  have "t' \<noteq> 0" if "pt_path js" "pt_table (link_table h p t i m) h r js = Some t'" for js t'
    using that lt [OF that(1)] tree p(3) unfolding pt_tree_def by (metis option.inject)
  moreover have "js = ks" if "pt_path js" "pt_path ks"
    "pt_table (link_table h p t i m) h r js = Some t'"
    "pt_table (link_table h p t i m) h r ks = Some t'" for js ks t'
    using that lt [OF that(1)] lt [OF that(2)] p(4) tree
    unfolding pt_tree_def not_table_def by (auto split: if_splits)
  ultimately show ?thesis using tree unfolding pt_tree_def by blast
qed

lemma link_table_entry:
  assumes tree: "pt_tree m h r" and p: "page_aligned p" "p < 2 ^ 52"
      "not_table m h r p"
    and at: "pt_path (i # js0)" "pt_table m h r js0 = Some t" "load64 m (cell h t i) AND 1 = 0"
    and js: "pt_path js" "j < 512"
  shows "pt_entry (link_table h p t i m) h r js j
      = (if js = js0 \<and> j = i then Some (p OR 3) else if js = i # js0 then Some 0
         else pt_entry m h r js j)"
proof -
  let ?z = "zero_frame h p m" and ?m = "link_table h p t i m"
  have js0: "pt_path js0" "i < 512" using at(1) pt_path_tl by auto
  have t: "page_aligned t" "t \<noteq> p" using tree at(2) p(3) js0(1) pt_table_aligned
    by (auto simp: pt_tree_def not_table_def)
  have cells: "load64 ?m (cell h t' j) = load64 m (cell h t' j)"
    if "pt_table m h r js = Some t'" "\<not> (js = js0 \<and> j = i)" for t'
  proof -
    have t': "page_aligned t'" "t' \<noteq> p"
      using tree that(1) p(3) js(1) pt_table_aligned by (auto simp: pt_tree_def not_table_def)
    have "t \<noteq> t' \<or> i \<noteq> j" using tree that at(2) js(1) js0(1) unfolding pt_tree_def by blast
    then have "apart (cell h t i) 8 (cell h t' j) 8"
      using t t' js(2) js0(2) by (intro cells_apart) auto
    with t' p(1) js(2) show ?thesis
      by (simp add: link_table_def load64_store64_apart zero_frame_other)
  qed
  have new: "load64 ?m (cell h p j) = 0"
    using cells_apart [of t p i j h] t p(1) js(2) js0(2)
    by (simp add: link_table_def load64_store64_apart zero_frame_cell)
  have ne: "i # js0 \<noteq> js0" by simp
  show ?thesis
    using link_table_tree [OF tree p at js(1)] cells new at(2) ne
    by (cases "pt_table m h r js") (auto simp: pt_entry_def link_table_def)
qed

lemma pt_xlat_cong:
  assumes "E' [] (PML4_I v) = E [] (PML4_I v)"
    and "E' [PML4_I v] (PDPT_I v) = E [PML4_I v] (PDPT_I v)"
    and "E' [PDPT_I v, PML4_I v] (PD_I v) = E [PDPT_I v, PML4_I v] (PD_I v)"
    and "E' [PD_I v, PDPT_I v, PML4_I v] (PT_I v) = E [PD_I v, PDPT_I v, PML4_I v] (PT_I v)"
  shows "pt_xlat E' v = pt_xlat E v"
  unfolding pt_xlat_def assms by (rule refl)

text \<open>Linking an empty table changes no translation: what was behind an absent entry is now behind
  a table of absent entries.\<close>

lemma link_table_xlat:
  assumes E: "\<And>js j. pt_path js \<Longrightarrow> j < 512 \<Longrightarrow>
      E' js j = (if js = js0 \<and> j = i then Some (p OR 3) else if js = i # js0 then Some 0 else E js j)"
    and p: "page_aligned p" and old: "E js0 i = Some e" "e AND 1 = 0" and len: "length js0 \<le> 2"
  shows "pt_xlat E' v = pt_xlat E v"
proof -
  have p3: "(p OR 3) AND 1 \<noteq> 0" "(p OR 3) AND 0x80 = 0"
    using entry_flags [OF p, of 1 3] entry_flags [OF p, of "0x80" 3] by simp_all
  have E4: "E' [] (PML4_I v) = (if js0 = [] \<and> PML4_I v = i then Some (p OR 3) else E [] (PML4_I v))"
    using E [of "[]" "PML4_I v"] by auto
  have E3: "E' [PML4_I v] (PDPT_I v) = (if js0 = [PML4_I v] \<and> PDPT_I v = i then Some (p OR 3)
      else if js0 = [] \<and> PML4_I v = i then Some 0 else E [PML4_I v] (PDPT_I v))"
    using E [of "[PML4_I v]" "PDPT_I v"] by auto
  have E2: "E' [PDPT_I v, PML4_I v] (PD_I v)
      = (if js0 = [PDPT_I v, PML4_I v] \<and> PD_I v = i then Some (p OR 3)
         else if js0 = [PML4_I v] \<and> PDPT_I v = i then Some 0 else E [PDPT_I v, PML4_I v] (PD_I v))"
    using E [of "[PDPT_I v, PML4_I v]" "PD_I v"] by auto
  have E1: "E' [PD_I v, PDPT_I v, PML4_I v] (PT_I v)
      = (if js0 = [PD_I v, PDPT_I v, PML4_I v] \<and> PT_I v = i then Some (p OR 3)
         else if js0 = [PDPT_I v, PML4_I v] \<and> PD_I v = i then Some 0
         else E [PD_I v, PDPT_I v, PML4_I v] (PT_I v))"
    using E [of "[PD_I v, PDPT_I v, PML4_I v]" "PT_I v"] by auto
  consider "js0 = []" "i = PML4_I v" | "js0 = [PML4_I v]" "i = PDPT_I v"
    | "js0 = [PDPT_I v, PML4_I v]" "i = PD_I v"
    | "\<not> (js0 = [] \<and> PML4_I v = i)" "\<not> (js0 = [PML4_I v] \<and> PDPT_I v = i)"
      "\<not> (js0 = [PDPT_I v, PML4_I v] \<and> PD_I v = i)" by blast
  then show ?thesis
  proof cases
    case 1
    with old p3 E4 E3 show ?thesis by (simp add: pt_xlat_def Let_def)
  next
    case 2
    with old p3 E4 E3 E2 show ?thesis by (simp add: pt_xlat_def Let_def)
  next
    case 3
    with old p3 E4 E3 E2 E1 show ?thesis by (simp add: pt_xlat_def Let_def)
  next
    case 4
    moreover have "js0 \<noteq> [PD_I v, PDPT_I v, PML4_I v]" using len by auto
    ultimately show ?thesis using E4 E3 E2 E1 by (intro pt_xlat_cong) auto
  qed
qed

section \<open>The operations on the tree\<close>

abbreviation ptab :: "pmm_state \<Rightarrow> u64 list \<Rightarrow> u64 option" where
  "ptab s \<equiv> pt_table (mem s) (pmm_hhdm s) (page_down (cr3 s))"

abbreviation pent :: "pmm_state \<Rightarrow> u64 list \<Rightarrow> u64 \<Rightarrow> u64 option" where
  "pent s \<equiv> pt_entry (mem s) (pmm_hhdm s) (page_down (cr3 s))"

text \<open>\<open>pt_step s s'\<close>: what linking tables may do. Every table stays, no large-page entry appears,
  no translation changes, and the machine's registers stay.\<close>

definition pt_step :: "pmm_state \<Rightarrow> pmm_state \<Rightarrow> bool" where
  "pt_step s s' \<longleftrightarrow> pmm_hhdm s' = pmm_hhdm s \<and> cr3 s' = cr3 s \<and> hw_log s' = hw_log s
     \<and> (\<forall>js t. pt_path js \<longrightarrow> ptab s js = Some t \<longrightarrow> ptab s' js = Some t)
     \<and> (\<forall>js j e. pt_path js \<longrightarrow> j < 512 \<longrightarrow> pent s' js j = Some e \<longrightarrow> e AND 0x80 \<noteq> 0 \<longrightarrow>
          pent s js j = Some e)
     \<and> (\<forall>v. vmm_virt_to_phys (pmm_hhdm s) v s' = vmm_virt_to_phys (pmm_hhdm s) v s)"

lemma pt_step_refl: "pt_step s s"
  by (simp add: pt_step_def)

lemma pt_step_trans: "pt_step s t \<Longrightarrow> pt_step t u \<Longrightarrow> pt_step s u"
  by (auto simp: pt_step_def)

lemma pt_inv_table:
  assumes "pt_inv s ps" "pt_path js" "ptab s js = Some t"
  shows "page_aligned t" "t \<noteq> 0" "t \<notin> set ps"
proof -
  from assms(1) have "pt_tree (mem s) (pmm_hhdm s) (page_down (cr3 s))" by (simp add: pt_inv_def)
  then show "t \<noteq> 0" using assms(2,3) unfolding pt_tree_def by blast
  show "page_aligned t" using assms(3) by (rule pt_table_aligned [rotated]) simp
  show "t \<notin> set ps" using assms unfolding pt_inv_def by blast
qed

lemma ensure_table_present:
  assumes "ptab s js0 = Some t" "load64 (mem s) (cell (pmm_hhdm s) t i) AND 1 \<noteq> 0"
    "js0 \<noteq> [] \<longrightarrow> load64 (mem s) (cell (pmm_hhdm s) t i) AND 0x80 = 0"
  shows "\<exists>t'. ensure_table (pmm_hhdm s) (cell (pmm_hhdm s) t i) f s = (t', s) \<and> ptab s (i # js0) = Some t'"
  using assms by (auto simp: ensure_table_def pt_next_def)

lemma ensure_table_link:
  assumes inv: "pt_inv s (p # ps)" and at: "pt_path (i # js0)" "ptab s js0 = Some t"
    and absent: "load64 (mem s) (cell (pmm_hhdm s) t i) AND 1 = 0"
  shows "\<exists>s'. ensure_table (pmm_hhdm s) (cell (pmm_hhdm s) t i) 3 s = (p, s')
      \<and> pt_inv s' ps \<and> pt_step s s' \<and> ptab s' (i # js0) = Some p"
proof -
  let ?h = "pmm_hhdm s" and ?r = "page_down (cr3 s)"
  from inv have pinv: "pmm_inv s (p # ps)" and tree: "pt_tree (mem s) ?h ?r"
    and p: "page_aligned p" "p < 2 ^ 52" "p \<noteq> 0" "p \<notin> set ps"
    and fr: "not_table (mem s) ?h ?r p"
    by (auto simp: pt_inv_def pmm_inv_def not_table_def)
  from pinv obtain s1 where s1: "pmm_alloc s = (p, s1)" "pmm_inv s1 ps" "mem s1 = mem s"
    "pmm_hhdm s1 = ?h" "cr3 s1 = cr3 s" "hw_log s1 = hw_log s" by (rule pmm_alloc_Cons)
  define s' where "s' = s1\<lparr>mem := link_table ?h p t i (mem s)\<rparr>"
  have ens: "ensure_table ?h (cell ?h t i) 3 s = (p, s')"
    using absent s1 p(3) by (simp add: ensure_table_def s'_def link_table_def zero_frame_def)
  have t: "page_aligned t" "t \<notin> set (p # ps)" "i < 512" "pt_path js0"
    using pt_inv_table [OF inv pt_path_tl [OF at(1)] at(2)] at(1) pt_path_tl by auto
  have "link_table ?h p t i (mem s) x = mem s x" if q: "q \<in> set ps" "in_frame ?h q x" for q x
  proof -
    have "page_aligned q" "q \<noteq> p" "q \<noteq> t" using pinv q p t by (auto simp: pmm_inv_def frame_list_def)
    then have "\<not> in_frame ?h p x" "\<not> in_frame ?h t x" using in_frame_unique q p t by blast+
    moreover from this(2) have "outside (cell ?h t i) 8 x"
      using cell_outside [OF t(3)] by blast
    ultimately show ?thesis by (simp add: link_table_def store64_outside zero_frame_mem)
  qed
  with s1 have pinv': "pmm_inv s' ps"
    unfolding s'_def by (intro pmm_inv_mem_cong) auto
  note lt = link_table_tree [OF tree p(1,2) fr at absent]
  have tab: "ptab s' js = (if js = i # js0 then Some p else ptab s js)" if "pt_path js" for js
    using lt [OF that] s1 by (simp add: s'_def)
  have "pt_inv s' ps"
    using pinv' inv tab link_table_pt_tree [OF tree p(1-3) fr at absent] p s1
    unfolding pt_inv_def by (auto simp: s'_def split: if_splits)
  moreover have ent: "pent s' js j = (if js = js0 \<and> j = i then Some (p OR 3)
      else if js = i # js0 then Some 0 else pent s js j)" if "pt_path js" "j < 512" for js j
    using link_table_entry [OF tree p(1,2) fr at absent that] s1 by (simp add: s'_def)
  moreover have "pt_xlat (pent s') v = pt_xlat (pent s) v" for v
  proof (rule link_table_xlat [OF ent p(1)])
    show "pent s js0 i = Some (load64 (mem s) (cell ?h t i))" using at(2) by (simp add: pt_entry_def)
    show "length js0 \<le> 2" using at(1) by simp
  qed (use absent in auto)
  moreover have "ptab s (i # js0) = None" using at(2) absent by (simp add: pt_next_def)
  moreover have "(p OR 3) AND 0x80 = 0" using entry_flags [OF p(1), of "0x80" 3] by simp
  ultimately have "pt_step s s'"
    using tab s1 by (auto simp: pt_step_def vmm_virt_to_phys_xlat s'_def split: if_splits)
  with ens \<open>pt_inv s' ps\<close> tab [OF at(1)] show ?thesis by auto
qed

text \<open>The page of a virtual address: bits 12 to 47, which the four table indices split up.\<close>

definition vpage :: "u64 \<Rightarrow> u64" where
  "vpage v = drop_bit 12 v AND 0xFFFFFFFFF"

lemma vpage_indices:
  "vpage v = vpage w \<longleftrightarrow>
     PML4_I v = PML4_I w \<and> PDPT_I v = PDPT_I w \<and> PD_I v = PD_I w \<and> PT_I v = PT_I w"
proof -
  have bits: "take_bit n (drop_bit k v) = take_bit n (drop_bit k w) \<longleftrightarrow>
      (\<forall>b. k \<le> b \<and> b < k + n \<longrightarrow> bit v b = bit w b)" for k n and v w :: u64
  proof -
    have lt: "c < 64" if "bit x (k + c)" for x :: u64 and c
      using bit_imp_le_length [OF that] by simp
    have "take_bit n (drop_bit k v) = take_bit n (drop_bit k w) \<longleftrightarrow>
        (\<forall>c < n. bit v (k + c) = bit w (k + c))"
      by (auto simp: bit_eq_iff bit_simps) (meson lt)+
    also have "\<dots> \<longleftrightarrow> (\<forall>b. k \<le> b \<and> b < k + n \<longrightarrow> bit v b = bit w b)"
      by (metis add_less_cancel_left le_add1 le_Suc_ex)
    finally show ?thesis .
  qed
  have ix: "PML4_I v = take_bit 9 (drop_bit 39 v)" "PDPT_I v = take_bit 9 (drop_bit 30 v)"
    "PD_I v = take_bit 9 (drop_bit 21 v)" "PT_I v = take_bit 9 (drop_bit 12 v)"
    "vpage v = take_bit 36 (drop_bit 12 v)" for v
    by (simp_all add: PML4_I_def PDPT_I_def PD_I_def PT_I_def vpage_def take_bit_eq_mask
        mask_eq_exp_minus_1)
  have "(12 \<le> b \<and> b < 12 + 36) \<longleftrightarrow> (39 \<le> b \<and> b < 39 + 9) \<or> (30 \<le> b \<and> b < 30 + 9)
      \<or> (21 \<le> b \<and> b < 21 + 9) \<or> (12 \<le> b \<and> b < 12 + 9)" for b :: nat by auto
  then show ?thesis unfolding ix bits by blast
qed

definition large_free :: "pmm_state \<Rightarrow> u64 \<Rightarrow> bool" where
  "large_free s v \<longleftrightarrow>
     (case pent s [PML4_I v] (PDPT_I v) of None \<Rightarrow> True | Some e \<Rightarrow> e AND 0x80 = 0)
     \<and> (case pent s [PDPT_I v, PML4_I v] (PD_I v) of None \<Rightarrow> True | Some e \<Rightarrow> e AND 0x80 = 0)"

lemma large_free_step: "pt_step s s' \<Longrightarrow> large_free s v \<Longrightarrow> large_free s' v"
proof -
  assume st: "pt_step s s'" and lf: "large_free s v"
  have "e AND 0x80 = 0" if "pt_path js" "j < 512" "pent s' js j = Some e"
    "\<And>e. pent s js j = Some e \<Longrightarrow> e AND 0x80 = 0" for js j e
    using st that unfolding pt_step_def by blast
  from this [of "[PML4_I v]" "PDPT_I v"] this [of "[PDPT_I v, PML4_I v]" "PD_I v"] lf
  show ?thesis unfolding large_free_def by (auto split: option.splits)
qed

lemma ensure_table_step:
  assumes inv: "pt_inv s ps" and at: "pt_path (i # js0)" "ptab s js0 = Some t"
    and large: "js0 \<noteq> [] \<longrightarrow> load64 (mem s) (cell (pmm_hhdm s) t i) AND 0x80 = 0"
  obtains t' s' n where "ensure_table (pmm_hhdm s) (cell (pmm_hhdm s) t i) 3 s = (t', s')"
    "pt_inv s' (drop n ps)" "pt_step s s'" "t' \<noteq> 0 \<longrightarrow> ptab s' (i # js0) = Some t'" "n \<le> 1"
    "ps \<noteq> [] \<longrightarrow> t' \<noteq> 0"
proof (cases "load64 (mem s) (cell (pmm_hhdm s) t i) AND 1 = 0")
  case False
  with ensure_table_present [OF at(2) _ large] obtain t'
    where t': "ensure_table (pmm_hhdm s) (cell (pmm_hhdm s) t i) 3 s = (t', s)" "ptab s (i # js0) = Some t'"
    by blast
  moreover have "t' \<noteq> 0" using pt_inv_table [OF inv at(1) t'(2)] by simp
  ultimately show ?thesis using that [of t' s 0] inv pt_step_refl by simp
next
  case absent: True
  show ?thesis
  proof (cases ps)
    case Nil
    with inv have "pmm_alloc s = (0, s)" by (simp add: pt_inv_def pmm_alloc_Nil)
    with absent have "ensure_table (pmm_hhdm s) (cell (pmm_hhdm s) t i) 3 s = (0, s)"
      by (simp add: ensure_table_def)
    with Nil inv show ?thesis using that [of 0 s 0] pt_step_refl by simp
  next
    case (Cons p qs)
    with ensure_table_link [of s p qs i js0 t] inv at absent obtain s'
      where "ensure_table (pmm_hhdm s) (cell (pmm_hhdm s) t i) 3 s = (p, s')" "pt_inv s' qs"
        "pt_step s s'" "ptab s' (i # js0) = Some p" by blast
    with Cons inv show ?thesis using that [of p s' 1] by (simp add: pt_inv_def pmm_inv_def)
  qed
qed

end
