(* ===== verification/Vmm_Map.thy ===== *)
theory Vmm_Map
  imports Vmm
begin

text \<open>
  Correctness of mapping and unmapping (\<open>vmm_map_page\<close>, \<open>vmm_unmap_page\<close>) against the translation
  the kernel itself computes (\<open>vmm_virt_to_phys\<close>): the mapped page translates to its frame, every
  other page translates as before, and the page-table tree and the free list stay well formed on
  every path of the code, the failing ones included.
\<close>

section \<open>Writing a leaf entry\<close>

abbreviation leaf_path :: "u64 \<Rightarrow> u64 list" where
  "leaf_path v \<equiv> [PD_I v, PDPT_I v, PML4_I v]"

lemma do_invlpg_frame [simp]:
  "mem (do_invlpg v s) = mem s" "cr3 (do_invlpg v s) = cr3 s"
  "hw_log (do_invlpg v s) = hw_log s @ [Invlpg v]"
  by (simp_all add: do_invlpg_def)

lemma do_invlpg_pmm [simp]:
  "pmm_hhdm (do_invlpg v s) = pmm_hhdm s" "free_count (do_invlpg v s) = free_count s"
  "free_list_head (do_invlpg v s) = free_list_head s"
  by (simp_all add: do_invlpg_def hw_emit_def)

lemma pt_inv_invlpg [simp]: "pt_inv (do_invlpg v s) ps = pt_inv s ps"
  by (simp add: pt_inv_def pmm_inv_def)

lemma virt_to_phys_invlpg [simp]:
  "vmm_virt_to_phys h w (do_invlpg v s) = vmm_virt_to_phys h w s"
  by (simp add: vmm_virt_to_phys_xlat)

text \<open>A leaf entry is below every table, so writing one moves no table.\<close>

lemma leaf_store_table:
  assumes "pt_tree m h r" "pt_table m h r (leaf_path v) = Some t" "pt_path js"
  shows "pt_table (store64 m (cell h t (PT_I v)) w) h r js = pt_table m h r js"
proof (rule tree_store [OF assms(1) _ assms(2) _ assms(3)])
  show "js \<noteq> ks @ PT_I v # leaf_path v" for ks using assms(3) by (auto simp: pt_path_def)
qed simp_all

lemma leaf_store_pt_xlat:
  assumes tree: "pt_tree m h r" and leaf: "pt_table m h r (leaf_path v) = Some t"
  shows "pt_xlat (pt_entry (store64 m (cell h t (PT_I v)) w) h r) v'
     = (if vpage v' = vpage v then (if w AND 1 = 0 then 0 else phys_mask w + (v' AND 0xFFF))
        else pt_xlat (pt_entry m h r) v')"
proof -
  let ?m = "store64 m (cell h t (PT_I v)) w"
  have lp: "pt_path (leaf_path v)" by simp
  have ent: "pt_entry ?m h r js j = (if js = leaf_path v \<and> j = PT_I v then Some w else pt_entry m h r js j)"
    if "pt_path js" "j < 512" for js j
  proof (rule tree_store_entry [OF tree lp leaf _ that(1) _ that(2)])
    show "js \<noteq> ks @ PT_I v # leaf_path v" for ks using that by (auto simp: pt_path_def)
  qed simp
  have e4: "pt_entry ?m h r [] (PML4_I v') = pt_entry m h r [] (PML4_I v')"
    and e3: "pt_entry ?m h r [PML4_I v'] (PDPT_I v') = pt_entry m h r [PML4_I v'] (PDPT_I v')"
    and e2: "pt_entry ?m h r [PDPT_I v', PML4_I v'] (PD_I v') = pt_entry m h r [PDPT_I v', PML4_I v'] (PD_I v')"
    and e1: "pt_entry ?m h r (leaf_path v') (PT_I v')
        = (if vpage v' = vpage v then Some w else pt_entry m h r (leaf_path v') (PT_I v'))"
    using ent [of "[]"] ent [of "[PML4_I v']"] ent [of "[PDPT_I v', PML4_I v']"]
      ent [of "leaf_path v'"] by (auto simp: vpage_indices)
  show ?thesis
  proof (cases "vpage v' = vpage v")
    case False
    then show ?thesis using e4 e3 e2 e1 by (auto intro: pt_xlat_cong)
  next
    case True
    then have "pt_table m h r (leaf_path v') = Some t" using leaf by (simp add: vpage_indices)
    then have "the (pt_entry m h r [] (PML4_I v')) AND 1 \<noteq> 0"
      "the (pt_entry m h r [PML4_I v'] (PDPT_I v')) AND 1 \<noteq> 0"
      "the (pt_entry m h r [PML4_I v'] (PDPT_I v')) AND 0x80 = 0"
      "the (pt_entry m h r [PDPT_I v', PML4_I v'] (PD_I v')) AND 1 \<noteq> 0"
      "the (pt_entry m h r [PDPT_I v', PML4_I v'] (PD_I v')) AND 0x80 = 0"
      by (auto simp: pt_entry_def pt_next_def Let_def split: option.splits if_splits)
    with True e4 e3 e2 e1 show ?thesis by (simp add: pt_xlat_def Let_def)
  qed
qed

lemma leaf_store_inv:
  assumes inv: "pt_inv s ps" and leaf: "ptab s (leaf_path v) = Some t"
  shows "pt_inv (s\<lparr>mem := store64 (mem s) (cell (pmm_hhdm s) t (PT_I v)) w\<rparr>) ps"
proof -
  let ?h = "pmm_hhdm s" and ?r = "page_down (cr3 s)"
  let ?m = "store64 (mem s) (cell ?h t (PT_I v)) w"
  have lp: "pt_path (leaf_path v)" by simp
  from inv have tree: "pt_tree (mem s) ?h ?r" by (simp add: pt_inv_def)
  note tab = leaf_store_table [OF tree leaf]
  have "?m x = mem s x" if "p \<in> set ps" "in_frame ?h p x" for p x
  proof -
    have "t \<noteq> p" "page_aligned t" "page_aligned p"
      using pt_inv_table [OF inv lp leaf] inv that(1)
      by (auto simp: pt_inv_def pmm_inv_def frame_list_def)
    with that(2) have "\<not> in_frame ?h t x" using in_frame_unique by blast
    then show ?thesis by (simp add: store64_outside cell_outside)
  qed
  then have "pmm_inv (s\<lparr>mem := ?m\<rparr>) ps"
    using inv by (intro pmm_inv_mem_cong) (auto simp: pt_inv_def)
  moreover have "pt_tree ?m ?h ?r" using tree tab unfolding pt_tree_def by metis
  ultimately show ?thesis using inv tab by (auto simp: pt_inv_def)
qed

lemma leaf_store_xlat:
  assumes inv: "pt_inv s ps" and leaf: "ptab s (leaf_path v) = Some t"
  shows "vmm_virt_to_phys (pmm_hhdm s) v' (s\<lparr>mem := store64 (mem s) (cell (pmm_hhdm s) t (PT_I v)) w\<rparr>)
     = (if vpage v' = vpage v then (if w AND 1 = 0 then 0 else phys_mask w + (v' AND 0xFFF))
        else vmm_virt_to_phys (pmm_hhdm s) v' s)"
  using inv by (simp add: vmm_virt_to_phys_xlat pt_inv_def leaf_store_pt_xlat [OF _ leaf])

section \<open>Mapping\<close>

lemma vmm_map_page_result:
  assumes inv: "pt_inv s ps" and h: "h = pmm_hhdm s"
  obtains s1 n where "pt_inv s1 (drop n ps)" "pt_step s s1" "n \<le> 3"
    "vmm_map_page h v phys f s = s1 \<and> (large_free s v \<longrightarrow> length ps < 3)
     \<or> (\<exists>t. ptab s1 (leaf_path v) = Some t \<and> vmm_map_page h v phys f s =
          do_invlpg v (s1\<lparr>mem := store64 (mem s1) (cell h t (PT_I v)) (page_down phys OR f)\<rparr>))"
proof -
  let ?r = "page_down (cr3 s)"
  from ensure_table_step [OF inv, of "PML4_I v" "[]" ?r] obtain t3 s3 n3
    where e3: "ensure_table h (cell h ?r (PML4_I v)) 3 s = (t3, s3)" "pt_inv s3 (drop n3 ps)"
      "pt_step s s3" "t3 \<noteq> 0 \<longrightarrow> ptab s3 [PML4_I v] = Some t3" "n3 \<le> 1" "ps \<noteq> [] \<longrightarrow> t3 \<noteq> 0"
    using h by auto
  have h3: "pmm_hhdm s3 = h" using e3(3) h by (simp add: pt_step_def)
  show ?thesis
  proof (cases "t3 = 0 \<or> load64 (mem s3) (cell h t3 (PDPT_I v)) AND 0x80 \<noteq> 0")
    case True
    have "length ps < 3" if "large_free s v"
      using True e3(4,6) large_free_step [OF e3(3) that] h3
      by (auto simp: large_free_def pt_entry_def)
    moreover have "vmm_map_page h v phys f s = s3"
      using True e3(1) by (auto simp: vmm_map_page_def get_cr3_def Let_def)
    ultimately show ?thesis using that [of s3 n3] e3 by simp
  next
    case False
    have p3: "pt_path [PDPT_I v, PML4_I v]" by simp
    have t3: "ptab s3 [PML4_I v] = Some t3" using False e3(4) by simp
    have l3: "[PML4_I v] \<noteq> [] \<longrightarrow> load64 (mem s3) (cell (pmm_hhdm s3) t3 (PDPT_I v)) AND 0x80 = 0"
      using False h3 by simp
    obtain t2 s2 n2
      where e2: "ensure_table (pmm_hhdm s3) (cell (pmm_hhdm s3) t3 (PDPT_I v)) 3 s3 = (t2, s2)"
        "pt_inv s2 (drop n2 (drop n3 ps))" "pt_step s3 s2"
        "t2 \<noteq> 0 \<longrightarrow> ptab s2 [PDPT_I v, PML4_I v] = Some t2" "n2 \<le> 1" "drop n3 ps \<noteq> [] \<longrightarrow> t2 \<noteq> 0"
      by (rule ensure_table_step [OF e3(2) p3 t3 l3])
    have h2: "pmm_hhdm s2 = h" using e2(3) h3 by (simp add: pt_step_def)
    have st2: "pt_step s s2" using e3(3) e2(3) by (rule pt_step_trans)
    show ?thesis
    proof (cases "t2 = 0 \<or> load64 (mem s2) (cell h t2 (PD_I v)) AND 0x80 \<noteq> 0")
      case True
      have "length ps < 3" if "large_free s v"
        using True e2(4,6) e3(5) large_free_step [OF st2 that] h2
        by (auto simp: large_free_def pt_entry_def)
      moreover have "vmm_map_page h v phys f s = s2"
        using True e3(1) e2(1) False h3 by (auto simp: vmm_map_page_def get_cr3_def Let_def)
      ultimately show ?thesis using that [of s2 "n2 + n3"] e2 e3(5) st2 by simp
    next
      case False2: False
      have p2: "pt_path (leaf_path v)" by simp
      have t2: "ptab s2 [PDPT_I v, PML4_I v] = Some t2" using False2 e2(4) by simp
      have l2: "[PDPT_I v, PML4_I v] \<noteq> [] \<longrightarrow>
          load64 (mem s2) (cell (pmm_hhdm s2) t2 (PD_I v)) AND 0x80 = 0"
        using False2 h2 by simp
      obtain t1 s1 n1
        where e1: "ensure_table (pmm_hhdm s2) (cell (pmm_hhdm s2) t2 (PD_I v)) 3 s2 = (t1, s1)"
          "pt_inv s1 (drop n1 (drop n2 (drop n3 ps)))" "pt_step s2 s1"
          "t1 \<noteq> 0 \<longrightarrow> ptab s1 (leaf_path v) = Some t1" "n1 \<le> 1"
          "drop n2 (drop n3 ps) \<noteq> [] \<longrightarrow> t1 \<noteq> 0"
        by (rule ensure_table_step [OF e2(2) p2 t2 l2])
      have st1: "pt_step s s1" using st2 e1(3) pt_step_trans by blast
      have res: "vmm_map_page h v phys f s = (if t1 = 0 then s1 else
          do_invlpg v (s1\<lparr>mem := store64 (mem s1) (cell h t1 (PT_I v)) (page_down phys OR f)\<rparr>))"
        using e3(1) e2(1) e1(1) False False2 h3 h2 by (auto simp: vmm_map_page_def get_cr3_def Let_def)
      have n: "pt_inv s1 (drop (n1 + (n2 + n3)) ps)" "n1 + (n2 + n3) \<le> 3"
        using e1(2,5) e2(5) e3(5) by (simp_all add: drop_drop)
      show ?thesis
      proof (cases "t1 = 0")
        case True
        with e1(6) e2(5) e3(5) have "length ps < 3" by auto
        with True res show ?thesis by (intro that [OF n(1) st1 n(2)]) simp
      next
        case False
        with e1(4) have "ptab s1 (leaf_path v) = Some t1" by blast
        with False res show ?thesis by (intro that [OF n(1) st1 n(2)]) auto
      qed
    qed
  qed
qed

text \<open>A successful mapping as a client sees it, ready to be repeated for the next page.\<close>

lemma leaf_store_large_free:
  assumes inv: "pt_inv s ps" and leaf: "ptab s (leaf_path v) = Some t"
  shows "large_free (s\<lparr>mem := store64 (mem s) (cell (pmm_hhdm s) t (PT_I v)) w\<rparr>) v' = large_free s v'"
proof -
  have lp: "pt_path (leaf_path v)" by simp
  have tree: "pt_tree (mem s) (pmm_hhdm s) (page_down (cr3 s))" using inv by (simp add: pt_inv_def)
  have ent: "pt_entry (store64 (mem s) (cell (pmm_hhdm s) t (PT_I v)) w) (pmm_hhdm s)
      (page_down (cr3 s)) js j = pent s js j" if "pt_path js" "length js < 3" "j < 512" for js j
  proof -
    have "js \<noteq> ks @ PT_I v # leaf_path v" for ks using that by auto
    then show ?thesis
      using tree_store_entry [OF tree lp leaf, of "PT_I v" js j w] that by auto
  qed
  then show ?thesis by (simp add: large_free_def)
qed

lemma do_invlpg_large_free [simp]: "large_free (do_invlpg v s) v' = large_free s v'"
  by (simp add: large_free_def)

text \<open>The page number and the offset of a kernel address.\<close>

lemma vpage_unat:
  assumes "unat v = 4096 * (65535 * 2 ^ 36 + q) + d" "q < 2 ^ 36" "d < 4096"
  shows "vpage v = of_nat q" "v AND 0xFFF = of_nat d"
proof -
  have "unat (vpage v) = unat (take_bit 36 (drop_bit 12 v))"
    by (simp add: vpage_def take_bit_eq_mask mask_eq_exp_minus_1)
  also have "\<dots> = unat v div 4096 mod 68719476736"
    by (simp only: unsigned_take_bit_eq unat_drop_bit_eq) (simp add: take_bit_eq_mod drop_bit_eq_div)
  also have "unat v div 4096 = q + 65535 * 68719476736"
    unfolding assms(1) using assms(3) by (intro div_nat_eqI) simp_all
  also have "\<dots> mod 68719476736 = q"
    unfolding mod_mult_self1 using assms(2) by simp
  finally have "unat (vpage v) = unat (of_nat q :: u64)"
    using assms(2) by (subst unat_of_nat_u64) simp_all
  then show "vpage v = of_nat q" by (simp only: word_unat_eq_iff)
  have "unat (v AND 0xFFF) = unat (take_bit 12 v)" by (simp add: mask12 take_bit_eq_mask)
  also have "\<dots> = unat v mod 4096" by (subst unsigned_take_bit_eq) (simp add: take_bit_eq_mod)
  also have "unat v = d + (65535 * 2 ^ 36 + q) * 4096" unfolding assms(1) by simp
  also have "\<dots> mod 4096 = d" unfolding mod_mult_self1 using assms(3) by simp
  finally have "unat (v AND 0xFFF) = unat (of_nat d :: u64)"
    using assms(3) by (subst unat_of_nat_u64) simp_all
  then show "v AND 0xFFF = of_nat d" by (simp only: word_unat_eq_iff)
qed

lemma vmm_map_page_ok:
  assumes "pt_inv s ps" "h = pmm_hhdm s" "3 \<le> length ps" "large_free s v"
    and "page_aligned phys" "phys < 2 ^ 52" "f < 0x1000" "f AND 1 = 1"
  obtains n where "n \<le> 3" "pt_inv (vmm_map_page h v phys f s) (drop n ps)"
    "pmm_hhdm (vmm_map_page h v phys f s) = h"
    "\<And>w. large_free s w \<Longrightarrow> large_free (vmm_map_page h v phys f s) w"
    "\<And>w. vmm_virt_to_phys h w (vmm_map_page h v phys f s)
       = (if vpage w = vpage v then phys + (w AND 0xFFF) else vmm_virt_to_phys h w s)"
proof -
  obtain s1 n where r: "pt_inv s1 (drop n ps)" "pt_step s s1" "n \<le> 3"
    "vmm_map_page h v phys f s = s1 \<and> (large_free s v \<longrightarrow> length ps < 3)
     \<or> (\<exists>t. ptab s1 (leaf_path v) = Some t \<and> vmm_map_page h v phys f s =
          do_invlpg v (s1\<lparr>mem := store64 (mem s1) (cell h t (PT_I v)) (page_down phys OR f)\<rparr>))"
    by (rule vmm_map_page_result [OF assms(1,2)])
  with assms(3,4) obtain t where t: "ptab s1 (leaf_path v) = Some t" "vmm_map_page h v phys f s =
      do_invlpg v (s1\<lparr>mem := store64 (mem s1) (cell h t (PT_I v)) (phys OR f)\<rparr>)"
    using page_down_same [OF assms(5)] by auto
  have h: "pmm_hhdm s1 = h" and x: "vmm_virt_to_phys h w s1 = vmm_virt_to_phys h w s" for w
    using r(2) assms(2) by (simp_all add: pt_step_def)
  have e: "phys_mask (phys OR f) = phys" "(phys OR f) AND 1 = 1"
    using entry_frame [of phys f] entry_flags [of phys 1 f] assms(5-8) by simp_all
  show ?thesis
  proof (rule that [of n])
    show "pt_inv (vmm_map_page h v phys f s) (drop n ps)"
      using leaf_store_inv [OF r(1) t(1)] t(2) h by simp
    show "pmm_hhdm (vmm_map_page h v phys f s) = h" using t(2) h by simp
    show "large_free (vmm_map_page h v phys f s) w" if "large_free s w" for w
      using large_free_step [OF r(2) that] leaf_store_large_free [OF r(1) t(1)] t(2) h by simp
    show "vmm_virt_to_phys h w (vmm_map_page h v phys f s)
       = (if vpage w = vpage v then phys + (w AND 0xFFF) else vmm_virt_to_phys h w s)" for w
      using leaf_store_xlat [OF r(1) t(1), of w "phys OR f"] t(2) h e x by simp
  qed (rule r(3))
qed

section \<open>Unmapping\<close>

lemma vmm_unmap_page_result:
  "vmm_unmap_page (pmm_hhdm s) v s =
     (case ptab s (leaf_path v) of
        None \<Rightarrow> s
      | Some t \<Rightarrow> do_invlpg v (s\<lparr>mem := store64 (mem s) (cell (pmm_hhdm s) t (PT_I v)) 0\<rparr>))"
  by (auto simp: vmm_unmap_page_def pt_next_def get_cr3_def Let_def split: option.split)

lemma no_leaf_xlat:
  assumes "ptab s (leaf_path v) = None" "large_free s v"
  shows "vmm_virt_to_phys (pmm_hhdm s) v s = 0"
  using assms
  by (auto simp: vmm_virt_to_phys_def pt_next_def get_cr3_def Let_def large_free_def pt_entry_def
      split: option.splits if_splits)

section \<open>Properties\<close>

text \<open>C2: after \<open>vmm_map_page\<close> with three free frames at hand and no large page in the way, every
  address of the page translates to the same offset of the mapped frame.\<close>

theorem vmm_map_translates:
  assumes "pt_inv s ps" "3 \<le> length ps" "large_free s v"
    and "phys < 2 ^ 52" "flags < 0x1000" "flags AND 1 = 1" and "vpage v' = vpage v"
  shows "vmm_virt_to_phys (pmm_hhdm s) v' (vmm_map_page (pmm_hhdm s) v phys flags s)
      = page_down phys + (v' AND 0xFFF)"
proof -
  obtain s1 n where r: "pt_inv s1 (drop n ps)" "pt_step s s1"
    "vmm_map_page (pmm_hhdm s) v phys flags s = s1 \<and> (large_free s v \<longrightarrow> length ps < 3)
     \<or> (\<exists>t. ptab s1 (leaf_path v) = Some t \<and> vmm_map_page (pmm_hhdm s) v phys flags s =
          do_invlpg v (s1\<lparr>mem := store64 (mem s1) (cell (pmm_hhdm s) t (PT_I v)) (page_down phys OR flags)\<rparr>))"
    by (rule vmm_map_page_result [OF assms(1) refl])
  with assms(2,3) obtain t where t: "ptab s1 (leaf_path v) = Some t"
    "vmm_map_page (pmm_hhdm s) v phys flags s =
      do_invlpg v (s1\<lparr>mem := store64 (mem s1) (cell (pmm_hhdm s) t (PT_I v)) (page_down phys OR flags)\<rparr>)"
    by auto
  have h: "pmm_hhdm s1 = pmm_hhdm s" using r(2) by (simp add: pt_step_def)
  have "page_down phys \<le> phys" by (simp add: page_down_def word_and_le2)
  then have "page_down phys < 2 ^ 52" using assms(4) by (rule le_less_trans)
  then have "phys_mask (page_down phys OR flags) = page_down phys"
    "(page_down phys OR flags) AND 1 = 1"
    using entry_frame [of "page_down phys" flags] entry_flags [of "page_down phys" 1 flags] assms(5,6)
    by simp_all
  with leaf_store_xlat [OF r(1) t(1), of v' "page_down phys OR flags"] t(2) h assms(7) show ?thesis
    by simp
qed

text \<open>C15: whatever \<open>vmm_map_page\<close> does, be it mapping, running out of frames on the way or refusing to
  split a large page, the page tables stay a tree, the free list stays intact and loses at most
  three frames, and every other page translates as before.\<close>

theorem vmm_map_preserves:
  assumes "pt_inv s ps"
  shows "(\<exists>n \<le> 3. pt_inv (vmm_map_page (pmm_hhdm s) v phys flags s) (drop n ps))
    \<and> (\<forall>v'. vpage v' \<noteq> vpage v \<longrightarrow>
      vmm_virt_to_phys (pmm_hhdm s) v' (vmm_map_page (pmm_hhdm s) v phys flags s)
        = vmm_virt_to_phys (pmm_hhdm s) v' s)"
proof -
  let ?h = "pmm_hhdm s" and ?s' = "vmm_map_page (pmm_hhdm s) v phys flags s"
  obtain s1 n where r: "pt_inv s1 (drop n ps)" "pt_step s s1" "n \<le> 3"
    "?s' = s1 \<and> (large_free s v \<longrightarrow> length ps < 3)
     \<or> (\<exists>t. ptab s1 (leaf_path v) = Some t \<and> ?s' =
          do_invlpg v (s1\<lparr>mem := store64 (mem s1) (cell ?h t (PT_I v)) (page_down phys OR flags)\<rparr>))"
    by (rule vmm_map_page_result [OF assms refl])
  have h: "pmm_hhdm s1 = ?h" and same: "vmm_virt_to_phys ?h v' s1 = vmm_virt_to_phys ?h v' s" for v'
    using r(2) by (simp_all add: pt_step_def)
  from r(4) show ?thesis
  proof (elim disjE exE conjE)
    assume "?s' = s1"
    with r same show ?thesis by auto
  next
    fix t
    assume t: "ptab s1 (leaf_path v) = Some t" and s':
      "?s' = do_invlpg v (s1\<lparr>mem := store64 (mem s1) (cell ?h t (PT_I v)) (page_down phys OR flags)\<rparr>)"
    show ?thesis
      using leaf_store_inv [OF r(1) t] leaf_store_xlat [OF r(1) t] r(3) same h s' by auto
  qed
qed

text \<open>C16: \<open>vmm_unmap_page\<close> removes the translation of every address of the page, keeps every other
  translation, the tree and the free list, and never gives a table back.\<close>

theorem vmm_unmap_correct:
  assumes "pt_inv s ps" "large_free s v"
  shows "pt_inv (vmm_unmap_page (pmm_hhdm s) v s) ps
    \<and> (\<forall>v'. vmm_virt_to_phys (pmm_hhdm s) v' (vmm_unmap_page (pmm_hhdm s) v s)
        = (if vpage v' = vpage v then 0 else vmm_virt_to_phys (pmm_hhdm s) v' s))"
proof (cases "ptab s (leaf_path v)")
  case None
  have "vmm_virt_to_phys (pmm_hhdm s) v' s = 0" if "vpage v' = vpage v" for v'
  proof (rule no_leaf_xlat)
    show "ptab s (leaf_path v') = None" "large_free s v'"
      using None assms(2) that by (simp_all add: vpage_indices large_free_def)
  qed
  with None assms(1) show ?thesis by (simp add: vmm_unmap_page_result)
next
  case (Some t)
  with leaf_store_inv [OF assms(1) Some, of 0] leaf_store_xlat [OF assms(1) Some, of _ 0] show ?thesis
    by (simp add: vmm_unmap_page_result)
qed

text \<open>With no frame left, mapping a page whose tables are missing changes nothing and reports
  nothing: the state, the log of privileged instructions included, is the one before the call,
  and the page still does not translate.\<close>

theorem vmm_map_out_of_frames:
  assumes "pt_inv s []" "large_free s v" "ptab s (leaf_path v) = None"
  shows "vmm_map_page (pmm_hhdm s) v phys flags s = s \<and> vmm_virt_to_phys (pmm_hhdm s) v s = 0"
proof -
  have "pmm_alloc s = (0, s)" using assms(1) by (simp add: pt_inv_def pmm_alloc_Nil)
  with assms(3) have "vmm_map_page (pmm_hhdm s) v phys flags s = s"
    by (auto simp: vmm_map_page_def ensure_table_def pt_next_def get_cr3_def Let_def split: if_splits)
  with no_leaf_xlat [OF assms(3,2)] show ?thesis by simp
qed

subsection \<open>Instances\<close>

text \<open>A cleared top-level table is a tree of one table.\<close>

lemma fresh_root_table:
  assumes "\<And>x. in_frame h r x \<Longrightarrow> m x = 0" "pt_path js"
  shows "pt_table m h r js = (if js = [] then Some r else None)"
  using assms(2)
proof (induction js)
  case Nil
  then show ?case by simp
next
  case (Cons j js)
  then have "pt_path js" "j < 512" using pt_path_tl by auto
  moreover from this have "load64 m (cell h r j) = 0"
    by (intro load64_zero assms(1) cell_in_frame)
  ultimately show ?case using Cons.IH by (simp add: pt_next_def)
qed

lemma fresh_pt_inv:
  assumes "pmm_inv s ps" "\<And>x. in_frame (pmm_hhdm s) (page_down (cr3 s)) x \<Longrightarrow> mem s x = 0"
    and "page_down (cr3 s) \<noteq> 0" "page_down (cr3 s) \<notin> set ps" "\<forall>p \<in> set ps. p < 2 ^ 52"
  shows "pt_inv s ps \<and> large_free s v \<and> ptab s (leaf_path v) = None"
proof -
  have tab: "ptab s js = (if js = [] then Some (page_down (cr3 s)) else None)" if "pt_path js" for js
    using assms(2) that by (rule fresh_root_table)
  have none: "ptab s [PML4_I v] = None" "ptab s [PDPT_I v, PML4_I v] = None" "ptab s (leaf_path v) = None"
    by (subst tab; simp)+
  have "pt_inv s ps"
    using assms tab unfolding pt_inv_def pt_tree_def by (auto split: if_splits)
  moreover have "large_free s v" unfolding large_free_def pt_entry_def none by simp
  ultimately show ?thesis using none(3) by blast
qed

definition vmm_example :: pmm_state where
  "vmm_example = pmm_free 0x4000 (pmm_free 0x3000 (pmm_free 0x2000 (pmm_boot_state\<lparr>cr3 := 0x1000\<rparr>)))"

lemma vmm_example_pmm: "pmm_inv vmm_example [0x4000, 0x3000, 0x2000]"
proof -
  have "pmm_inv (pmm_boot_state\<lparr>cr3 := 0x1000\<rparr>) []" by (simp add: pmm_inv_def pmm_boot_state_def)
  then show ?thesis unfolding vmm_example_def
    by (intro pmm_frames.release_some) (simp_all add: page_aligned_def)
qed

lemma vmm_example_regs: "pmm_hhdm vmm_example = 0" "cr3 vmm_example = 0x1000"
  by (simp_all add: vmm_example_def pmm_free_def pmm_boot_state_def)

lemma vmm_example_root: "in_frame 0 0x1000 x \<Longrightarrow> mem vmm_example x = 0"
proof -
  assume x: "in_frame 0 0x1000 x"
  then have "\<not> in_frame 0 0x2000 x" "\<not> in_frame 0 0x3000 x" "\<not> in_frame 0 0x4000 x"
    using in_frame_unique [of "0x1000" "0x2000" 0 x] in_frame_unique [of "0x1000" "0x3000" 0 x]
      in_frame_unique [of "0x1000" "0x4000" 0 x] by (auto simp: page_aligned_def)
  then have "outside 0x2000 8 x" "outside 0x3000 8 x" "outside 0x4000 8 x"
    by (auto simp: in_frame_def outside_def)
  then show ?thesis
    by (simp add: vmm_example_def pmm_free_def pmm_boot_state_def store64_outside)
qed

lemma vmm_example_inv:
  "pt_inv vmm_example [0x4000, 0x3000, 0x2000] \<and> large_free vmm_example v
     \<and> ptab vmm_example (leaf_path v) = None"
  by (rule fresh_pt_inv)
     (simp_all add: vmm_example_pmm vmm_example_regs page_down_def vmm_example_root)

theorem vmm_map_translates_witness:
  "vmm_virt_to_phys 0 0xFFFFFFFF81000123 (vmm_map_page 0 0xFFFFFFFF81000000 0x9000 0x23 vmm_example)
     = 0x9123"
  using vmm_map_translates [OF conjunct1 [OF vmm_example_inv], of "0xFFFFFFFF81000000" "0x9000" "0x23"
      "0xFFFFFFFF81000123"] vmm_example_inv
  by (simp add: vmm_example_regs vpage_def page_down_def)

theorem vmm_map_preserves_witness:
  "vmm_virt_to_phys 0 0x400000 (vmm_map_page 0 0xFFFFFFFF81000000 0x9000 0x23 vmm_example)
     = vmm_virt_to_phys 0 0x400000 vmm_example"
  using conjunct2 [OF vmm_map_preserves [OF conjunct1 [OF vmm_example_inv], of "0xFFFFFFFF81000000"]]
  by (simp add: vmm_example_regs vpage_def)

theorem vmm_unmap_correct_witness:
  "vmm_virt_to_phys 0 0x400000 (vmm_unmap_page 0 0x400000 vmm_example) = 0"
  using vmm_unmap_correct [of vmm_example "[0x4000, 0x3000, 0x2000]" "0x400000"] vmm_example_inv
  by (simp add: vmm_example_regs)

theorem vmm_map_out_of_frames_witness:
  "vmm_map_page 0 0xFFFFFFFF81000000 0x9000 0x23 (pmm_boot_state\<lparr>cr3 := 0x1000\<rparr>)
     = pmm_boot_state\<lparr>cr3 := 0x1000\<rparr>"
proof -
  let ?s = "pmm_boot_state\<lparr>cr3 := 0x1000\<rparr>"
  have "pt_inv ?s [] \<and> large_free ?s 0xFFFFFFFF81000000 \<and> ptab ?s (leaf_path 0xFFFFFFFF81000000) = None"
    by (rule fresh_pt_inv) (simp_all add: pmm_inv_def pmm_boot_state_def page_down_def)
  then show ?thesis
    using vmm_map_out_of_frames [of ?s "0xFFFFFFFF81000000" "0x9000" "0x23"]
    by (simp add: pmm_boot_state_def)
qed

end
