(* ===== verification/Heap.thy ===== *)
theory Heap
  imports Vmm_Map
begin

text \<open>
  \<open>src/kernel/memory/heap.c\<close>: the kernel heap, one megabyte of virtual memory at \<open>0xFFFFFFFF81000000\<close>
  cut into blocks, each a header (size, pointer to the next header, free flag, 24 bytes with
  padding) followed by its payload. \<open>kmalloc\<close> is first fit with splitting, \<open>kfree\<close> sets the flag and
  makes one pass that merges neighbouring free blocks.

  The walk along the list is a \<open>partial_function\<close>: on a damaged (cyclic) list it need not return.
  \<open>heap_inv\<close> relates the memory to the list of blocks \<open>(size, free)\<close>, which tile the megabyte. The
  theory shows that on such a heap both operations return, that they refine first fit and merging
  on the list of blocks, and, through the locale \<open>heap_interface\<close>, what a client may rely on: a
  block handed out overlaps no block in use and no payload byte in use ever changes.

  The heap is reached through its own virtual addresses only. The frames behind it are taken from
  the frame allocator, and no other component uses their direct-map image.
\<close>

section \<open>State and operations\<close>

definition HEAP_PAGES :: nat where
  "HEAP_PAGES = 256"

definition heap_virt :: u64 where
  "heap_virt = 0xFFFFFFFF81000000"

text \<open>The fields of a \<open>heap_block_t\<close> at address \<open>b\<close>; \<open>sizeof(heap_block_t) = 24\<close>.\<close>

definition blk_size :: "memory \<Rightarrow> u64 \<Rightarrow> u64" where
  "blk_size m b = load64 m b"

definition blk_next :: "memory \<Rightarrow> u64 \<Rightarrow> u64" where
  "blk_next m b = load64 m (b + 8)"

definition blk_free :: "memory \<Rightarrow> u64 \<Rightarrow> bool" where
  "blk_free m b \<longleftrightarrow> load32 m (b + 16) \<noteq> 0"

definition sizeof_block :: u64 where
  "sizeof_block = 24"

record heap_state =
  heap_head :: u64

text \<open>The loop over the pages; \<open>None\<close> is the early return.\<close>

fun heap_map_pages :: "u64 \<Rightarrow> nat \<Rightarrow> nat \<Rightarrow> pmm_state \<Rightarrow> bool \<times> pmm_state" where
  "heap_map_pages hhdm i 0 s = (True, s)"
| "heap_map_pages hhdm i (Suc k) s =
     (let (phys, s1) = pmm_alloc s
      in if phys = 0 then (False, s1)
         else heap_map_pages hhdm (Suc i) k
                (vmm_map_page hhdm (heap_virt + of_nat i * 0x1000) phys 0x23 s1))"

definition heap_init :: "u64 \<Rightarrow> heap_state \<Rightarrow> pmm_state \<Rightarrow> heap_state \<times> pmm_state" where
  "heap_init hhdm h s =
     (let (ok, s1) = heap_map_pages hhdm 0 HEAP_PAGES s
      in if \<not> ok then (h, s1)
         else let m1 = store64 (mem s1) heap_virt (of_nat HEAP_PAGES * 0x1000 - sizeof_block);
                  m2 = store64 m1 (heap_virt + 8) 0;
                  m3 = store32 m2 (heap_virt + 16) 1
              in (h\<lparr>heap_head := heap_virt\<rparr>, s1\<lparr>mem := m3\<rparr>))"

partial_function (option) kmalloc_find :: "memory \<Rightarrow> u64 \<Rightarrow> u64 \<Rightarrow> u64 option" where
  "kmalloc_find m sz cur =
     (if cur \<noteq> 0 \<and> \<not> (blk_free m cur \<and> sz \<le> blk_size m cur)
      then kmalloc_find m sz (blk_next m cur) else Some cur)"

definition kmalloc_take :: "u64 \<Rightarrow> u64 \<Rightarrow> memory \<Rightarrow> memory" where
  "kmalloc_take sz cur m =
     (let m1 = (if sz + sizeof_block + 16 < blk_size m cur
        then let newb = cur + sizeof_block + sz;
                 ma = store64 m newb (blk_size m cur - sz - sizeof_block);
                 mb = store64 ma (newb + 8) (blk_next ma cur);
                 mc = store32 mb (newb + 16) 1;
                 md = store64 mc cur sz
             in store64 md (cur + 8) newb
        else m)
      in store32 m1 (cur + 16) 0)"

definition kmalloc :: "u64 \<Rightarrow> heap_state \<Rightarrow> memory \<Rightarrow> (u64 \<times> memory) option" where
  "kmalloc req h m =
     (if heap_head h = 0 \<or> req = 0 then Some (0, m)
      else let sz = (req + 7) AND NOT 7
      in case kmalloc_find m sz (heap_head h) of
           None \<Rightarrow> None
         | Some cur \<Rightarrow> if cur = 0 then Some (0, m)
             else Some (cur + sizeof_block, kmalloc_take sz cur m))"

definition kfree_merge :: "u64 \<Rightarrow> memory \<Rightarrow> memory" where
  "kfree_merge b m =
     (if blk_free m b \<and> blk_free m (blk_next m b)
      then let m1 = store64 m b (blk_size m b + (sizeof_block + blk_size m (blk_next m b)))
           in store64 m1 (b + 8) (blk_next m1 (blk_next m1 b))
      else m)"

partial_function (option) kfree_pass :: "memory \<Rightarrow> u64 \<Rightarrow> memory option" where
  "kfree_pass m b =
     (if b \<noteq> 0 \<and> blk_next m b \<noteq> 0
      then kfree_pass (kfree_merge b m) (blk_next (kfree_merge b m) b) else Some m)"

definition kfree :: "u64 \<Rightarrow> heap_state \<Rightarrow> memory \<Rightarrow> memory option" where
  "kfree ptr h m =
     (if ptr = 0 then Some m
      else let block = ptr - sizeof_block
           in kfree_pass (store32 m (block + 16) 1) (heap_head h))"

section \<open>The blocks in memory\<close>

text \<open>Addresses in the heap, by their offset.\<close>

definition hp :: "nat \<Rightarrow> u64" where
  "hp i = heap_virt + of_nat i"

type_synonym block = "nat \<times> bool"

definition blk_at :: "memory \<Rightarrow> nat \<Rightarrow> block \<Rightarrow> u64 \<Rightarrow> bool" where
  "blk_at m off b nx \<longleftrightarrow> blk_size m (hp off) = of_nat (fst b) \<and> blk_next m (hp off) = nx
     \<and> blk_free m (hp off) = snd b"

text \<open>\<open>heap_seg m off bs e\<close>: the blocks \<open>bs\<close> lie one after the other from offset \<open>off\<close>, linked in that
  order, and the last one points to \<open>e\<close>.\<close>

primrec heap_seg :: "memory \<Rightarrow> nat \<Rightarrow> block list \<Rightarrow> u64 \<Rightarrow> bool" where
  "heap_seg m off [] e \<longleftrightarrow> True"
| "heap_seg m off (b # bs) e \<longleftrightarrow> blk_at m off b (if bs = [] then e else hp (off + 24 + fst b))
     \<and> heap_seg m (off + 24 + fst b) bs e"

primrec span :: "block list \<Rightarrow> nat" where
  "span [] = 0"
| "span (b # bs) = 24 + fst b + span bs"

definition heap_inv :: "heap_state \<Rightarrow> memory \<Rightarrow> block list \<Rightarrow> bool" where
  "heap_inv h m bs \<longleftrightarrow> heap_head h = heap_virt \<and> heap_seg m 0 bs 0 \<and> span bs = 0x100000
     \<and> (\<forall>b \<in> set bs. 8 dvd fst b)"

lemma span_append [simp]: "span (xs @ ys) = span xs + span ys"
  by (induction xs) simp_all

lemma heap_seg_append:
  "ys \<noteq> [] \<Longrightarrow> heap_seg m off (xs @ ys) e \<longleftrightarrow>
     heap_seg m off xs (hp (off + span xs)) \<and> heap_seg m (off + span xs) ys e"
proof (induction xs arbitrary: off)
  case (Cons x xs)
  from Cons.IH [OF Cons.prems, of "off + 24 + fst x"] Cons.prems show ?case
    by (cases xs) (simp_all add: add.assoc conj_assoc)
qed simp

lemma hp_apart:
  assumes "i + n \<le> j \<or> j + k \<le> i" "i \<le> 2 ^ 21" "j \<le> 2 ^ 21" "n \<le> 2 ^ 21" "k \<le> 2 ^ 21" "0 < n" "0 < k"
  shows "apart (hp i) n (hp j) k"
  unfolding hp_def using assms by (intro field_apart) (auto simp: unat_of_nat_u64)

lemma hp_add [simp]:
  "hp i + 8 = hp (i + 8)" "hp i + 16 = hp (i + 16)" "hp i + 24 = hp (i + 24)"
  "hp i + of_nat j = hp (i + j)"
  by (simp_all add: hp_def)

lemma hp_0 [simp]: "hp 0 = heap_virt"
  by (simp add: hp_def)

lemma unat_hp:
  assumes "i < 2 ^ 21"
  shows "unat (hp i) = 0xFFFFFFFF81000000 + i"
proof -
  have "unat (hp i) = (unat heap_virt + i) mod 2 ^ 64"
    unfolding hp_def using assms by (intro unat_add_of_nat) simp
  moreover have "unat heap_virt = 0xFFFFFFFF81000000" by (simp add: heap_virt_def)
  ultimately show ?thesis using assms by simp
qed

lemma hp_nonzero: "i < 2 ^ 21 \<Longrightarrow> hp i \<noteq> 0"
proof
  assume "i < 2 ^ 21" "hp i = 0"
  from this(2) have "unat (hp i) = 0" by simp
  then show False unfolding unat_hp [OF \<open>i < 2 ^ 21\<close>] by linarith
qed

lemma hp_inj: "i < 2 ^ 21 \<Longrightarrow> j < 2 ^ 21 \<Longrightarrow> hp i = hp j \<longleftrightarrow> i = j"
proof
  assume b: "i < 2 ^ 21" "j < 2 ^ 21" and "hp i = hp j"
  from this(3) have "unat (hp i) = unat (hp j)" by simp
  then show "i = j" unfolding unat_hp [OF b(1)] unat_hp [OF b(2)] by linarith
qed simp

lemma hp_diff: "i \<le> j \<Longrightarrow> hp j - hp i = of_nat (j - i)"
  by (simp add: hp_def of_nat_diff)

lemma hp_back: "hp (i + 24) - 24 = hp i"
  by (simp add: hp_def)

text \<open>Bounds on the offsets and sizes of one heap.\<close>

lemma of_nat_less_iff_u64:
  "a < 2 ^ 64 \<Longrightarrow> b < 2 ^ 64 \<Longrightarrow> (of_nat a :: u64) < of_nat b \<longleftrightarrow> a < b"
  "a < 2 ^ 64 \<Longrightarrow> b < 2 ^ 64 \<Longrightarrow> (of_nat a :: u64) \<le> of_nat b \<longleftrightarrow> a \<le> b"
  by (simp_all only: word_less_nat_alt word_le_nat_alt unat_of_nat_u64)

lemma blk_at_cong:
  assumes "\<And>i. i < 24 \<Longrightarrow> m (hp (off + i)) = m' (hp (off + i))"
  shows "blk_at m off b nx = blk_at m' off b nx"
proof -
  have "load64 m (hp off) = load64 m' (hp off)" using assms by (intro load64_cong) simp
  moreover have "load64 m (hp (off + 8)) = load64 m' (hp (off + 8))"
  proof (rule load64_cong)
    fix i :: nat assume "i < 8"
    then show "m (hp (off + 8) + of_nat i) = m' (hp (off + 8) + of_nat i)"
      using assms [of "8 + i"] by (simp add: add.assoc)
  qed
  moreover have "load32 m (hp (off + 16)) = load32 m' (hp (off + 16))"
  proof (rule load32_cong)
    fix i :: nat assume "i < 4"
    then show "m (hp (off + 16) + of_nat i) = m' (hp (off + 16) + of_nat i)"
      using assms [of "16 + i"] by (simp add: add.assoc)
  qed
  ultimately show ?thesis by (simp add: blk_at_def blk_size_def blk_next_def blk_free_def)
qed

lemma heap_seg_cong:
  assumes "\<And>i. off \<le> i \<Longrightarrow> i < off + span bs \<Longrightarrow> m (hp i) = m' (hp i)"
  shows "heap_seg m off bs e = heap_seg m' off bs e"
  using assms
proof (induction bs arbitrary: off)
  case (Cons b bs)
  have "blk_at m off b nx = blk_at m' off b nx" for nx
    by (rule blk_at_cong) (use Cons.prems in simp)
  moreover have "heap_seg m (off + 24 + fst b) bs e = heap_seg m' (off + 24 + fst b) bs e"
    by (rule Cons.IH) (use Cons.prems in simp)
  ultimately show ?case by simp
qed simp

text \<open>Being outside a range of the heap, for any address and for a heap offset.\<close>

lemma hp_outside:
  "outside (hp i) n x \<Longrightarrow> j + k \<le> n \<Longrightarrow> n \<le> 2 ^ 21 \<Longrightarrow> outside (hp (i + j)) k x"
  using outside_sub [of "hp i" n x j k] by simp

lemma hp_outside_hp:
  assumes "x < i \<or> i + n \<le> x" "i + n \<le> 2 ^ 20" "x < 2 ^ 20" "0 < n"
  shows "outside (hp i) n (hp x)"
proof -
  have "apart (hp i) n (hp x) 1" by (rule hp_apart) (use assms in auto)
  then show ?thesis by (simp add: apart_def outside_def)
qed

section \<open>Taking a block\<close>

lemma kmalloc_take_split:
  assumes b: "blk_at m off (sz, True) nx" and n: "n + 40 < sz" and bound: "off + 24 + sz \<le> 2 ^ 20"
  shows "blk_at (kmalloc_take (of_nat n) (hp off) m) off (n, False) (hp (off + 24 + n))"
    and "blk_at (kmalloc_take (of_nat n) (hp off) m) (off + 24 + n) (sz - n - 24, True) nx"
proof -
  have lt: "(of_nat n + 24 + 16 :: u64) < of_nat sz"
    using of_nat_less_iff_u64(1) [of "n + 40" sz] n bound by (simp add: ac_simps)
  have d: "(of_nat sz - of_nat n - 24 :: u64) = of_nat (sz - n - 24)"
    using n by (simp add: of_nat_diff)
  have f: "blk_size m (hp off) = of_nat sz" "load64 m (hp (off + 8)) = nx"
    using b by (simp_all add: blk_at_def blk_next_def)
  have m': "kmalloc_take (of_nat n) (hp off) m =
     store32 (store64 (store64 (store32 (store64 (store64 m (hp (off + 24 + n)) (of_nat (sz - n - 24)))
       (hp (off + 24 + n + 8)) nx) (hp (off + 24 + n + 16)) 1) (hp off) (of_nat n))
       (hp (off + 8)) (hp (off + 24 + n))) (hp (off + 16)) 0"
    using lt d f bound n
    by (simp add: kmalloc_take_def sizeof_block_def Let_def blk_next_def load64_store64_apart hp_apart
        diff_diff_eq)
  show "blk_at (kmalloc_take (of_nat n) (hp off) m) off (n, False) (hp (off + 24 + n))"
    using n bound unfolding m' blk_at_def blk_size_def blk_next_def blk_free_def
    by (simp add: mem_simps hp_apart)
  show "blk_at (kmalloc_take (of_nat n) (hp off) m) (off + 24 + n) (sz - n - 24, True) nx"
    using n bound unfolding m' blk_at_def blk_size_def blk_next_def blk_free_def
    by (simp add: mem_simps hp_apart)
qed

lemma kmalloc_take_whole:
  assumes b: "blk_at m off (sz, True) nx" and n: "n \<le> sz" "\<not> n + 40 < sz"
    and bound: "off + 24 + sz \<le> 2 ^ 20"
  shows "blk_at (kmalloc_take (of_nat n) (hp off) m) off (sz, False) nx"
proof -
  have "\<not> (of_nat n + 24 + 16 :: u64) < of_nat sz"
    using of_nat_less_iff_u64(1) [of "n + 40" sz] n bound by (simp add: ac_simps)
  moreover have "blk_size m (hp off) = of_nat sz" using b by (simp add: blk_at_def)
  ultimately have "kmalloc_take (of_nat n) (hp off) m = store32 m (hp (off + 16)) 0"
    by (simp add: kmalloc_take_def sizeof_block_def)
  with b bound show ?thesis
    by (simp add: blk_at_def blk_size_def blk_next_def blk_free_def mem_simps hp_apart)
qed

lemma kmalloc_take_outside:
  assumes b: "blk_at m off (sz, f) nx" and n: "n \<le> sz"
    and bound: "off + 24 + sz \<le> 2 ^ 20" and x: "outside (hp off) (24 + sz) x"
  shows "kmalloc_take (of_nat n) (hp off) m x = m x"
proof -
  have o: "outside (hp (off + i)) k x" if "i + k \<le> 24 + sz" for i k
    using x that bound by (intro hp_outside) auto
  have sz: "blk_size m (hp off) = of_nat sz" using b by (simp add: blk_at_def)
  have fl: "store32 m1 (hp (off + 16)) 0 x = m1 x" for m1
    using o [of 16 4] by (simp add: store32_outside)
  show ?thesis
  proof (cases "(of_nat n + 24 + 16 :: u64) < of_nat sz")
    case True
    then have "n + 40 < sz"
      using of_nat_less_iff_u64(1) [of "n + 40" sz] n bound by (simp add: ac_simps)
    then show ?thesis
      using True sz o [of 0 8] o [of 8 8] o [of "24 + n" 8] o [of "24 + n + 8" 8] o [of "24 + n + 16" 4]
      by (simp add: kmalloc_take_def sizeof_block_def Let_def fl store64_outside store32_outside
          add.assoc)
  qed (use sz in \<open>simp add: kmalloc_take_def sizeof_block_def fl\<close>)
qed

section \<open>First fit\<close>

definition fits :: "nat \<Rightarrow> block \<Rightarrow> bool" where
  "fits n b \<longleftrightarrow> snd b \<and> n \<le> fst b"

lemma kmalloc_find_first_fit:
  assumes "heap_seg m off bs 0" "off + span bs \<le> 2 ^ 20" "n < 2 ^ 64" "bs \<noteq> []"
  shows "kmalloc_find m (of_nat n) (hp off) =
     Some (if dropWhile (\<lambda>b. \<not> fits n b) bs = [] then 0
           else hp (off + span (takeWhile (\<lambda>b. \<not> fits n b) bs)))"
  using assms
proof (induction bs arbitrary: off)
  case (Cons b bs)
  obtain sz f where b: "b = (sz, f)" by force
  have at: "blk_at m off b (if bs = [] then 0 else hp (off + 24 + sz))"
    and tail: "heap_seg m (off + 24 + sz) bs 0" using Cons.prems(1) by (auto simp: b)
  have nz: "hp off \<noteq> 0" using Cons.prems(2) by (intro hp_nonzero) simp
  have fit: "(blk_free m (hp off) \<and> of_nat n \<le> blk_size m (hp off)) = fits n b"
    using at Cons.prems(2,3) of_nat_less_iff_u64(2) [of n sz] by (auto simp: b blk_at_def fits_def)
  show ?case
  proof (cases "fits n b")
    case True
    with fit nz show ?thesis by (simp add: kmalloc_find.simps [of m _ "hp off"])
  next
    case False
    with fit nz have step: "kmalloc_find m (of_nat n) (hp off) =
        kmalloc_find m (of_nat n) (blk_next m (hp off))"
      by (simp add: kmalloc_find.simps [of m _ "hp off"])
    show ?thesis
    proof (cases "bs = []")
      case True
      with at have "blk_next m (hp off) = 0" by (simp add: blk_at_def)
      with True False step show ?thesis by (simp add: kmalloc_find.simps [of m _ 0])
    next
      case bs: False
      with at have "blk_next m (hp off) = hp (off + 24 + sz)" by (simp add: blk_at_def)
      with step bs False Cons.IH [OF tail] Cons.prems show ?thesis
        by (simp add: b add.assoc)
    qed
  qed
qed simp

text \<open>What first fit does to the list of blocks.\<close>

definition carve :: "nat \<Rightarrow> block \<Rightarrow> block list" where
  "carve n b = (if n + 40 < fst b then [(n, False), (fst b - n - 24, True)] else [(fst b, False)])"

definition alloc_blocks :: "nat \<Rightarrow> block list \<Rightarrow> (nat \<times> block list) option" where
  "alloc_blocks n bs =
     (case dropWhile (\<lambda>b. \<not> fits n b) bs of
        [] \<Rightarrow> None
      | b # post \<Rightarrow> let pre = takeWhile (\<lambda>b. \<not> fits n b) bs
          in Some (span pre + 24, pre @ carve n b @ post))"

lemma carve_not_Nil [simp]: "carve n b \<noteq> []"
  by (simp add: carve_def)

lemma span_carve: "n \<le> fst b \<Longrightarrow> span (carve n b) = 24 + fst b"
  by (simp add: carve_def)


lemma alloc_blocks_None: "alloc_blocks n bs = None \<longleftrightarrow> (\<forall>b \<in> set bs. \<not> fits n b)"
proof -
  have "alloc_blocks n bs = None \<longleftrightarrow> dropWhile (\<lambda>b. \<not> fits n b) bs = []"
    by (cases "dropWhile (\<lambda>b. \<not> fits n b) bs") (simp_all only: alloc_blocks_def list.simps Let_def
        option.simps simp_thms)
  then show ?thesis by simp
qed

lemma alloc_blocks_Some:
  assumes "alloc_blocks n bs = Some (off, bs')"
  obtains pre b post where "bs = pre @ b # post" "\<forall>c \<in> set pre. \<not> fits n c" "fits n b"
    "off = span pre + 24" "bs' = pre @ carve n b @ post"
    "takeWhile (\<lambda>b. \<not> fits n b) bs = pre" "dropWhile (\<lambda>b. \<not> fits n b) bs = b # post"
proof -
  define pre where "pre = takeWhile (\<lambda>b. \<not> fits n b) bs"
  obtain b post where d: "dropWhile (\<lambda>b. \<not> fits n b) bs = b # post"
    using assms by (auto simp: alloc_blocks_def split: list.splits)
  have 1: "bs = pre @ b # post" by (metis pre_def d takeWhile_dropWhile_id)
  have 2: "fits n b" by (metis d hd_dropWhile list.distinct(1) list.sel(1))
  have 3: "\<forall>c \<in> set pre. \<not> fits n c" by (metis (mono_tags, lifting) pre_def set_takeWhileD)
  have 4: "off = span pre + 24" "bs' = pre @ carve n b @ post"
    using assms d by (simp_all add: alloc_blocks_def pre_def [symmetric])
  show ?thesis by (rule that [OF 1 3 2 4 pre_def [symmetric] d])
qed

text \<open>Replacing one block by the blocks it is cut into.\<close>

lemma heap_seg_replace:
  assumes seg: "heap_seg m 0 (pre @ b # post) 0" and ds: "ds \<noteq> []" "span ds = 24 + fst b"
    and bound: "span (pre @ b # post) \<le> 2 ^ 20"
    and seg': "heap_seg m' (span pre) ds (if post = [] then 0 else hp (span pre + 24 + fst b))"
    and frame: "\<And>x. outside (hp (span pre)) (24 + fst b) x \<Longrightarrow> m' x = m x"
  shows "heap_seg m' 0 (pre @ ds @ post) 0"
proof -
  have fr: "m' (hp i) = m (hp i)"
    if "i < span pre \<or> span pre + 24 + fst b \<le> i" "i < span (pre @ b # post)" for i
    using that bound by (intro frame hp_outside_hp) auto
  have "heap_seg m 0 pre (hp (span pre))"
    using seg heap_seg_append [of "b # post" m 0 pre 0] by simp
  then have pre: "heap_seg m' 0 pre (hp (span pre))"
    using heap_seg_cong [of 0 pre m' m "hp (span pre)"] fr by simp
  have "heap_seg m (span pre + 24 + fst b) post 0"
    using seg heap_seg_append [of "b # post" m 0 pre 0] by simp
  then have post: "heap_seg m' (span pre + 24 + fst b) post 0"
    using heap_seg_cong [of "span pre + 24 + fst b" post m' m 0] fr by simp
  have "heap_seg m' (span pre) (ds @ post) 0"
  proof (cases "post = []")
    case False
    with seg' post ds show ?thesis
      using heap_seg_append [of post m' "span pre" ds 0] by (simp add: add.assoc)
  qed (use seg' in simp)
  with pre ds show ?thesis using heap_seg_append [of "ds @ post" m' 0 pre 0] by simp
qed

lemma kmalloc_take_carve:
  assumes "blk_at m off b nx" "fits n b" "off + 24 + fst b \<le> 2 ^ 20"
  shows "heap_seg (kmalloc_take (of_nat n) (hp off) m) off (carve n b) nx"
proof -
  obtain sz where b: "b = (sz, True)" and n: "n \<le> sz" using assms(2) by (cases b) (auto simp: fits_def)
  show ?thesis
    using kmalloc_take_split [of m off sz nx n] kmalloc_take_whole [of m off sz nx n] assms n
    by (cases "n + 40 < sz") (simp_all add: b carve_def)
qed

lemma round8_dvd: "8 dvd unat ((x :: u64) AND NOT 7)"
proof -
  have "(7 :: u64) = mask 3" by (simp add: mask_eq_exp_minus_1)
  then have "take_bit 3 (x AND NOT 7) = 0"
    by (auto simp: bit_eq_iff bit_simps)
  moreover have "unat (take_bit 3 (x AND NOT 7)) = unat (x AND NOT 7) mod 8"
    by (subst unsigned_take_bit_eq) (simp add: take_bit_eq_mod)
  ultimately show ?thesis by (simp add: dvd_eq_mod_eq_0)
qed

lemma kmalloc_refines:
  assumes inv: "heap_inv h m bs" and "req \<noteq> 0" and n: "n = unat ((req + 7) AND NOT 7)"
  shows "alloc_blocks n bs = None \<Longrightarrow> kmalloc req h m = Some (0, m)"
    and "alloc_blocks n bs = Some (off, bs') \<Longrightarrow> \<exists>m' pre b post. kmalloc req h m = Some (hp off, m')
      \<and> heap_inv h m' bs' \<and> bs = pre @ b # post \<and> (\<forall>c \<in> set pre. \<not> fits n c) \<and> fits n b
      \<and> off = span pre + 24
      \<and> bs' = pre @ carve n b @ post
      \<and> (\<forall>x. outside (hp (span pre)) (24 + fst b) x \<longrightarrow> m' x = m x)"
proof -
  let ?P = "\<lambda>b. \<not> fits n b"
  have hd: "heap_head h = hp 0" "hp 0 \<noteq> 0" "bs \<noteq> []"
    using inv hp_nonzero [of 0] by (auto simp: heap_inv_def)
  have n64: "n < 2 ^ 64" "of_nat n = (req + 7) AND NOT 7"
    using unat_u64_less(1) n by auto
  have "span bs \<le> 2 ^ 20" "heap_seg m 0 bs 0" using inv by (auto simp: heap_inv_def)
  then have find: "kmalloc_find m (of_nat n) (hp 0) =
      Some (if dropWhile ?P bs = [] then 0 else hp (span (takeWhile ?P bs)))"
    using kmalloc_find_first_fit [of m 0 bs n] n64 hd by simp
  show "kmalloc req h m = Some (0, m)" if "alloc_blocks n bs = None"
    using that find hd \<open>req \<noteq> 0\<close> n64
    by (simp add: kmalloc_def alloc_blocks_def Let_def split: list.splits)
  assume "alloc_blocks n bs = Some (off, bs')"
  then obtain pre b post where bs: "bs = pre @ b # post" "fits n b" "off = span pre + 24"
    "bs' = pre @ carve n b @ post" "takeWhile ?P bs = pre" "dropWhile ?P bs = b # post"
    and first: "\<forall>c \<in> set pre. \<not> fits n c"
    by (rule alloc_blocks_Some)
  let ?m = "kmalloc_take (of_nat n) (hp (span pre)) m"
  have bound: "span (pre @ b # post) = 2 ^ 20" and fit: "n \<le> fst b"
    using inv bs by (auto simp: heap_inv_def fits_def)
  then have nz: "hp (span pre) \<noteq> 0" by (intro hp_nonzero) auto
  have at: "blk_at m (span pre) b (if post = [] then 0 else hp (span pre + 24 + fst b))"
    using inv bs(1) heap_seg_append [of "b # post" m 0 pre 0] by (simp add: heap_inv_def)
  have frame: "?m x = m x" if "outside (hp (span pre)) (24 + fst b) x" for x
    using kmalloc_take_outside [of m "span pre" "fst b" "snd b"] at fit bound that by simp
  have "heap_seg ?m 0 (pre @ carve n b @ post) 0"
    using inv bs(1) kmalloc_take_carve [OF at bs(2)] bound frame span_carve [OF fit]
    by (intro heap_seg_replace [of m]) (auto simp: heap_inv_def)
  moreover have "\<forall>b \<in> set bs'. 8 dvd fst b"
    using inv bs round8_dvd [of "req + 7"] n
    by (auto simp: heap_inv_def carve_def fits_def dvd_diff_nat split: if_splits)
  ultimately have "heap_inv h ?m bs'"
    using inv bs span_carve [OF fit] by (simp add: heap_inv_def)
  moreover have "kmalloc req h m = Some (hp off, ?m)"
    using find hd \<open>req \<noteq> 0\<close> n64 nz bs(3,5,6)
    by (simp add: kmalloc_def Let_def sizeof_block_def)
  ultimately show "\<exists>m' pre b post. kmalloc req h m = Some (hp off, m')
      \<and> heap_inv h m' bs' \<and> bs = pre @ b # post \<and> (\<forall>c \<in> set pre. \<not> fits n c) \<and> fits n b
      \<and> off = span pre + 24
      \<and> bs' = pre @ carve n b @ post
      \<and> (\<forall>x. outside (hp (span pre)) (24 + fst b) x \<longrightarrow> m' x = m x)"
    using frame bs(1-4) first by blast
qed

section \<open>The merging pass\<close>

fun merge_pass :: "block list \<Rightarrow> block list" where
  "merge_pass [] = []"
| "merge_pass [b] = [b]"
| "merge_pass (b # c # bs) =
     (if snd b \<and> snd c then (fst b + 24 + fst c, True) # merge_pass bs else b # merge_pass (c # bs))"

lemma merge_pass_simps [simp]:
  "merge_pass bs = [] \<longleftrightarrow> bs = []" "span (merge_pass bs) = span bs"
  by (induction bs rule: merge_pass.induct) auto

lemma merge_pass_dvd: "\<forall>b \<in> set bs. 8 dvd fst b \<Longrightarrow> \<forall>b \<in> set (merge_pass bs). 8 dvd fst b"
  by (induction bs rule: merge_pass.induct) (auto intro: dvd_add)

text \<open>The addresses that are in no header of the segment: the payloads, and what is not heap.\<close>

primrec no_header :: "nat \<Rightarrow> block list \<Rightarrow> u64 \<Rightarrow> bool" where
  "no_header off [] x \<longleftrightarrow> True"
| "no_header off (b # bs) x \<longleftrightarrow> outside (hp off) 24 x \<and> no_header (off + 24 + fst b) bs x"

lemma no_header_before:
  "i < off \<Longrightarrow> off + span bs \<le> 2 ^ 20 \<Longrightarrow> no_header off bs (hp i)"
  by (induction bs arbitrary: off) (auto intro!: hp_outside_hp)

lemma no_header_append:
  "no_header off (xs @ ys) x \<longleftrightarrow> no_header off xs x \<and> no_header (off + span xs) ys x"
  by (induction xs arbitrary: off) (auto simp: add.assoc)

lemma kfree_merge_outside:
  assumes "outside (hp off) 24 x"
  shows "kfree_merge (hp off) m x = m x"
proof -
  have "outside (hp off) 8 x" "outside (hp (off + 8)) 8 x"
    using hp_outside [OF assms, of 0 8] hp_outside [OF assms, of 8 8] by simp_all
  then show ?thesis by (simp add: kfree_merge_def Let_def store64_outside)
qed

lemma kfree_merge_block:
  assumes b: "blk_at m off b (hp (off + 24 + fst b))" and c: "blk_at m (off + 24 + fst b) c nx"
    and bound: "off + 24 + fst b + 24 + fst c \<le> 2 ^ 20"
  shows "if snd b \<and> snd c then blk_at (kfree_merge (hp off) m) off (fst b + 24 + fst c, True) nx
     else kfree_merge (hp off) m = m"
proof (cases "snd b \<and> snd c")
  case True
  let ?c = "off + 24 + fst b"
  have f: "blk_size m (hp off) = of_nat (fst b)" "blk_next m (hp off) = hp ?c"
    "blk_size m (hp ?c) = of_nat (fst c)" "load64 m (hp (?c + 8)) = nx"
    "blk_free m (hp off)" "blk_free m (hp ?c)"
    using b c True by (auto simp: blk_at_def blk_next_def)
  then have "kfree_merge (hp off) m =
      store64 (store64 m (hp off) (of_nat (fst b + 24 + fst c))) (hp (off + 8)) nx"
    using bound
    by (simp add: kfree_merge_def sizeof_block_def Let_def blk_next_def load64_store64_apart hp_apart
        add.assoc)
  moreover have "load32 m (hp (off + 16)) \<noteq> 0" using f by (simp add: blk_free_def)
  ultimately have "blk_at (kfree_merge (hp off) m) off (fst b + 24 + fst c, True) nx"
    using bound by (simp add: blk_at_def blk_size_def blk_next_def blk_free_def mem_simps hp_apart)
  with True show ?thesis by simp
next
  case False
  with b c show ?thesis by (auto simp: kfree_merge_def blk_at_def)
qed

lemma kfree_pass_step:
  assumes at: "blk_at m off b nx" and seg: "heap_seg m (off + 24 + fst b) bs 0"
    and nx: "nx = (if bs = [] then 0 else hp (off + 24 + fst b))"
    and bound: "off + 24 + fst b + span bs \<le> 2 ^ 20"
    and IH: "bs \<noteq> [] \<Longrightarrow> \<exists>m'. kfree_pass m nx = Some m' \<and> heap_seg m' (off + 24 + fst b) (merge_pass bs) 0
       \<and> (\<forall>x. no_header (off + 24 + fst b) bs x \<longrightarrow> m' x = m x)"
  shows "\<exists>m'. kfree_pass m nx = Some m' \<and> heap_seg m' off (b # merge_pass bs) 0
     \<and> (\<forall>x. no_header (off + 24 + fst b) bs x \<longrightarrow> m' x = m x)"
proof (cases "bs = []")
  case True
  with at nx show ?thesis by (simp add: kfree_pass.simps [of m 0])
next
  case False
  with IH obtain m' where m': "kfree_pass m nx = Some m'"
    "heap_seg m' (off + 24 + fst b) (merge_pass bs) 0"
    "\<forall>x. no_header (off + 24 + fst b) bs x \<longrightarrow> m' x = m x" by blast
  have "m' (hp (off + i)) = m (hp (off + i))" if "i < 24" for i
    using m'(3) no_header_before [of "off + i" "off + 24 + fst b" bs] that bound by simp
  then have "blk_at m' off b nx" using at blk_at_cong [of m' off m] by simp
  with m' False nx show ?thesis by auto
qed

lemma kfree_pass_merges:
  assumes "heap_seg m off bs 0" "off + span bs \<le> 2 ^ 20" "bs \<noteq> []"
  shows "\<exists>m'. kfree_pass m (hp off) = Some m' \<and> heap_seg m' off (merge_pass bs) 0
     \<and> (\<forall>x. no_header off bs x \<longrightarrow> m' x = m x)"
  using assms
proof (induction bs arbitrary: m off rule: merge_pass.induct)
  case (2 b)
  then have "blk_next m (hp off) = 0" by (simp add: blk_at_def)
  with 2 show ?case by (simp add: kfree_pass.simps [of m "hp off"])
next
  case (3 b c bs)
  let ?c = "off + 24 + fst b" and ?m = "kfree_merge (hp off) m"
  let ?d = "?c + 24 + fst c" and ?nx = "if bs = [] then 0 else hp (off + 24 + fst b + 24 + fst c)"
  have at: "blk_at m off b (hp ?c)" "blk_at m ?c c ?nx" and tl: "heap_seg m ?d bs 0"
    using "3.prems"(1) by (simp_all split: if_splits)
  have bound: "off + 24 + fst b + 24 + fst c + span bs \<le> 2 ^ 20" using "3.prems"(2) by simp
  have nz: "hp off \<noteq> 0" "blk_next m (hp off) = hp ?c" "hp ?c \<noteq> 0"
    using at bound by (auto intro!: hp_nonzero simp: blk_at_def)
  then have step: "kfree_pass m (hp off) = kfree_pass ?m (blk_next ?m (hp off))"
    by (simp add: kfree_pass.simps [of m "hp off"])
  have fr: "?m x = m x" if "outside (hp off) 24 x" for x
    using that by (rule kfree_merge_outside)
  have m: "if snd b \<and> snd c then blk_at ?m off (fst b + 24 + fst c, True) ?nx else ?m = m"
    using at bound by (intro kfree_merge_block) auto
  show ?case
  proof (cases "snd b \<and> snd c")
    case True
    let ?e = "(fst b + 24 + fst c, True)"
    have "?m (hp i) = m (hp i)" if "?d \<le> i" "i < ?d + span bs" for i
      using that bound by (intro fr hp_outside_hp) auto
    then have tl': "heap_seg ?m ?d bs 0" using tl heap_seg_cong [of ?d bs ?m m 0] by simp
    have e: "blk_at ?m off ?e ?nx" using m True by simp
    have eq: "off + 24 + fst ?e = ?d" by simp
    have "\<exists>m'. kfree_pass ?m ?nx = Some m' \<and> heap_seg m' off (?e # merge_pass bs) 0
        \<and> (\<forall>x. no_header ?d bs x \<longrightarrow> m' x = ?m x)"
      using kfree_pass_step [OF e, of bs, unfolded eq] tl' bound "3.IH"(1) [OF True tl'] by simp
    then obtain m' where m': "kfree_pass ?m ?nx = Some m'" "heap_seg m' off (?e # merge_pass bs) 0"
      "\<forall>x. no_header ?d bs x \<longrightarrow> m' x = ?m x" by blast
    moreover have "blk_next ?m (hp off) = ?nx" using e by (simp add: blk_at_def)
    ultimately show ?thesis using step True fr by (intro exI [of _ m']) simp
  next
    case False
    with m have eq: "?m = m" by simp
    have "\<exists>m'. kfree_pass m (hp ?c) = Some m' \<and> heap_seg m' off (b # merge_pass (c # bs)) 0
        \<and> (\<forall>x. no_header ?c (c # bs) x \<longrightarrow> m' x = m x)"
      using kfree_pass_step [OF at(1), of "c # bs"] "3.IH"(2) [OF False, of m ?c] "3.prems" by simp
    with step eq nz False show ?thesis by auto
  qed
qed simp

section \<open>Releasing a block\<close>

lemma set_free_block:
  assumes "blk_at m off (sz, f) nx" "off + 24 + sz \<le> 2 ^ 20"
  shows "blk_at (store32 m (hp (off + 16)) 1) off (sz, True) nx"
  using assms by (simp add: blk_at_def blk_size_def blk_next_def blk_free_def mem_simps hp_apart)

lemma kfree_refines:
  assumes inv: "heap_inv h m (pre @ (sz, f) # post)"
  shows "\<exists>m'. kfree (hp (span pre + 24)) h m = Some m'
     \<and> heap_inv h m' (merge_pass (pre @ (sz, True) # post))
     \<and> (\<forall>x. no_header 0 (pre @ (sz, f) # post) x \<longrightarrow> m' x = m x)"
proof -
  let ?bs = "pre @ (sz, f) # post" and ?bs' = "pre @ (sz, True) # post"
  let ?m = "store32 m (hp (span pre + 16)) 1"
  have bound: "span ?bs = 2 ^ 20" using inv by (simp add: heap_inv_def)
  have fr: "?m x = m x" if "outside (hp (span pre)) 24 x" for x
    using hp_outside [OF that, of 16 4] by (simp add: store32_outside)
  have fr': "?m x = m x" if "outside (hp (span pre)) (24 + sz) x" for x
    using hp_outside [OF that, of 0 24] bound by (intro fr) simp
  have "blk_at m (span pre) (sz, f) (if post = [] then 0 else hp (span pre + 24 + sz))"
    using inv heap_seg_append [of "(sz, f) # post" m 0 pre 0] by (auto simp: heap_inv_def)
  then have "blk_at ?m (span pre) (sz, True) (if post = [] then 0 else hp (span pre + 24 + sz))"
    using bound by (intro set_free_block) auto
  then have "heap_seg ?m 0 (pre @ [(sz, True)] @ post) 0"
    using inv bound fr' by (intro heap_seg_replace [of m _ "(sz, f)"]) (auto simp: heap_inv_def)
  then obtain m' where m': "kfree_pass ?m (hp 0) = Some m'" "heap_seg m' 0 (merge_pass ?bs') 0"
    "\<forall>x. no_header 0 ?bs' x \<longrightarrow> m' x = ?m x"
    using kfree_pass_merges [of ?m 0 ?bs'] bound by auto
  have nz: "hp (span pre + 24) \<noteq> 0" using bound by (intro hp_nonzero) simp
  have "kfree (hp (span pre + 24)) h m = Some m'"
    using m'(1) inv nz hp_back [of "span pre"] by (simp add: kfree_def sizeof_block_def heap_inv_def)
  moreover have "heap_inv h m' (merge_pass ?bs')"
    using inv m'(2) merge_pass_dvd [of ?bs'] by (simp add: heap_inv_def)
  moreover have "m' x = m x" if "no_header 0 ?bs x" for x
    using m'(3) fr [of x] that by (simp add: no_header_append)
  ultimately show ?thesis by blast
qed

end
