(* ===== verification/Heap_Client.thy ===== *)
theory Heap_Client
  imports Heap
begin

text \<open>
  What the clients of \<open>kmalloc\<close> and \<open>kfree\<close> rely on. \<open>live\<close> lists the blocks in use; the locale
  \<open>heap_interface\<close> states the contract of an allocator over the kernel's memory (blocks in use do not
  overlap, allocation and release return, keep the contents of every block in use, and survive any
  write into owned blocks), proves what it means for every run of a client, and is interpreted on
  \<open>kmalloc\<close> and \<open>kfree\<close>. \<open>heap_init\<close> and the properties of the heap follow.
\<close>

section \<open>Blocks in use\<close>

primrec live :: "nat \<Rightarrow> block list \<Rightarrow> (u64 \<times> nat) set" where
  "live off [] = {}"
| "live off (b # bs) = (if snd b then {} else {(hp (off + 24), fst b)}) \<union> live (off + 24 + fst b) bs"

lemma live_append: "live off (xs @ ys) = live off xs \<union> live (off + span xs) ys"
  by (induction xs arbitrary: off) (auto simp: add.assoc)

lemma live_bounds:
  "(p, n) \<in> live off bs \<Longrightarrow> \<exists>i. p = hp i \<and> off + 24 \<le> i \<and> i + n \<le> off + span bs"
proof (induction bs arbitrary: off)
  case (Cons b bs)
  then show ?case by (fastforce split: if_splits)
qed simp

lemma live_split:
  "(p, n) \<in> live off bs \<Longrightarrow> \<exists>pre post. bs = pre @ (n, False) # post \<and> p = hp (off + span pre + 24)"
proof (induction bs arbitrary: off)
  case (Cons b bs)
  show ?case
  proof (cases "(p, n) \<in> live (off + 24 + fst b) bs")
    case True
    then obtain pre post where "bs = pre @ (n, False) # post" "p = hp (off + 24 + fst b + span pre + 24)"
      using Cons.IH by blast
    then show ?thesis by (intro exI [of _ "b # pre"] exI [of _ post]) (simp add: ac_simps)
  next
    case False
    with Cons.prems show ?thesis
      by (intro exI [of _ "[]"] exI [of _ bs]) (cases b, auto split: if_splits)
  qed
qed simp

lemma live_merge: "live off (merge_pass bs) = live off bs"
  by (induction bs arbitrary: off rule: merge_pass.induct) (auto simp: add.assoc)

lemma hp_apart_ordered:
  assumes "i < j" "i + n \<le> j" "j + k \<le> 2 ^ 20"
  shows "apart (hp i) n (hp j) k"
proof -
  have "n \<le> unat (hp j - hp i)"
    using assms by (simp add: hp_diff unat_of_nat_u64 del: of_nat_diff)
  moreover have "k \<le> unat (hp i - hp j)"
    using hp_outside_hp [of i j k] assms by (cases "k = 0") (auto simp: outside_def)
  ultimately show ?thesis by (simp add: apart_def)
qed

lemma live_apart:
  assumes "(p, n) \<in> live off bs" "(q, k) \<in> live off bs" "(p, n) \<noteq> (q, k)" "off + span bs \<le> 2 ^ 20"
  shows "apart p n q k \<and> p \<noteq> q"
  using assms
proof (induction bs arbitrary: off)
  case (Cons b bs)
  have sep: "apart (hp (off + 24)) (fst b) q k \<and> hp (off + 24) \<noteq> q"
    if qk: "(q, k) \<in> live (off + 24 + fst b) bs" for q k
  proof -
    obtain i where i: "q = hp i" "off + 24 + fst b + 24 \<le> i" "i + k \<le> off + 24 + fst b + span bs"
      using live_bounds [OF qk] by blast
    then have "off + 24 < i" "off + 24 + fst b \<le> i" "i + k \<le> 2 ^ 20"
      using Cons.prems(4) by simp_all
    then show ?thesis
      unfolding i(1) using hp_apart_ordered [of "off + 24" i "fst b" k] hp_inj [of "off + 24" i] by simp
  qed
  have bound: "off + 24 + fst b + span bs \<le> 2 ^ 20" using Cons.prems(4) by simp
  show ?case
  proof (cases "(p, n) \<in> live (off + 24 + fst b) bs")
    case True
    then show ?thesis
    proof (cases "(q, k) \<in> live (off + 24 + fst b) bs")
      case True
      with \<open>(p, n) \<in> live (off + 24 + fst b) bs\<close> show ?thesis
        using Cons.IH [OF _ _ Cons.prems(3) bound] by blast
    next
      case False
      with Cons.prems(2) have "q = hp (off + 24)" "k = fst b" by (auto split: if_splits)
      with sep [OF True] show ?thesis by (auto intro: apart_sym)
    qed
  next
    case False
    with Cons.prems(1) have "p = hp (off + 24)" "n = fst b" by (auto split: if_splits)
    with Cons.prems(2,3) sep [of q k] show ?thesis by (auto split: if_splits)
  qed
qed simp

lemma live_no_header:
  "(p, n) \<in> live off bs \<Longrightarrow> i < n \<Longrightarrow> off + span bs \<le> 2 ^ 20 \<Longrightarrow> no_header off bs (p + of_nat i)"
proof (induction bs arbitrary: off)
  case (Cons b bs)
  show ?case
  proof (cases "(p, n) \<in> live (off + 24 + fst b) bs")
    case True
    then obtain j where "p = hp j" "off + 24 + fst b + 24 \<le> j" "j + n \<le> off + 24 + fst b + span bs"
      using live_bounds by blast
    then have "outside (hp off) 24 (p + of_nat i)"
      using Cons.prems by (auto intro!: hp_outside_hp)
    with Cons True show ?thesis by simp
  next
    case False
    with Cons.prems have "p = hp (off + 24)" "n = fst b" by (auto split: if_splits)
    then show ?thesis
      using Cons.prems no_header_before [of "off + 24 + i" "off + 24 + fst b" bs]
      by (auto intro!: hp_outside_hp)
  qed
qed simp

lemma heap_seg_headers:
  assumes "\<And>x. \<not> no_header off bs x \<Longrightarrow> m x = m' x" "off + span bs \<le> 2 ^ 20"
  shows "heap_seg m off bs e = heap_seg m' off bs e"
  using assms
proof (induction bs arbitrary: off)
  case (Cons b bs)
  have "m (hp (off + i)) = m' (hp (off + i))" if "i < 24" for i
    using Cons.prems(1) [of "hp (off + i)"] that unat_of_nat_u64 [of i]
    by (simp add: outside_def hp_diff)
  then have "blk_at m off b nx = blk_at m' off b nx" for nx by (intro blk_at_cong) simp
  moreover have "heap_seg m (off + 24 + fst b) bs e = heap_seg m' (off + 24 + fst b) bs e"
    using Cons.prems by (intro Cons.IH) auto
  ultimately show ?case by simp
qed simp

section \<open>The contract of an allocator\<close>

text \<open>\<open>kept A m m'\<close>: every byte of every block in \<open>A\<close> is in \<open>m'\<close> what it is in \<open>m\<close>.\<close>

definition kept :: "(u64 \<times> nat) set \<Rightarrow> memory \<Rightarrow> memory \<Rightarrow> bool" where
  "kept A m m' \<longleftrightarrow> (\<forall>(q, k) \<in> A. \<forall>i < k. m' (q + of_nat i) = m (q + of_nat i))"

text \<open>The steps of a client: it owns the blocks \<open>A\<close> it was given, may request and release blocks and
  write anything into the blocks it owns.\<close>

inductive heap_run ::
    "(u64 \<Rightarrow> memory \<Rightarrow> (u64 \<times> memory) option) \<Rightarrow> (u64 \<Rightarrow> memory \<Rightarrow> memory option) \<Rightarrow>
     memory \<times> (u64 \<times> nat) set \<Rightarrow> memory \<times> (u64 \<times> nat) set \<Rightarrow> bool"
  for malloc release where
  run_malloc: "malloc r m = Some (p, m') \<Longrightarrow> p \<noteq> 0 \<Longrightarrow> r \<noteq> 0 \<Longrightarrow> unat r + 7 < 2 ^ 64 \<Longrightarrow>
     heap_run malloc release (m, A) (m', insert (p, unat r) A)"
| run_full: "malloc r m = Some (0, m') \<Longrightarrow> r \<noteq> 0 \<Longrightarrow> unat r + 7 < 2 ^ 64 \<Longrightarrow>
     heap_run malloc release (m, A) (m', A)"
| run_free: "release p m = Some m' \<Longrightarrow> (p, n) \<in> A \<Longrightarrow>
     heap_run malloc release (m, A) (m', A - {(p, n)})"
| run_write: "(\<And>x. m' x \<noteq> m x \<Longrightarrow> \<exists>(p, n) \<in> A. \<not> outside p n x) \<Longrightarrow>
     heap_run malloc release (m, A) (m', A)"

locale heap_interface =
  fixes malloc :: "u64 \<Rightarrow> memory \<Rightarrow> (u64 \<times> memory) option"
    and release :: "u64 \<Rightarrow> memory \<Rightarrow> memory option"
    and owns :: "memory \<Rightarrow> (u64 \<times> nat) set \<Rightarrow> bool"
  assumes owned_apart:
      "owns m A \<Longrightarrow> (p, n) \<in> A \<Longrightarrow> (q, k) \<in> A \<Longrightarrow> (p, n) \<noteq> (q, k) \<Longrightarrow> apart p n q k \<and> p \<noteq> q"
    and malloc_result:
      "owns m A \<Longrightarrow> r \<noteq> 0 \<Longrightarrow> unat r + 7 < 2 ^ 64 \<Longrightarrow>
       \<exists>p m'. malloc r m = Some (p, m') \<and> (p = 0 \<and> m' = m
         \<or> p \<noteq> 0 \<and> (\<forall>k. (p, k) \<notin> A) \<and> owns m' (insert (p, unat r) A) \<and> kept A m m')"
    and release_result:
      "owns m A \<Longrightarrow> (p, n) \<in> A \<Longrightarrow>
       \<exists>m'. release p m = Some m' \<and> owns m' (A - {(p, n)}) \<and> kept (A - {(p, n)}) m m'"
    and write_owned:
      "owns m A \<Longrightarrow> (\<And>x. m' x \<noteq> m x \<Longrightarrow> \<exists>(p, n) \<in> A. \<not> outside p n x) \<Longrightarrow> owns m' A"
begin

lemma step_owns: "heap_run malloc release c d \<Longrightarrow> owns (fst c) (snd c) \<Longrightarrow> owns (fst d) (snd d)"
proof (induction rule: heap_run.induct)
  case (run_malloc r m p m' A)
  with malloc_result [of m A r] show ?case by auto
next
  case (run_full r m m' A)
  with malloc_result [of m A r] show ?case by auto
next
  case (run_free p m m' n A)
  with release_result [of m A p n] show ?case by auto
next
  case (run_write m' m A)
  with write_owned [of m A m'] show ?case by simp
qed

lemma run_owns:
  "(heap_run malloc release)\<^sup>*\<^sup>* c d \<Longrightarrow> owns (fst c) (snd c) \<Longrightarrow> owns (fst d) (snd d)"
  by (induction rule: rtranclp_induct) (auto dest: step_owns)

lemma run_result:
  assumes "(heap_run malloc release)\<^sup>*\<^sup>* c (m, A)" "owns (fst c) (snd c)"
  shows "pairwise (\<lambda>(p, n) (q, k). apart p n q k \<and> p \<noteq> q) A"
    and "r \<noteq> 0 \<Longrightarrow> unat r + 7 < 2 ^ 64 \<Longrightarrow> \<exists>p m'. malloc r m = Some (p, m') \<and> kept A m m'"
    and "(p, n) \<in> A \<Longrightarrow> \<exists>m'. release p m = Some m' \<and> kept (A - {(p, n)}) m m'"
proof -
  have owns: "owns m A" using run_owns [OF assms] by simp
  show "pairwise (\<lambda>(p, n) (q, k). apart p n q k \<and> p \<noteq> q) A"
    using owned_apart [OF owns] by (auto simp: pairwise_def)
  have "kept A m m" by (simp add: kept_def)
  then show "r \<noteq> 0 \<Longrightarrow> unat r + 7 < 2 ^ 64 \<Longrightarrow> \<exists>p m'. malloc r m = Some (p, m') \<and> kept A m m'"
    using malloc_result [OF owns, of r] by blast
  show "(p, n) \<in> A \<Longrightarrow> \<exists>m'. release p m = Some m' \<and> kept (A - {(p, n)}) m m'"
    using release_result [OF owns, of p n] by blast
qed

end

section \<open>The kernel heap keeps the contract\<close>

text \<open>The client owns, of each block, as many bytes as it asked for.\<close>

definition heap_owns :: "heap_state \<Rightarrow> memory \<Rightarrow> (u64 \<times> nat) set \<Rightarrow> bool" where
  "heap_owns h m A \<longleftrightarrow> (\<forall>p n k. (p, n) \<in> A \<longrightarrow> (p, k) \<in> A \<longrightarrow> n = k)
     \<and> (\<exists>bs. heap_inv h m bs \<and> (\<forall>(p, r) \<in> A. \<exists>n. r \<le> n \<and> (p, n) \<in> live 0 bs))"

lemma apart_mono: "apart p n q k \<Longrightarrow> r \<le> n \<Longrightarrow> t \<le> k \<Longrightarrow> apart p r q t"
  by (simp add: apart_def)

lemma heap_owns_apart:
  assumes "heap_owns h m A" "(p, n) \<in> A" "(q, k) \<in> A" "(p, n) \<noteq> (q, k)"
  shows "apart p n q k \<and> p \<noteq> q"
proof -
  obtain bs where bs: "heap_inv h m bs" "\<forall>(p, r) \<in> A. \<exists>n. r \<le> n \<and> (p, n) \<in> live 0 bs"
    using assms(1) by (auto simp: heap_owns_def)
  then obtain n' k' where nk: "n \<le> n'" "(p, n') \<in> live 0 bs" "k \<le> k'" "(q, k') \<in> live 0 bs"
    using assms(2,3) by blast
  have "p \<noteq> q" using assms by (auto simp: heap_owns_def)
  moreover have "0 + span bs \<le> 2 ^ 20" using bs(1) by (simp add: heap_inv_def)
  ultimately show ?thesis
    using live_apart [OF nk(2,4)] nk apart_mono by blast
qed

lemma live_kept:
  assumes "\<forall>(p, r) \<in> A. \<exists>n. r \<le> n \<and> (p, n) \<in> live 0 bs" "span bs \<le> 2 ^ 20"
    and "\<And>x. no_header 0 bs x \<Longrightarrow> m' x = m x"
  shows "kept A m m'"
  unfolding kept_def
proof clarify
  fix q k i assume "(q, k) \<in> A" "i < k"
  then obtain n where "k \<le> n" "(q, n) \<in> live 0 bs" using assms(1) by blast
  with assms(2,3) live_no_header [of q n 0 bs i] \<open>i < k\<close> show "m' (q + of_nat i) = m (q + of_nat i)" by simp
qed

lemma heap_owns_write:
  assumes "heap_owns h m A" "\<And>x. m' x \<noteq> m x \<Longrightarrow> \<exists>(p, n) \<in> A. \<not> outside p n x"
  shows "heap_owns h m' A"
proof -
  obtain bs where bs: "heap_inv h m bs" "\<forall>(p, r) \<in> A. \<exists>n. r \<le> n \<and> (p, n) \<in> live 0 bs"
    using assms(1) by (auto simp: heap_owns_def)
  then have bound: "0 + span bs \<le> 2 ^ 20" by (simp add: heap_inv_def)
  have "m x = m' x" if "\<not> no_header 0 bs x" for x
  proof (rule ccontr)
    assume "m x \<noteq> m' x"
    then obtain p r where pr: "(p, r) \<in> A" "\<not> outside p r x" using assms(2) [of x] by auto
    then obtain n where n: "r \<le> n" "(p, n) \<in> live 0 bs" using bs(2) by blast
    have "x = p + of_nat (unat (x - p))" by simp
    moreover have "unat (x - p) < n" using pr n by (simp add: outside_def)
    ultimately have "no_header 0 bs x" using live_no_header [OF n(2) _ bound] by metis
    with that show False by simp
  qed
  then have "heap_inv h m' bs"
    using bs(1) heap_seg_headers [of 0 bs m m' 0] bound by (simp add: heap_inv_def)
  with bs(2) assms(1) show ?thesis unfolding heap_owns_def by blast
qed

lemma live_carve: "fits n b \<Longrightarrow> \<exists>k \<ge> n. live off (carve n b) = {(hp (off + 24), k)}"
  by (cases "n + 40 < fst b") (auto simp: carve_def fits_def)

text \<open>The block taken is new, and the blocks in use lie outside it.\<close>

lemma alloc_live:
  assumes b: "fits n b" and bound: "span (pre @ b # post) \<le> 2 ^ 20"
  shows "\<exists>k \<ge> n. live 0 (pre @ carve n b @ post) = insert (hp (span pre + 24), k) (live 0 (pre @ b # post))"
    and "(q, k) \<in> live 0 (pre @ b # post) \<Longrightarrow> q \<noteq> hp (span pre + 24)"
    and "(q, k) \<in> live 0 (pre @ b # post) \<Longrightarrow> i < k \<Longrightarrow>
      outside (hp (span pre)) (24 + fst b) (q + of_nat i)"
proof -
  have sp: "span (carve n b) = 24 + fst b" "snd b" using b by (auto simp: fits_def span_carve)
  show "\<exists>k \<ge> n. live 0 (pre @ carve n b @ post) = insert (hp (span pre + 24), k) (live 0 (pre @ b # post))"
    using live_carve [OF b, of "span pre"] sp by (auto simp: live_append add.assoc)
  have pos: "\<exists>j. q = hp j \<and> (24 \<le> j \<and> j + k \<le> span pre \<or> span pre + 24 + fst b + 24 \<le> j
      \<and> j + k \<le> span (pre @ b # post))" if "(q, k) \<in> live 0 (pre @ b # post)"
    using that sp live_bounds [of q k 0 pre] live_bounds [of q k "span pre + 24 + fst b" post]
    by (fastforce simp: live_append)
  show "q \<noteq> hp (span pre + 24)" if "(q, k) \<in> live 0 (pre @ b # post)"
    using pos [OF that] bound hp_inj [of _ "span pre + 24"] by fastforce
  show "outside (hp (span pre)) (24 + fst b) (q + of_nat i)"
    if "(q, k) \<in> live 0 (pre @ b # post)" "i < k"
  proof -
    from pos [OF that(1)] obtain j where "q = hp j"
      "24 \<le> j \<and> j + k \<le> span pre \<or> span pre + 24 + fst b + 24 \<le> j \<and> j + k \<le> span (pre @ b # post)"
      by blast
    with that(2) bound show ?thesis by (auto intro!: hp_outside_hp)
  qed
qed

lemma round8_unat: "unat ((x :: u64) AND NOT 7) = unat x - unat x mod 8"
proof -
  have "(7 :: u64) = mask 3" by (simp add: mask_eq_exp_minus_1)
  then have "x AND NOT 7 = push_bit 3 (drop_bit 3 x)" by (auto simp: bit_eq_iff bit_simps)
  also have "\<dots> = x - take_bit 3 x" using bits_ident [of 3 x] by (simp add: algebra_simps)
  finally have eq: "x AND NOT 7 = x - take_bit 3 x" .
  have "unat (take_bit 3 x) = unat x mod 8"
    by (subst unsigned_take_bit_eq) (simp add: take_bit_eq_mod)
  then show ?thesis unfolding eq by (subst unat_sub) (simp_all add: word_le_nat_alt)
qed

lemma round8_ge:
  assumes "unat (r :: u64) + 7 < 2 ^ 64"
  shows "unat r \<le> unat ((r + 7) AND NOT 7)"
proof -
  have "unat (r + 7) = unat r + 7" using unat_add_of_nat [of 7 r] assms by simp
  moreover have "unat (r + 7) mod 8 \<le> 7" using mod_less_divisor [of 8 "unat (r + 7)"] by linarith
  ultimately show ?thesis using round8_unat [of "r + 7"] by linarith
qed

lemma kmalloc_owns:
  assumes owns: "heap_owns h m A" and r: "r \<noteq> 0" "unat r + 7 < 2 ^ 64"
  shows "\<exists>p m'. kmalloc r h m = Some (p, m') \<and> (p = 0 \<and> m' = m
     \<or> p \<noteq> 0 \<and> (\<forall>k. (p, k) \<notin> A) \<and> heap_owns h m' (insert (p, unat r) A) \<and> kept A m m')"
proof -
  let ?n = "unat ((r + 7) AND NOT 7)"
  obtain bs where bs: "heap_inv h m bs" "\<forall>(p, r) \<in> A. \<exists>n. r \<le> n \<and> (p, n) \<in> live 0 bs"
    using owns by (auto simp: heap_owns_def)
  show ?thesis
  proof (cases "alloc_blocks ?n bs")
    case None
    with kmalloc_refines(1) [OF bs(1) r(1) refl] show ?thesis by blast
  next
    case (Some res)
    obtain off bs' where "res = (off, bs')" by force
    with Some kmalloc_refines(2) [OF bs(1) r(1) refl] obtain m' pre b post
      where m': "kmalloc r h m = Some (hp off, m')" "heap_inv h m' bs'" "bs = pre @ b # post"
        "fits ?n b" "off = span pre + 24" "bs' = pre @ carve ?n b @ post"
        "\<forall>x. outside (hp (span pre)) (24 + fst b) x \<longrightarrow> m' x = m x" by blast
    have bound: "span (pre @ b # post) \<le> 2 ^ 20" using bs(1) m'(3) by (simp add: heap_inv_def)
    obtain k where k: "?n \<le> k" "live 0 bs' = insert (hp off, k) (live 0 bs)"
      using alloc_live(1) [OF m'(4) bound] m'(3,5,6) by auto
    have new: "(hp off, j) \<notin> A" for j
      using bs(2) alloc_live(2) [OF m'(4) bound] m'(3,5) by blast
    have "unat r \<le> k" using round8_ge [OF r(2)] k(1) by linarith
    then have "\<forall>(p, r) \<in> insert (hp off, unat r) A. \<exists>n. r \<le> n \<and> (p, n) \<in> live 0 bs'"
      using bs(2) k(2) by fastforce
    then have "heap_owns h m' (insert (hp off, unat r) A)"
      using m'(2) owns new unfolding heap_owns_def by blast
    moreover have "kept A m m'"
      unfolding kept_def
    proof clarify
      fix q j i assume "(q, j) \<in> A" "i < j"
      then obtain l where "j \<le> l" "(q, l) \<in> live 0 bs" using bs(2) by blast
      with \<open>i < j\<close> alloc_live(3) [OF m'(4) bound, of q l i] m'(3,7)
      show "m' (q + of_nat i) = m (q + of_nat i)" by simp
    qed
    moreover have "hp off \<noteq> 0" using bound m'(5) by (intro hp_nonzero) simp
    ultimately show ?thesis using m'(1) new by blast
  qed
qed

lemma kfree_owns:
  assumes owns: "heap_owns h m A" and p: "(p, r) \<in> A"
  shows "\<exists>m'. kfree p h m = Some m' \<and> heap_owns h m' (A - {(p, r)}) \<and> kept (A - {(p, r)}) m m'"
proof -
  obtain bs where bs: "heap_inv h m bs" "\<forall>(p, r) \<in> A. \<exists>n. r \<le> n \<and> (p, n) \<in> live 0 bs"
    using owns by (auto simp: heap_owns_def)
  then obtain n where n: "r \<le> n" "(p, n) \<in> live 0 bs" using p by blast
  then obtain pre post where split: "bs = pre @ (n, False) # post" "p = hp (span pre + 24)"
    using live_split [OF n(2)] by auto
  let ?bs' = "pre @ (n, True) # post"
  obtain m' where m': "kfree p h m = Some m'" "heap_inv h m' (merge_pass ?bs')"
    "\<forall>x. no_header 0 bs x \<longrightarrow> m' x = m x"
    using kfree_refines [of h m pre n False post] bs(1) split by auto
  have bound: "span bs \<le> 2 ^ 20" using bs(1) by (simp add: heap_inv_def)
  have lv: "live 0 bs = insert (p, n) (live 0 ?bs')" by (auto simp: split live_append)
  have "\<exists>k. s \<le> k \<and> (q, k) \<in> live 0 (merge_pass ?bs')" if "(q, s) \<in> A - {(p, r)}" for q s
  proof -
    have "q \<noteq> p" using that p owns by (auto simp: heap_owns_def)
    then show ?thesis using that bs(2) lv by (auto simp: live_merge)
  qed
  then have "heap_owns h m' (A - {(p, r)})"
    using m'(2) owns unfolding heap_owns_def by blast
  moreover have "kept (A - {(p, r)}) m m'"
    using bs(2) bound m'(3) by (intro live_kept [of _ bs]) auto
  ultimately show ?thesis using m'(1) by blast
qed

interpretation kheap: heap_interface "\<lambda>r. kmalloc r h" "\<lambda>p. kfree p h" "heap_owns h"
  by unfold_locales
    (fact heap_owns_apart kmalloc_owns kfree_owns heap_owns_write)+

section \<open>Initialisation\<close>

lemma hp_vpage:
  assumes "i < 256" "d < 4096"
  shows "vpage (hp (4096 * i + d)) = of_nat (0xFFFF81000 + i)" "hp (4096 * i + d) AND 0xFFF = of_nat d"
proof -
  have "unat (hp (4096 * i + d)) = 4096 * (65535 * 2 ^ 36 + (0xFFFF81000 + i)) + d"
    using assms by (subst unat_hp) simp_all
  from vpage_unat [OF this] assms
  show "vpage (hp (4096 * i + d)) = of_nat (0xFFFF81000 + i)" "hp (4096 * i + d) AND 0xFFF = of_nat d"
    by simp_all
qed

lemma hp_vpage_inj:
  assumes "i < 256" "j < 256"
  shows "vpage (hp (4096 * i)) = vpage (hp (4096 * j)) \<longleftrightarrow> i = j"
proof -
  have "unat (of_nat (0xFFFF81000 + k) :: u64) = 0xFFFF81000 + k" if "k < 256" for k
    using that by (intro unat_of_nat_u64) simp
  then show ?thesis
    using hp_vpage(1) [of i 0] hp_vpage(1) [of j 0] assms by (metis add_0_right add_left_cancel
        zero_less_numeral)
qed

lemma pt_inv_alloc:
  assumes "pt_inv s (p # ps)"
  obtains s' where "pmm_alloc s = (p, s')" "pt_inv s' ps" "pmm_hhdm s' = pmm_hhdm s"
    "\<And>w. large_free s' w = large_free s w"
    "\<And>h w. vmm_virt_to_phys h w s' = vmm_virt_to_phys h w s"
    "page_aligned p" "p < 2 ^ 52" "p \<noteq> 0" "p \<notin> set ps" "distinct ps"
proof -
  have inv: "pmm_inv s (p # ps)" using assms by (simp add: pt_inv_def)
  obtain s' where s': "pmm_alloc s = (p, s')" "pmm_inv s' ps" "mem s' = mem s"
    "pmm_hhdm s' = pmm_hhdm s" "cr3 s' = cr3 s"
    using pmm_alloc_Cons [OF inv] by blast
  have "pt_inv s' ps" using assms s' by (auto simp: pt_inv_def)
  moreover have "distinct ps" "page_aligned p" "p \<noteq> 0" "p \<notin> set ps" "p < 2 ^ 52"
    using assms by (auto simp: pt_inv_def pmm_inv_def frame_list_def)
  ultimately show ?thesis
    using s' by (intro that [of s']) (auto simp: large_free_def vmm_virt_to_phys_xlat)
qed

lemma heap_map_pages_ok:
  assumes "pt_inv s ps" "h = pmm_hhdm s" "4 * k \<le> length ps" "i + k \<le> 256"
    and "\<And>j. j < k \<Longrightarrow> large_free s (hp (4096 * (i + j)))"
  shows "\<exists>s' n phs. heap_map_pages h i k s = (True, s') \<and> pt_inv s' (drop n ps) \<and> n \<le> 4 * k
     \<and> length phs = k \<and> distinct phs \<and> set phs \<subseteq> set (take n ps)
     \<and> (\<forall>j<k. \<forall>w. vpage w = vpage (hp (4096 * (i + j))) \<longrightarrow>
          vmm_virt_to_phys h w s' = phs ! j + (w AND 0xFFF))
     \<and> (\<forall>w. (\<forall>j<k. vpage w \<noteq> vpage (hp (4096 * (i + j)))) \<longrightarrow>
          vmm_virt_to_phys h w s' = vmm_virt_to_phys h w s)"
  using assms
proof (induction k arbitrary: i s ps)
  case 0
  then show ?case by (intro exI [of _ s] exI [of _ 0] exI [of _ "[]"]) simp
next
  case (Suc k)
  then obtain p qs where ps: "ps = p # qs" by (cases ps) auto
  obtain s1 where s1: "pmm_alloc s = (p, s1)" "pt_inv s1 qs" "pmm_hhdm s1 = pmm_hhdm s"
    "\<And>w. large_free s1 w = large_free s w"
    "\<And>h w. vmm_virt_to_phys h w s1 = vmm_virt_to_phys h w s"
    "page_aligned p" "p < 2 ^ 52" "p \<noteq> 0" "p \<notin> set qs" "distinct qs"
    using pt_inv_alloc [OF Suc.prems(1) [unfolded ps]] by metis
  let ?s2 = "vmm_map_page h (hp (4096 * i)) p 0x23 s1"
  have lf: "large_free s1 (hp (4096 * i))" using s1(4) Suc.prems(5) [of 0] by simp
  obtain n where n: "n \<le> 3" "pt_inv ?s2 (drop n qs)" "pmm_hhdm ?s2 = h"
    "\<And>w. large_free s1 w \<Longrightarrow> large_free ?s2 w"
    "\<And>w. vmm_virt_to_phys h w ?s2 =
       (if vpage w = vpage (hp (4096 * i)) then p + (w AND 0xFFF) else vmm_virt_to_phys h w s1)"
    using vmm_map_page_ok [OF s1(2) _ _ lf s1(6,7), of h "0x23"] Suc.prems(2,3) s1(3) ps by auto
  have "\<exists>s' n' phs. heap_map_pages h (Suc i) k ?s2 = (True, s') \<and> pt_inv s' (drop n' (drop n qs))
     \<and> n' \<le> 4 * k \<and> length phs = k \<and> distinct phs \<and> set phs \<subseteq> set (take n' (drop n qs))
     \<and> (\<forall>j<k. \<forall>w. vpage w = vpage (hp (4096 * (Suc i + j))) \<longrightarrow>
          vmm_virt_to_phys h w s' = phs ! j + (w AND 0xFFF))
     \<and> (\<forall>w. (\<forall>j<k. vpage w \<noteq> vpage (hp (4096 * (Suc i + j)))) \<longrightarrow>
          vmm_virt_to_phys h w s' = vmm_virt_to_phys h w ?s2)"
  proof (rule Suc.IH [OF n(2)])
    show "large_free ?s2 (hp (4096 * (Suc i + j)))" if "j < k" for j
      using n(4) s1(4) Suc.prems(5) [of "Suc j"] that by simp
  qed (use n Suc.prems ps in auto)
  then obtain s' n' phs where r: "heap_map_pages h (Suc i) k ?s2 = (True, s')"
    "pt_inv s' (drop n' (drop n qs))" "n' \<le> 4 * k" "length phs = k" "distinct phs"
    "set phs \<subseteq> set (take n' (drop n qs))"
    "\<forall>j<k. \<forall>w. vpage w = vpage (hp (4096 * (Suc i + j))) \<longrightarrow>
      vmm_virt_to_phys h w s' = phs ! j + (w AND 0xFFF)"
    "\<forall>w. (\<forall>j<k. vpage w \<noteq> vpage (hp (4096 * (Suc i + j)))) \<longrightarrow>
      vmm_virt_to_phys h w s' = vmm_virt_to_phys h w ?s2" by blast
  have step: "heap_map_pages h i (Suc k) s = (True, s')"
    using s1(1,8) r(1) by (simp add: hp_def mult.commute)
  have sub: "set phs \<subseteq> set (take (n' + n) qs)"
    using r(6) by (auto simp: take_drop add.commute dest: in_set_dropD)
  then have "p \<notin> set phs" using s1(9) by (auto dest: in_set_takeD)
  moreover have sub': "set (p # phs) \<subseteq> set (take (Suc (n' + n)) ps)" using sub ps by auto
  moreover have "vmm_virt_to_phys h w s' = (p # phs) ! j + (w AND 0xFFF)"
    if "j < Suc k" "vpage w = vpage (hp (4096 * (i + j)))" for j w
  proof (cases j)
    case 0
    have "vpage w \<noteq> vpage (hp (4096 * (Suc i + j')))" if "j' < k" for j'
      using \<open>vpage w = _\<close> hp_vpage_inj [of i "Suc i + j'"] Suc.prems(4) 0 that by simp
    with r(8) n(5) that 0 show ?thesis by simp
  next
    case (Suc j')
    with that r(7) show ?thesis by simp
  qed
  moreover have "vmm_virt_to_phys h w s' = vmm_virt_to_phys h w s"
    if "\<forall>j<Suc k. vpage w \<noteq> vpage (hp (4096 * (i + j)))" for w
  proof -
    have "vpage w \<noteq> vpage (hp (4096 * i))" using that by (metis add_0_right zero_less_Suc)
    moreover have "vpage w \<noteq> vpage (hp (4096 * (Suc i + j)))" if "j < k" for j
      using that \<open>\<forall>j<Suc k. _\<close> by (metis Suc_less_eq add_Suc_shift)
    ultimately show ?thesis using r(8) n(5) s1(5) by simp
  qed
  ultimately show ?case
    using step r(2-5) n(1) ps
    by (intro exI [of _ s'] exI [of _ "Suc (n' + n)"] exI [of _ "p # phs"]) (simp add: add.commute)
qed

text \<open>The one block that \<open>heap_init\<close> writes.\<close>

definition fresh_heap :: "memory \<Rightarrow> memory" where
  "fresh_heap m = store32 (store64 (store64 m heap_virt 0xFFFE8) (heap_virt + 8) 0) (heap_virt + 16) 1"

lemma fresh_heap_inv: "heap_head h = heap_virt \<Longrightarrow> heap_inv h (fresh_heap m) [(0xFFFE8, True)]"
  unfolding heap_inv_def fresh_heap_def hp_0 [symmetric]
  by (simp add: blk_at_def blk_size_def blk_next_def blk_free_def mem_simps hp_apart
      del: hp_0)

lemma fresh_heap_outside:
  assumes "outside heap_virt 24 x"
  shows "fresh_heap m x = m x"
proof -
  have "outside (hp 0) 24 x" using assms by simp
  then have "outside (hp (0 + 0)) 8 x" "outside (hp (0 + 8)) 8 x" "outside (hp (0 + 16)) 4 x"
    by (rule hp_outside; simp)+
  then show ?thesis by (simp add: fresh_heap_def store64_outside store32_outside hp_def)
qed

lemma heap_init_result:
  assumes "heap_map_pages hhdm 0 256 s = (True, s1)"
  shows "heap_init hhdm h s = (h\<lparr>heap_head := heap_virt\<rparr>, s1\<lparr>mem := fresh_heap (mem s1)\<rparr>)"
  using assms by (simp add: heap_init_def HEAP_PAGES_def fresh_heap_def sizeof_block_def)

lemma span_dvd: "\<forall>b \<in> set bs. 8 dvd fst b \<Longrightarrow> 8 dvd span bs"
  by (induction bs) (auto intro!: dvd_add)

section \<open>Properties\<close>

text \<open>C21: \<open>heap_init\<close>, with four free frames per heap page and no large page in the way, maps each of the
  256 pages of the heap to a frame of its own taken from the allocator (every address of the heap
  translates to its offset in that frame) and sets up a heap of one free block over the whole
  megabyte, writing nothing but that block's header after the mapping.\<close>

theorem heap_init_correct:
  assumes "pt_inv s ps" "1024 \<le> length ps" "\<And>i. i < 256 \<Longrightarrow> large_free s (hp (4096 * i))"
  shows "\<exists>s1 h' s' phs. heap_map_pages (pmm_hhdm s) 0 HEAP_PAGES s = (True, s1)
     \<and> heap_init (pmm_hhdm s) h s = (h', s')
     \<and> length phs = 256 \<and> distinct phs \<and> set phs \<subseteq> set ps
     \<and> (\<forall>i<256. \<forall>d<4096. vmm_virt_to_phys (pmm_hhdm s) (hp (4096 * i + d)) s1 = phs ! i + of_nat d)
     \<and> heap_inv h' (mem s') [(0xFFFE8, True)]
     \<and> (\<forall>x. outside heap_virt 24 x \<longrightarrow> mem s' x = mem s1 x)"
proof -
  have "4 * 256 \<le> length ps" "\<And>j. j < 256 \<Longrightarrow> large_free s (hp (4096 * (0 + j)))"
    using assms(2,3) by simp_all
  then obtain s1 n phs where r: "heap_map_pages (pmm_hhdm s) 0 256 s = (True, s1)"
    "length phs = 256" "distinct phs" "set phs \<subseteq> set (take n ps)"
    "\<forall>j<256. \<forall>w. vpage w = vpage (hp (4096 * (0 + j))) \<longrightarrow>
      vmm_virt_to_phys (pmm_hhdm s) w s1 = phs ! j + (w AND 0xFFF)"
    using heap_map_pages_ok [OF assms(1) refl, of 256 0] by auto
  have "vmm_virt_to_phys (pmm_hhdm s) (hp (4096 * i + d)) s1 = phs ! i + of_nat d"
    if "i < 256" "d < 4096" for i d
    using r(5) that hp_vpage [OF that] hp_vpage(1) [OF that(1), of 0] by simp
  moreover have "set phs \<subseteq> set ps" using r(4) set_take_subset by fastforce
  ultimately show ?thesis
    using r(1-3) heap_init_result [OF r(1), of h] fresh_heap_inv [of "h\<lparr>heap_head := heap_virt\<rparr>"]
    by (auto simp: HEAP_PAGES_def fresh_heap_outside)
qed

text \<open>C19: \<open>kmalloc\<close> returns on every well-formed heap and is first fit with splitting: the block it takes
  is the first free one of sufficient size (the request rounded up to a multiple of 8), a remainder
  of more than 40 bytes becomes a free block of its own, and with no such block the result is the
  null pointer and nothing changes. The heap stays well formed, the pointer is a multiple of 8, and
  only the block taken is written to.\<close>

theorem kmalloc_first_fit:
  assumes "heap_inv h m bs" "req \<noteq> 0"
  defines "n \<equiv> unat ((req + 7) AND NOT 7)"
  shows "case alloc_blocks n bs of
       None \<Rightarrow> (\<forall>b \<in> set bs. \<not> fits n b) \<and> kmalloc req h m = Some (0, m)
     | Some (off, bs') \<Rightarrow> \<exists>m' pre b post. kmalloc req h m = Some (hp off, m') \<and> heap_inv h m' bs'
         \<and> bs = pre @ b # post \<and> (\<forall>c \<in> set pre. \<not> fits n c) \<and> fits n b
         \<and> bs' = pre @ carve n b @ post \<and> off = span pre + 24 \<and> 8 dvd off
         \<and> (\<forall>x. outside (hp (span pre)) (24 + fst b) x \<longrightarrow> m' x = m x)"
proof (cases "alloc_blocks n bs")
  case None
  then show ?thesis
    using kmalloc_refines(1) [OF assms(1,2) n_def [THEN meta_eq_to_obj_eq]] alloc_blocks_None [of n bs]
    by simp
next
  case (Some res)
  obtain off bs' where res: "res = (off, bs')" by force
  with Some obtain m' pre b post where "kmalloc req h m = Some (hp off, m')" "heap_inv h m' bs'"
    "bs = pre @ b # post" "\<forall>c \<in> set pre. \<not> fits n c" "fits n b" "off = span pre + 24"
    "bs' = pre @ carve n b @ post" "\<forall>x. outside (hp (span pre)) (24 + fst b) x \<longrightarrow> m' x = m x"
    using kmalloc_refines(2) [OF assms(1,2) n_def [THEN meta_eq_to_obj_eq]] by blast
  moreover from this have "8 dvd off"
    using assms(1) span_dvd [of pre] by (simp add: heap_inv_def)
  ultimately show ?thesis unfolding Some res option.case prod.case by blast
qed

text \<open>C20: \<open>kfree\<close> on a pointer to a block returns on every well-formed heap; the block becomes free and
  one pass merges neighbouring free blocks pairwise, which leaves exactly the other blocks in use;
  no byte outside the block headers changes.\<close>

theorem kfree_merges:
  assumes "heap_inv h m (pre @ (sz, False) # post)"
  shows "\<exists>m' bs'. kfree (hp (span pre + 24)) h m = Some m' \<and> heap_inv h m' bs'
     \<and> bs' = merge_pass (pre @ (sz, True) # post)
     \<and> live 0 bs' = live 0 (pre @ (sz, False) # post) - {(hp (span pre + 24), sz)}
     \<and> (\<forall>x. no_header 0 (pre @ (sz, False) # post) x \<longrightarrow> m' x = m x)"
proof -
  have "span (pre @ (sz, True) # post) \<le> 2 ^ 20" using assms by (simp add: heap_inv_def)
  then have "(hp (span pre + 24), sz) \<notin> live 0 (pre @ (sz, True) # post)"
    using alloc_live(2) [of sz "(sz, True)" pre post] by (auto simp: fits_def)
  then have "live 0 (merge_pass (pre @ (sz, True) # post))
      = live 0 (pre @ (sz, False) # post) - {(hp (span pre + 24), sz)}"
    by (auto simp: live_merge live_append)
  with kfree_refines [OF assms] show ?thesis by blast
qed

text \<open>C3: along every run of a client that starts with an empty-handed client on a well-formed heap,
  requests blocks, releases blocks it holds and writes into blocks it holds: the blocks it holds
  never overlap, and every request (below the sizes whose rounding overflows) and every release
  returns and leaves every byte of every other block the client holds as it was.\<close>

theorem heap_no_overlap:
  assumes "heap_inv h m bs"
    and "(heap_run (\<lambda>r. kmalloc r h) (\<lambda>p. kfree p h))\<^sup>*\<^sup>* (m, {}) (m1, A)"
  shows "pairwise (\<lambda>(p, n) (q, k). apart p n q k \<and> p \<noteq> q) A
     \<and> (\<forall>r. r \<noteq> 0 \<and> unat r + 7 < 2 ^ 64 \<longrightarrow> (\<exists>p m'. kmalloc r h m1 = Some (p, m') \<and> kept A m1 m'))
     \<and> (\<forall>(p, n) \<in> A. \<exists>m'. kfree p h m1 = Some m' \<and> kept (A - {(p, n)}) m1 m')"
proof -
  have "heap_owns h (fst (m, {})) (snd (m, {}))" using assms(1) by (auto simp: heap_owns_def)
  from kheap.run_result [OF assms(2) this] show ?thesis by blast
qed

text \<open>C34: a request so large that rounding it up wraps around is not refused: \<open>kmalloc\<close> looks for a block
  of 0 bytes and hands out the first free block there is, however small.\<close>

theorem kmalloc_overflow:
  assumes "heap_inv h m (pre @ (sz, True) # post)" "\<forall>b \<in> set pre. \<not> snd b" "2 ^ 64 \<le> unat req + 7"
  shows "\<exists>m'. kmalloc req h m = Some (hp (span pre + 24), m')
     \<and> heap_inv h m' (pre @ carve 0 (sz, True) @ post) \<and> sz < unat req"
proof -
  have "unat (req + 7) = (unat req + 7) mod 2 ^ 64" using unat_add_of_nat [of 7 req] by simp
  also have "\<dots> = unat req + 7 - 2 ^ 64"
    using assms(3) unat_u64_less(1) [of req] by (simp add: mod_if)
  finally have "unat (req + 7) < 8" using unat_u64_less(1) [of req] by simp
  then have n: "0 = unat ((req + 7) AND NOT 7)" by (simp only: round8_unat mod_less diff_self_eq_0)
  have req: "req \<noteq> 0" using assms(3) by auto
  have al: "alloc_blocks 0 (pre @ (sz, True) # post)
      = Some (span pre + 24, pre @ carve 0 (sz, True) @ post)"
    using assms(2) by (simp add: alloc_blocks_def fits_def dropWhile_append3 takeWhile_append2)
  have "sz < 2 ^ 20" using assms(1) by (simp add: heap_inv_def)
  then have "sz < unat req" using assms(3) by simp
  with kmalloc_refines(2) [OF assms(1) req n al] show ?thesis by blast
qed

text \<open>One merging pass is not enough. When the block between two free blocks is released, it is
  merged with the first and the result is left beside the second: with the whole heap free, a
  request that is larger than either part is refused.\<close>

theorem kfree_leaves_neighbours:
  assumes "heap_inv h m [(a, True), (b, False), (c, True)]"
  shows "\<exists>m'. kfree (hp (a + 48)) h m = Some m' \<and> heap_inv h m' [(a + 24 + b, True), (c, True)]
     \<and> (\<forall>req. req \<noteq> 0 \<and> max (a + 24 + b) c < unat ((req + 7) AND NOT 7) \<longrightarrow>
          kmalloc req h m' = Some (0, m'))"
proof -
  have "heap_inv h m ([(a, True)] @ (b, False) # [(c, True)])" using assms by simp
  from kfree_refines [OF this] obtain m' where m': "kfree (hp (a + 48)) h m = Some m'"
    "heap_inv h m' [(a + 24 + b, True), (c, True)]" by (auto simp: add.commute)
  have "kmalloc req h m' = Some (0, m')"
    if "req \<noteq> 0" "max (a + 24 + b) c < unat ((req + 7) AND NOT 7)" for req
    by (rule kmalloc_refines(1) [OF m'(2) that(1) refl])
      (use that(2) in \<open>auto simp: alloc_blocks_None fits_def\<close>)
  with m' show ?thesis by blast
qed

subsection \<open>Instances\<close>

definition heap_example :: heap_state where
  "heap_example = \<lparr>heap_head = heap_virt\<rparr>"

lemma heap_example_inv: "heap_inv heap_example (fresh_heap m) [(0xFFFE8, True)]"
  by (rule fresh_heap_inv) (simp add: heap_example_def)

text \<open>A machine with 1024 free frames and an empty top-level page table.\<close>

definition many_frames :: "u64 list" where
  "many_frames = map (\<lambda>k. of_nat (4096 * (k + 2))) [0 ..< 1024]"

definition heap_machine :: pmm_state where
  "heap_machine = fold (pmm_push 0) many_frames (pmm_boot_state\<lparr>cr3 := 0x1000\<rparr>)"

lemma many_frames_ok:
  "distinct many_frames" "\<forall>p \<in> set many_frames. page_aligned p \<and> p \<noteq> 0 \<and> p < 2 ^ 52 \<and> p \<noteq> 0x1000"
proof -
  have u: "unat (of_nat (4096 * (k + 2)) :: u64) = 4096 * (k + 2)" if "k < 1024" for k
    using that by (intro unat_of_nat_u64) simp
  then have "inj_on (\<lambda>k. of_nat (4096 * (k + 2)) :: u64) {0 ..< 1024}"
    by (intro inj_onI) (metis add_right_cancel atLeastLessThan_iff mult_cancel1 zero_neq_numeral)
  then show "distinct many_frames" by (simp add: many_frames_def distinct_map)
  have "page_aligned p \<and> p \<noteq> 0 \<and> p < 2 ^ 52 \<and> p \<noteq> 0x1000" if "p = of_nat (4096 * (k + 2))" "k < 1024" for p k
    using u [OF that(2)] that unfolding page_aligned_dvd word_less_nat_alt word_unat_eq_iff
    by (simp del: of_nat_mult of_nat_add)
  then show "\<forall>p \<in> set many_frames. page_aligned p \<and> p \<noteq> 0 \<and> p < 2 ^ 52 \<and> p \<noteq> 0x1000"
    by (auto simp: many_frames_def)
qed

lemma heap_machine_inv: "pt_inv heap_machine (rev many_frames) \<and> large_free heap_machine v"
proof -
  have hh: "pmm_hhdm heap_machine = 0" "cr3 heap_machine = 0x1000"
    using fold_push_frame [of 0 many_frames "pmm_boot_state\<lparr>cr3 := 0x1000\<rparr>"]
    by (simp_all add: heap_machine_def pmm_boot_state_def)
  have "pmm_inv heap_machine (rev many_frames @ [])"
    unfolding heap_machine_def using many_frames_ok
    by (intro fold_push_inv) (auto simp: pmm_inv_def pmm_boot_state_def frame_list_def)
  moreover have "mem heap_machine x = 0" if x: "in_frame 0 0x1000 x" for x
  proof -
    have "\<not> in_frame 0 q x" if "q \<in> set many_frames" for q
      using many_frames_ok(2) that x in_frame_unique [of q "0x1000" 0 x] by (auto simp: page_aligned_def)
    then show ?thesis
      using fold_push_frame [of 0 many_frames "pmm_boot_state\<lparr>cr3 := 0x1000\<rparr>" x]
      by (simp add: heap_machine_def pmm_boot_state_def)
  qed
  ultimately show ?thesis
    using fresh_pt_inv [of heap_machine "rev many_frames" v] many_frames_ok(2) hh
    by (auto simp: page_down_def)
qed

theorem heap_init_correct_witness:
  "\<exists>s1 h' s' phs. heap_map_pages (pmm_hhdm heap_machine) 0 HEAP_PAGES heap_machine = (True, s1)
     \<and> heap_init (pmm_hhdm heap_machine) \<lparr>heap_head = 0\<rparr> heap_machine = (h', s')
     \<and> length phs = 256 \<and> distinct phs
     \<and> vmm_virt_to_phys (pmm_hhdm heap_machine) (hp (4096 * 17 + 5)) s1 = phs ! 17 + 5
     \<and> heap_inv h' (mem s') [(0xFFFE8, True)]"
proof -
  have "1024 \<le> length (rev many_frames)" by (simp add: many_frames_def)
  note init = heap_init_correct [OF conjunct1 [OF heap_machine_inv] this conjunct2 [OF heap_machine_inv]]
  obtain s1 h' s' phs
    where "heap_init (pmm_hhdm heap_machine) \<lparr>heap_head = 0\<rparr> heap_machine = (h', s')"
      "heap_map_pages (pmm_hhdm heap_machine) 0 HEAP_PAGES heap_machine = (True, s1)"
      "length phs = 256" "distinct phs"
      "\<forall>i<256. \<forall>d<4096. vmm_virt_to_phys (pmm_hhdm heap_machine) (hp (4096 * i + d)) s1 = phs ! i + of_nat d"
      "heap_inv h' (mem s') [(0xFFFE8, True)]"
    using init [of "\<lparr>heap_head = 0\<rparr>"] by blast
  moreover from this(5) [rule_format, of 17 5] have
    "vmm_virt_to_phys (pmm_hhdm heap_machine) (hp (4096 * 17 + 5)) s1 = phs ! 17 + 5" by simp
  ultimately show ?thesis by auto
qed

theorem kmalloc_first_fit_witness:
  "\<exists>m'. kmalloc 100 heap_example (fresh_heap (\<lambda>_. 0)) = Some (hp 24, m')
     \<and> heap_inv heap_example m' [(104, False), (0xFFFE8 - 128, True)]"
  using kmalloc_first_fit [OF heap_example_inv, of 100 "\<lambda>_. 0"]
  by (auto simp: alloc_blocks_def fits_def carve_def)

lemma heap_example_two:
  obtains m where "heap_inv heap_example m [(64, False), (64, False), (0xFFFE8 - 176, True)]"
proof -
  have n: "64 = unat (((64::u64) + 7) AND NOT 7)" and z: "(64::u64) \<noteq> 0" by simp_all
  have a1: "alloc_blocks 64 [(0xFFFE8, True)] = Some (24, [(64, False), (0xFFFE8 - 88, True)])"
    and a2: "alloc_blocks 64 [(64, False), (0xFFFE8 - 88, True)]
      = Some (112, [(64, False), (64, False), (0xFFFE8 - 176, True)])"
    by (simp_all add: alloc_blocks_def fits_def carve_def)
  obtain m1 where m1: "heap_inv heap_example m1 [(64, False), (0xFFFE8 - 88, True)]"
    using kmalloc_refines(2) [OF heap_example_inv z n a1] by blast
  obtain m2 where "heap_inv heap_example m2 [(64, False), (64, False), (0xFFFE8 - 176, True)]"
    using kmalloc_refines(2) [OF m1 z n a2] by blast
  then show ?thesis by (rule that)
qed

theorem kfree_merges_witness:
  "\<exists>m m'. heap_inv heap_example m [(64, False), (64, False), (0xFFFE8 - 176, True)]
     \<and> kfree (hp 112) heap_example m = Some m'
     \<and> heap_inv heap_example m' [(64, False), (0xFFFE8 - 88, True)]"
proof -
  obtain m where m: "heap_inv heap_example m [(64, False), (64, False), (0xFFFE8 - 176, True)]"
    by (rule heap_example_two)
  then have "heap_inv heap_example m ([(64, False)] @ (64, False) # [(0xFFFE8 - 176, True)])" by simp
  from kfree_merges [OF this] obtain m' where "kfree (hp 112) heap_example m = Some m'"
    "heap_inv heap_example m' [(64, False), (0xFFFE8 - 88, True)]" by auto
  with m show ?thesis by blast
qed

theorem heap_no_overlap_witness:
  "\<exists>m1. (heap_run (\<lambda>r. kmalloc r heap_example) (\<lambda>p. kfree p heap_example))\<^sup>*\<^sup>*
       (fresh_heap (\<lambda>_. 0), {}) (m1, {(hp 24, 100)})
     \<and> (\<exists>m'. kfree (hp 24) heap_example m1 = Some m')"
proof -
  have n: "104 = unat (((100::u64) + 7) AND NOT 7)" and z: "(100::u64) \<noteq> 0" by simp_all
  have a: "alloc_blocks 104 [(0xFFFE8, True)] = Some (24, [(104, False), (0xFFFE8 - 128, True)])"
    by (simp add: alloc_blocks_def fits_def carve_def)
  obtain m1 where m1: "kmalloc 100 heap_example (fresh_heap (\<lambda>_. 0)) = Some (hp 24, m1)"
    using kmalloc_refines(2) [OF heap_example_inv z n a] by blast
  have "hp 24 \<noteq> 0" by (rule hp_nonzero) simp
  with m1 have "heap_run (\<lambda>r. kmalloc r heap_example) (\<lambda>p. kfree p heap_example)
      (fresh_heap (\<lambda>_. 0), {}) (m1, {(hp 24, unat (100::u64))})"
    by (intro heap_run.run_malloc) auto
  then have "(heap_run (\<lambda>r. kmalloc r heap_example) (\<lambda>p. kfree p heap_example))\<^sup>*\<^sup>*
      (fresh_heap (\<lambda>_. 0), {}) (m1, {(hp 24, 100)})" by simp
  with heap_no_overlap [OF heap_example_inv this] show ?thesis by auto
qed

theorem kmalloc_overflow_witness:
  "\<exists>m'. kmalloc 0xFFFFFFFFFFFFFFFF heap_example (fresh_heap (\<lambda>_. 0)) = Some (hp 24, m')
     \<and> heap_inv heap_example m' [(0, False), (0xFFFE8 - 24, True)]"
  using kmalloc_overflow [of heap_example "fresh_heap (\<lambda>_. 0)" "[]" "0xFFFE8" "[]" "0xFFFFFFFFFFFFFFFF"]
    heap_example_inv
  by (auto simp: carve_def)

theorem kfree_leaves_neighbours_witness:
  "\<exists>m m'. heap_inv heap_example m [(64, True), (64, False), (0xFFFE8 - 176, True)]
     \<and> kfree (hp 112) heap_example m = Some m' \<and> kmalloc 0xFFFE8 heap_example m' = Some (0, m')"
proof -
  obtain m where m: "heap_inv heap_example m [(64, False), (64, False), (0xFFFE8 - 176, True)]"
    by (rule heap_example_two)
  then have "heap_inv heap_example m ([] @ (64, False) # [(64, False), (0xFFFE8 - 176, True)])" by simp
  from kfree_refines [OF this] obtain m1
    where m1: "heap_inv heap_example m1 [(64, True), (64, False), (0xFFFE8 - 176, True)]" by auto
  obtain m' where "kfree (hp (64 + 48)) heap_example m1 = Some m'"
    "\<forall>req. req \<noteq> 0 \<and> max (64 + 24 + 64) (0xFFFE8 - 176) < unat ((req + 7) AND NOT 7) \<longrightarrow>
      kmalloc req heap_example m' = Some (0, m')"
    using kfree_leaves_neighbours [OF m1] by blast
  moreover from this(2) [rule_format, of "0xFFFE8"]
  have "kmalloc 0xFFFE8 heap_example m' = Some (0, m')" by simp
  ultimately show ?thesis using m1 by auto
qed

end
