(* ===== verification/Scheduler.thy ===== *)
theory Scheduler
  imports Pmm CString
begin

text \<open>
  \<open>src/kernel/sched/scheduler.c\<close> and \<open>scheduler.h\<close>: the preemptive round-robin scheduler. A fixed table
  of 64 tasks, each with the stack pointer saved when it was last interrupted; the timer interrupt
  calls \<open>scheduler_tick\<close> with the interrupted stack pointer and switches to the stack pointer it
  returns, 0 meaning no switch.

  \<open>sched_inv\<close> is the invariant: the current task is the one and only running task. The theory shows
  that every operation keeps it, that a tick selects the next ready task in cyclic order and
  returns the very stack pointer that task was interrupted with, that every ready task runs after
  at most 63 ticks, and what \<open>task_exit\<close> really achieves.
\<close>

section \<open>State\<close>

datatype task_state_t = TASK_READY | TASK_RUNNING | TASK_BLOCKED | TASK_TERMINATED

primrec task_state_code :: "task_state_t \<Rightarrow> nat" where
  "task_state_code TASK_READY = 0"
| "task_state_code TASK_RUNNING = 1"
| "task_state_code TASK_BLOCKED = 2"
| "task_state_code TASK_TERMINATED = 3"

lemma task_state_code_inject [simp]: "task_state_code x = task_state_code y \<longleftrightarrow> x = y"
  by (cases x; cases y) simp_all

text \<open>The enumeration is ordered by the values C gives it.\<close>

instantiation task_state_t :: linorder
begin

definition less_eq_task_state_t :: "task_state_t \<Rightarrow> task_state_t \<Rightarrow> bool" where
  "less_eq_task_state_t x y \<longleftrightarrow> task_state_code x \<le> task_state_code y"

definition less_task_state_t :: "task_state_t \<Rightarrow> task_state_t \<Rightarrow> bool" where
  "less_task_state_t x y \<longleftrightarrow> task_state_code x < task_state_code y"

instance
  by standard (auto simp: less_eq_task_state_t_def less_task_state_t_def)

end

definition TASK_NAME_MAX :: nat where
  "TASK_NAME_MAX = 32"

definition MAX_TASKS :: nat where
  "MAX_TASKS = 64"

record task_t =
  t_rsp :: u64
  kernel_stack_top :: u64
  kernel_stack_size :: u64
  t_state :: task_state_t
  t_name :: "u8 list"

record sched_state =
  tasks :: "task_t list"
  task_count :: int
  current_task :: int

abbreviation upd_task :: "int \<Rightarrow> (task_t \<Rightarrow> task_t) \<Rightarrow> sched_state \<Rightarrow> sched_state" where
  "upd_task i f sc \<equiv> sc\<lparr>tasks := (tasks sc)[nat i := f (tasks sc ! nat i)]\<rparr>"

abbreviation state_of :: "sched_state \<Rightarrow> int \<Rightarrow> task_state_t" where
  "state_of sc i \<equiv> t_state (tasks sc ! nat i)"

section \<open>Operations\<close>

fun task_find_free_from :: "nat \<Rightarrow> task_t list \<Rightarrow> int" where
  "task_find_free_from i [] = -1"
| "task_find_free_from i (t # ts) =
     (if t_state t = TASK_TERMINATED then int i else task_find_free_from (Suc i) ts)"

definition task_find_free :: "sched_state \<Rightarrow> int" where
  "task_find_free sc = task_find_free_from 0 (tasks sc)"

fun task_find_next_ready_loop :: "sched_state \<Rightarrow> int \<Rightarrow> int list \<Rightarrow> int" where
  "task_find_next_ready_loop sc from [] = -1"
| "task_find_next_ready_loop sc from (i # is) =
     (let idx = (from + i) mod int MAX_TASKS
      in if idx < task_count sc \<and> state_of sc idx = TASK_READY then idx
         else task_find_next_ready_loop sc from is)"

definition task_find_next_ready :: "sched_state \<Rightarrow> int \<Rightarrow> int" where
  "task_find_next_ready sc from = task_find_next_ready_loop sc from [0 .. int MAX_TASKS - 1]"

text \<open>The loop that copies the name: the bytes of the C string \<open>name\<close> without its terminator.\<close>

fun copy_name :: "u8 list \<Rightarrow> nat \<Rightarrow> u8 list \<Rightarrow> u8 list" where
  "copy_name [] i buf = buf[i := 0]"
| "copy_name (c # name) i buf =
     (if i < TASK_NAME_MAX - 1 then copy_name name (Suc i) (buf[i := c]) else buf[i := 0])"

text \<open>The initial interrupt frame at the top of a fresh stack: \<open>sizeof(task_regs_t) = 176\<close>.\<close>

definition task_frame :: "u64 \<Rightarrow> u64 \<Rightarrow> memory \<Rightarrow> memory" where
  "task_frame stack_top entry m =
     (let frame = stack_top - 176;
          m1 = store64 m (frame + 168) 0x10;
          m2 = store64 m1 (frame + 160) stack_top;
          m3 = store64 m2 (frame + 152) 0x202;
          m4 = store64 m3 (frame + 144) 0x08
      in store64 m4 (frame + 136) entry)"

definition task_create ::
    "u8 list \<Rightarrow> u64 \<Rightarrow> sched_state \<Rightarrow> pmm_state \<Rightarrow> int \<times> sched_state \<times> pmm_state" where
  "task_create name entry sc s =
     (let idx = task_find_free sc
      in if idx < 0 then (-1, sc, s)
      else let stack_size = 4096; (stack_phys, s1) = pmm_alloc s
      in if stack_phys = 0 then (-1, sc, s1)
      else let m2 = snd (memset (pmm_get_hhdm s1 + stack_phys) 0 stack_size (mem s1));
               stack_top = pmm_get_hhdm s1 + stack_phys + stack_size;
               s3 = s1\<lparr>mem := task_frame stack_top entry m2\<rparr>;
               sc1 = upd_task idx (\<lambda>t. t\<lparr>t_rsp := stack_top - 176, kernel_stack_top := stack_top,
                        kernel_stack_size := stack_size, t_state := TASK_READY,
                        t_name := copy_name name 0 (t_name t)\<rparr>) sc;
               sc2 = (if task_count sc1 \<le> idx then sc1\<lparr>task_count := idx + 1\<rparr> else sc1)
           in (idx, sc2, s3))"

definition scheduler_tick :: "u64 \<Rightarrow> sched_state \<Rightarrow> u64 \<times> sched_state" where
  "scheduler_tick current_rsp sc =
     (if current_task sc < 0 then (0, sc)
      else let sc1 = upd_task (current_task sc) (t_rsp_update (\<lambda>_. current_rsp)) sc;
               next = task_find_next_ready sc1 (current_task sc1 + 1)
      in if next < 0 \<or> next = current_task sc1
         then (0, upd_task (current_task sc1) (t_state_update (\<lambda>_. TASK_RUNNING)) sc1)
      else let sc2 = upd_task (current_task sc1) (t_state_update (\<lambda>_. TASK_READY)) sc1;
               sc3 = sc2\<lparr>current_task := next\<rparr>;
               sc4 = upd_task (current_task sc3) (t_state_update (\<lambda>_. TASK_RUNNING)) sc3
           in (t_rsp (tasks sc4 ! nat (current_task sc4)), sc4))"

definition scheduler_yield :: "'a machine_scheme \<Rightarrow> 'a machine_scheme" where
  "scheduler_yield s = hw_emit (Int_n 32) s"

text \<open>\<open>task_exit\<close> marks the current task and then yields for ever: \<open>rsps\<close> are the stack pointers of the
  ticks that follow, as many as are looked at. With no current task the index is out of range.\<close>

definition task_exit_mark :: "sched_state \<Rightarrow> sched_state option" where
  "task_exit_mark sc =
     (if current_task sc < 0 then None
      else Some (upd_task (current_task sc) (t_state_update (\<lambda>_. TASK_TERMINATED)) sc))"

definition ticks :: "u64 list \<Rightarrow> sched_state \<Rightarrow> sched_state" where
  "ticks rsps sc = fold (\<lambda>r sc. snd (scheduler_tick r sc)) rsps sc"

definition task_exit :: "u64 list \<Rightarrow> sched_state \<Rightarrow> sched_state option" where
  "task_exit rsps sc = map_option (ticks rsps) (task_exit_mark sc)"

definition init_name :: "u8 list \<Rightarrow> u8 list" where
  "init_name buf = (buf[0 := of_char (CHR ''i''), 1 := of_char (CHR ''n''), 2 := of_char (CHR ''i''),
     3 := of_char (CHR ''t'')])[4 := 0]"

definition scheduler_init :: "sched_state \<Rightarrow> sched_state" where
  "scheduler_init sc =
     (let sc1 = sc\<lparr>tasks := map (\<lambda>t. t\<lparr>t_state := TASK_TERMINATED, t_rsp := 0\<rparr>) (tasks sc)\<rparr>;
          sc2 = upd_task 0 (\<lambda>t. t\<lparr>t_rsp := 0, kernel_stack_top := 0, kernel_stack_size := 0,
                  t_state := TASK_RUNNING, t_name := init_name (t_name t)\<rparr>) sc1
      in sc2\<lparr>task_count := 1, current_task := 0\<rparr>)"

section \<open>The invariant\<close>

definition sched_inv :: "sched_state \<Rightarrow> bool" where
  "sched_inv sc \<longleftrightarrow> length (tasks sc) = 64
     \<and> 0 \<le> current_task sc \<and> current_task sc < task_count sc \<and> task_count sc \<le> 64
     \<and> (\<forall>i. 0 \<le> i \<and> i < 64 \<longrightarrow> (state_of sc i = TASK_RUNNING \<longleftrightarrow> i = current_task sc))
     \<and> (\<forall>i. task_count sc \<le> i \<and> i < 64 \<longrightarrow> state_of sc i = TASK_TERMINATED)"

text \<open>The table of 64 entries, whatever is in it.\<close>

definition sched_table :: "sched_state \<Rightarrow> bool" where
  "sched_table sc \<longleftrightarrow> length (tasks sc) = 64"

lemma task_find_free_from_spec:
  "task_find_free_from i ts =
     (if \<exists>t \<in> set ts. t_state t = TASK_TERMINATED
      then int i + int (length (takeWhile (\<lambda>t. t_state t \<noteq> TASK_TERMINATED) ts)) else -1)"
  by (induction ts arbitrary: i) auto

lemma task_find_free_cases:
  assumes "length (tasks sc) = 64"
  obtains (none) "task_find_free sc = -1" "\<forall>i. 0 \<le> i \<and> i < 64 \<longrightarrow> state_of sc i \<noteq> TASK_TERMINATED"
    | (some) "0 \<le> task_find_free sc" "task_find_free sc < 64"
        "state_of sc (task_find_free sc) = TASK_TERMINATED"
        "\<forall>i. 0 \<le> i \<and> i < task_find_free sc \<longrightarrow> state_of sc i \<noteq> TASK_TERMINATED"
proof (cases "\<exists>t \<in> set (tasks sc). t_state t = TASK_TERMINATED")
  case True
  let ?tw = "takeWhile (\<lambda>t. t_state t \<noteq> TASK_TERMINATED) (tasks sc)"
  from True have f: "task_find_free sc = int (length ?tw)"
    by (simp add: task_find_free_def task_find_free_from_spec)
  from True have lt: "length ?tw < length (tasks sc)"
    by (metis (mono_tags, lifting) length_takeWhile_le nat_less_le takeWhile_eq_all_conv
        takeWhile_eq_take take_all_iff)
  have "t_state (tasks sc ! length ?tw) = TASK_TERMINATED"
    using nth_length_takeWhile [OF lt] by simp
  moreover have "t_state (tasks sc ! n) \<noteq> TASK_TERMINATED" if "n < length ?tw" for n
    using that by (metis (mono_tags, lifting) nth_mem set_takeWhileD takeWhile_nth)
  ultimately show ?thesis
    using f lt assms by (intro some) (auto simp: nat_less_iff)
next
  case False
  then have "task_find_free sc = -1" by (simp add: task_find_free_def task_find_free_from_spec)
  with False assms show ?thesis by (intro none) auto
qed


section \<open>Selection of the next task\<close>

definition is_ready :: "sched_state \<Rightarrow> int \<Rightarrow> bool" where
  "is_ready sc i \<longleftrightarrow> 0 \<le> i \<and> i < task_count sc \<and> state_of sc i = TASK_READY"

lemma find_next_loop_find:
  "task_find_next_ready_loop sc from is =
     (case find (\<lambda>i. is_ready sc ((from + i) mod 64)) is of None \<Rightarrow> -1 | Some i \<Rightarrow> (from + i) mod 64)"
  by (induction "is") (auto simp: Let_def MAX_TASKS_def is_ready_def)

lemma find_interval:
  assumes "a \<le> b + 1"
  shows "find P [a .. b] = None \<longleftrightarrow> (\<forall>i. a \<le> i \<and> i \<le> b \<longrightarrow> \<not> P (i::int))"
    and "find P [a .. b] = Some k \<longleftrightarrow> a \<le> k \<and> k \<le> b \<and> P k \<and> (\<forall>i. a \<le> i \<and> i < k \<longrightarrow> \<not> P i)"
proof -
  show "find P [a .. b] = None \<longleftrightarrow> (\<forall>i. a \<le> i \<and> i \<le> b \<longrightarrow> \<not> P i)"
    by (auto simp: find_None_iff)
  have nth: "[a .. b] ! n = a + int n" if "n < nat (b - a + 1)" for n
    using that by (simp add: nth_upto)
  show "find P [a .. b] = Some k \<longleftrightarrow> a \<le> k \<and> k \<le> b \<and> P k \<and> (\<forall>i. a \<le> i \<and> i < k \<longrightarrow> \<not> P i)"
    (is "_ \<longleftrightarrow> ?R")
  proof
    assume "find P [a .. b] = Some k"
    then obtain n where n: "n < nat (b - a + 1)" "P ([a .. b] ! n)" "k = [a .. b] ! n"
      "\<forall>j<n. \<not> P ([a .. b] ! j)" by (auto simp: find_Some_iff)
    then have k: "k = a + int n" by (simp add: nth)
    have "\<not> P i" if "a \<le> i" "i < k" for i
    proof -
      from that k have "nat (i - a) < n" by simp
      moreover from this n(1) have "[a .. b] ! nat (i - a) = i" using that by (simp add: nth)
      ultimately show ?thesis using n(4) by metis
    qed
    with n k show ?R by (auto simp: nth)
  next
    assume R: ?R
    then have "[a .. b] ! nat (k - a) = k" "nat (k - a) < length [a .. b]" by (simp_all add: nth)
    moreover from R have "\<not> P ([a .. b] ! j)" if "j < nat (k - a)" for j
    proof -
      from R that have "j < nat (b - a + 1)" "a + int j < k" by linarith+
      with R show ?thesis by (simp add: nth)
    qed
    ultimately show "find P [a .. b] = Some k"
      using R unfolding find_Some_iff by (intro exI [of _ "nat (k - a)"]) simp
  qed
qed

lemma find_next_ready_cases:
  assumes "task_count sc \<le> 64"
  obtains (none) "task_find_next_ready sc from = -1" "\<forall>i. \<not> is_ready sc i"
    | (some) k where "0 \<le> k" "k < 64" "task_find_next_ready sc from = (from + k) mod 64"
        "is_ready sc ((from + k) mod 64)" "\<forall>j. 0 \<le> j \<and> j < k \<longrightarrow> \<not> is_ready sc ((from + j) mod 64)"
proof (cases "find (\<lambda>i. is_ready sc ((from + i) mod 64)) [0 .. 63]")
  case None
  have "\<not> is_ready sc i" for i
  proof
    assume "is_ready sc i"
    moreover from this assms have "(from + (i - from) mod 64) mod 64 = i"
      by (simp add: mod_simps is_ready_def)
    moreover have "0 \<le> (i - from) mod 64 \<and> (i - from) mod 64 \<le> 63"
      using pos_mod_bound [of 64 "i - from"] by simp
    ultimately show False using None
      by (simp add: find_interval del: pos_mod_sign) metis
  qed
  with None show ?thesis
    by (intro none) (simp_all add: task_find_next_ready_def find_next_loop_find MAX_TASKS_def)
next
  case (Some k)
  moreover from this have "task_find_next_ready sc from = (from + k) mod 64"
    by (simp add: task_find_next_ready_def find_next_loop_find MAX_TASKS_def)
  ultimately show ?thesis by (intro some [of k]) (simp_all add: find_interval)
qed

section \<open>The timer tick\<close>

text \<open>The switch a tick makes: the interrupted task keeps its stack pointer and becomes ready, the
  selected one becomes the running task.\<close>

definition switch_to :: "int \<Rightarrow> u64 \<Rightarrow> sched_state \<Rightarrow> sched_state" where
  "switch_to n r sc =
     sc\<lparr>tasks := (tasks sc)[nat (current_task sc) := (tasks sc ! nat (current_task sc))
          \<lparr>t_rsp := r, t_state := TASK_READY\<rparr>,
        nat n := (tasks sc ! nat n)\<lparr>t_state := TASK_RUNNING\<rparr>], current_task := n\<rparr>"

lemma sched_inv_current:
  "sched_inv sc \<Longrightarrow> state_of sc (current_task sc) = TASK_RUNNING \<and> 0 \<le> current_task sc
     \<and> current_task sc < 64 \<and> nat (current_task sc) < length (tasks sc)"
  by (auto simp: sched_inv_def)

lemma is_ready_rsp:
  "sched_inv sc \<Longrightarrow>
     is_ready (upd_task (current_task sc) (t_rsp_update (\<lambda>_. r)) sc) i = is_ready sc i"
  by (cases "nat i = nat (current_task sc)") (auto simp: is_ready_def sched_inv_def)

lemma t_state_same [simp]:
  "t_state t = st \<Longrightarrow> t\<lparr>t_rsp := r, t_state := st\<rparr> = t\<lparr>t_rsp := r\<rparr>"
  by (cases t) simp

lemma tick_no_switch:
  assumes "sched_inv sc" and "\<forall>i. \<not> is_ready sc i"
  shows "scheduler_tick r sc = (0, upd_task (current_task sc) (t_rsp_update (\<lambda>_. r)) sc)"
proof -
  let ?sc = "upd_task (current_task sc) (t_rsp_update (\<lambda>_. r)) sc"
  from assms have c: "state_of sc (current_task sc) = TASK_RUNNING" "0 \<le> current_task sc"
    "nat (current_task sc) < length (tasks sc)" using sched_inv_current by blast+
  have "task_count ?sc \<le> 64" using assms by (simp add: sched_inv_def)
  then have "task_find_next_ready ?sc (current_task sc + 1) = -1"
    using assms(2) is_ready_rsp [OF assms(1), of r]
    by (cases rule: find_next_ready_cases [of ?sc "current_task sc + 1"]) auto
  with c show ?thesis by (simp add: scheduler_tick_def Let_def)
qed

lemma tick_select:
  assumes "sched_inv sc" "is_ready sc n"
    and "task_find_next_ready (upd_task (current_task sc) (t_rsp_update (\<lambda>_. r)) sc)
           (current_task sc + 1) = n"
  shows "scheduler_tick r sc = (t_rsp (tasks sc ! nat n), switch_to n r sc)"
proof -
  from assms have c: "state_of sc (current_task sc) = TASK_RUNNING" "0 \<le> current_task sc"
    "current_task sc < 64" "nat (current_task sc) < length (tasks sc)"
    using sched_inv_current by blast+
  from assms c have "n \<noteq> current_task sc" "0 \<le> n" "n < 64" "length (tasks sc) = 64"
    by (auto simp: is_ready_def sched_inv_def)
  moreover from this c have "nat n \<noteq> nat (current_task sc)" by (simp add: eq_nat_nat_iff)
  ultimately show ?thesis
    using assms(3) c by (simp add: scheduler_tick_def Let_def switch_to_def)
qed

lemma tick_switch:
  assumes "sched_inv sc" and "is_ready sc i"
  obtains k where "0 < k" "k < 64" "is_ready sc ((current_task sc + k) mod 64)"
    "\<forall>j. 0 < j \<and> j < k \<longrightarrow> \<not> is_ready sc ((current_task sc + j) mod 64)"
    "(current_task sc + k) mod 64 \<noteq> current_task sc"
    "scheduler_tick r sc = (t_rsp (tasks sc ! nat ((current_task sc + k) mod 64)),
       switch_to ((current_task sc + k) mod 64) r sc)"
proof -
  let ?c = "current_task sc"
  let ?sc = "upd_task ?c (t_rsp_update (\<lambda>_. r)) sc"
  from assms have c: "state_of sc ?c = TASK_RUNNING" "0 \<le> ?c" "?c < 64"
    "nat ?c < length (tasks sc)" using sched_inv_current by blast+
  have tc: "task_count ?sc \<le> 64" using assms by (simp add: sched_inv_def)
  from tc show ?thesis
  proof (cases rule: find_next_ready_cases [of _ "?c + 1"])
    case none
    with assms is_ready_rsp [OF assms(1), of r] show ?thesis by auto
  next
    case (some k)
    let ?n = "(?c + (k + 1)) mod 64"
    from some have n: "task_find_next_ready ?sc (?c + 1) = ?n" "is_ready sc ?n"
      using is_ready_rsp [OF assms(1), of r] by (simp_all add: algebra_simps)
    from n c have ne: "?n \<noteq> ?c" by (auto simp: is_ready_def)
    then have "k \<noteq> 63" using c by auto
    have before: "\<not> is_ready sc ((?c + j) mod 64)" if "0 < j" "j < k + 1" for j
      using some(5) [rule_format, of "j - 1"] that is_ready_rsp [OF assms(1), of r]
      by (simp add: algebra_simps)
    have "scheduler_tick r sc = (t_rsp (tasks sc ! nat ?n), switch_to ?n r sc)"
      using assms(1) n(2) n(1) by (rule tick_select)
    with some \<open>k \<noteq> 63\<close> n ne before show ?thesis by (intro that [of "k + 1"]) auto
  qed
qed

lemma switch_simps [simp]:
  "current_task (switch_to n r sc) = n" "task_count (switch_to n r sc) = task_count sc"
  "length (tasks (switch_to n r sc)) = length (tasks sc)"
  by (simp_all add: switch_to_def)

lemma switch_task:
  assumes "sched_inv sc" "is_ready sc n" "0 \<le> i" "i < 64"
  shows "tasks (switch_to n r sc) ! nat i =
     (if i = n then (tasks sc ! nat i)\<lparr>t_state := TASK_RUNNING\<rparr>
      else if i = current_task sc then (tasks sc ! nat i)\<lparr>t_rsp := r, t_state := TASK_READY\<rparr>
      else tasks sc ! nat i)"
  using assms
  by (auto simp: sched_inv_def switch_to_def is_ready_def nth_list_update eq_nat_nat_iff)

lemma switch_inv: "sched_inv sc \<Longrightarrow> is_ready sc n \<Longrightarrow> sched_inv (switch_to n r sc)"
  using switch_task [of sc n _ r]
  unfolding sched_inv_def [of "switch_to n r sc"] by (auto simp: sched_inv_def is_ready_def)

lemma tick_inv: "sched_inv sc \<Longrightarrow> sched_inv (snd (scheduler_tick r sc))"
proof (cases "\<exists>i. is_ready sc i")
  case True
  assume "sched_inv sc"
  with True show ?thesis using tick_switch switch_inv by (metis snd_conv)
next
  case False
  assume "sched_inv sc"
  with False show ?thesis
    by (auto simp: tick_no_switch) (auto simp: sched_inv_def nth_list_update)
qed


section \<open>Sequences of ticks\<close>

lemma ticks_simps [simp]:
  "ticks [] sc = sc" "ticks (r # rs) sc = ticks rs (snd (scheduler_tick r sc))"
  by (simp_all add: ticks_def)

lemma ticks_inv: "sched_inv sc \<Longrightarrow> sched_inv (ticks rs sc)"
  by (induction rs arbitrary: sc) (simp_all add: tick_inv)

lemma tick_progress:
  fixes r :: u64
  assumes inv: "sched_inv sc" and j: "is_ready sc j"
  defines "c \<equiv> current_task sc" and "sc' \<equiv> snd (scheduler_tick r sc)"
  shows "current_task sc' = j
     \<or> is_ready sc' j \<and> (j - current_task sc') mod 64 < (j - c) mod 64"
proof -
  let ?d = "(j - c) mod 64"
  from inv j have j64: "0 \<le> j" "j < 64" and jc: "j \<noteq> c" and c: "0 \<le> c" "c < 64"
    by (auto simp: sched_inv_def is_ready_def c_def)
  obtain k where k: "0 < k" "k < 64" "is_ready sc ((c + k) mod 64)"
    "\<forall>j. 0 < j \<and> j < k \<longrightarrow> \<not> is_ready sc ((c + j) mod 64)"
    "scheduler_tick r sc = (t_rsp (tasks sc ! nat ((c + k) mod 64)), switch_to ((c + k) mod 64) r sc)"
    unfolding c_def by (rule tick_switch [OF inv j])
  have dj: "(c + ?d) mod 64 = j" using j64 by (simp add: mod_simps)
  moreover have "0 < ?d"
  proof (rule ccontr)
    assume "\<not> 0 < ?d"
    then have "?d = 0" using pos_mod_sign [of 64 "j - c"] by linarith
    with dj c jc show False by simp
  qed
  ultimately have "k \<le> ?d" using k(4) j by (metis not_le)
  show ?thesis
  proof (cases "k = ?d")
    case True
    with k(5) dj show ?thesis by (simp add: sc'_def)
  next
    case False
    have "(j - (c + k) mod 64) mod 64 = (?d - k) mod 64" by (simp add: mod_simps algebra_simps)
    also have "\<dots> = ?d - k" using \<open>k \<le> ?d\<close> k by simp
    finally have d: "(j - (c + k) mod 64) mod 64 < ?d" using k by simp
    have "(c + k) mod 64 \<noteq> j" using d \<open>0 < ?d\<close> False \<open>k \<le> ?d\<close>
      \<open>(j - (c + k) mod 64) mod 64 = (?d - k) mod 64\<close> \<open>(?d - k) mod 64 = ?d - k\<close> by auto
    with switch_task [OF inv k(3) j64, of r] j jc
    have "is_ready (switch_to ((c + k) mod 64) r sc) j" by (simp add: is_ready_def c_def)
    with d k(5) show ?thesis by (simp add: sc'_def)
  qed
qed

lemma ticks_reach:
  assumes "sched_inv sc" "is_ready sc j" "(j - current_task sc) mod 64 \<le> int (length rs)"
  shows "\<exists>k \<le> length rs. current_task (ticks (take k rs) sc) = j"
  using assms
proof (induction rs arbitrary: sc)
  case Nil
  then have "(j - current_task sc) mod 64 = 0"
    using pos_mod_sign [of 64 "j - current_task sc"] by simp
  moreover have "(current_task sc + (j - current_task sc) mod 64) mod 64 = j mod 64"
    by (simp add: mod_simps)
  ultimately have "j = current_task sc" using Nil by (simp add: sched_inv_def is_ready_def)
  then show ?case by simp
next
  case (Cons r rs)
  let ?sc = "snd (scheduler_tick r sc)"
  from tick_progress [OF Cons.prems(1,2), of r] show ?case
  proof
    assume "current_task ?sc = j"
    then show ?thesis by (intro exI [of _ 1]) simp
  next
    assume "is_ready ?sc j \<and> (j - current_task ?sc) mod 64 < (j - current_task sc) mod 64"
    with Cons.IH [OF tick_inv [OF Cons.prems(1)]] Cons.prems(3)
    obtain k where "k \<le> length rs" "current_task (ticks (take k rs) ?sc) = j" by force
    then show ?thesis by (intro exI [of _ "Suc k"]) simp
  qed
qed

text \<open>A tick changes the saved stack pointer of the interrupted task only.\<close>

lemma tick_rsp:
  assumes "sched_inv sc" "0 \<le> i" "i < 64"
  shows "t_rsp (tasks (snd (scheduler_tick r sc)) ! nat i) =
     (if i = current_task sc then r else t_rsp (tasks sc ! nat i))"
proof (cases "\<exists>j. is_ready sc j")
  case True
  then obtain j where "is_ready sc j" by blast
  then obtain k where n: "is_ready sc ((current_task sc + k) mod 64)"
    "(current_task sc + k) mod 64 \<noteq> current_task sc"
    "snd (scheduler_tick r sc) = switch_to ((current_task sc + k) mod 64) r sc"
    using tick_switch [OF assms(1), of j r thesis] by auto
  then show ?thesis using switch_task [OF assms(1) n(1) assms(2,3), of r] by auto
next
  case False
  with assms show ?thesis by (auto simp: tick_no_switch nth_list_update sched_inv_def)
qed

text \<open>What a tick returns is the stack pointer saved for the task it makes current.\<close>

lemma tick_returns:
  assumes "sched_inv sc" "current_task (snd (scheduler_tick r sc)) = n" "n \<noteq> current_task sc"
  shows "fst (scheduler_tick r sc) = t_rsp (tasks sc ! nat n)"
proof (cases "\<exists>j. is_ready sc j")
  case True
  then obtain j where "is_ready sc j" by blast
  then show ?thesis using tick_switch [OF assms(1), of j r ?thesis] assms(2) by auto
next
  case False
  with assms show ?thesis by (simp add: tick_no_switch)
qed

lemma ticks_rsp:
  assumes "sched_inv sc" "0 \<le> c" "c < 64"
    and "\<And>k. k < length rs \<Longrightarrow> current_task (ticks (take k rs) sc) \<noteq> c"
  shows "t_rsp (tasks (ticks rs sc) ! nat c) = t_rsp (tasks sc ! nat c)"
  using assms(1,4)
proof (induction rs arbitrary: sc)
  case (Cons r rs)
  have "current_task sc \<noteq> c" using Cons.prems(2) [of 0] by simp
  moreover have "current_task (ticks (take k rs) (snd (scheduler_tick r sc))) \<noteq> c"
    if "k < length rs" for k
    using Cons.prems(2) [of "Suc k"] that by simp
  ultimately show ?case
    using Cons.IH [OF tick_inv [OF Cons.prems(1), of r]] tick_rsp [OF Cons.prems(1) assms(2,3)]
    by simp
qed simp

section \<open>Properties of the tick\<close>

text \<open>C22: a timer tick keeps the scheduler's invariant (the current task is the only running one) and
  is round robin: when some task is ready, the next ready one in cyclic order after the current
  task becomes current and its saved stack pointer is returned, while the interrupted task keeps
  the stack pointer of the interrupt and becomes ready; when none is ready, the tick returns 0 and
  the current task goes on.\<close>

theorem scheduler_tick_round_robin:
  assumes "sched_inv sc"
  shows "sched_inv (snd (scheduler_tick r sc))
     \<and> (if \<exists>i. is_ready sc i
        then \<exists>k n. 0 < k \<and> k < 64 \<and> n = (current_task sc + k) mod 64 \<and> is_ready sc n
          \<and> (\<forall>j. 0 < j \<and> j < k \<longrightarrow> \<not> is_ready sc ((current_task sc + j) mod 64))
          \<and> scheduler_tick r sc = (t_rsp (tasks sc ! nat n), switch_to n r sc)
        else scheduler_tick r sc = (0, upd_task (current_task sc) (t_rsp_update (\<lambda>_. r)) sc))"
proof (cases "\<exists>i. is_ready sc i")
  case True
  then obtain i where "is_ready sc i" by blast
  with assms obtain k where "0 < k" "k < 64" "is_ready sc ((current_task sc + k) mod 64)"
    "\<forall>j. 0 < j \<and> j < k \<longrightarrow> \<not> is_ready sc ((current_task sc + j) mod 64)"
    "scheduler_tick r sc = (t_rsp (tasks sc ! nat ((current_task sc + k) mod 64)),
       switch_to ((current_task sc + k) mod 64) r sc)"
    using tick_switch [of sc i r thesis] by blast
  with True show ?thesis using tick_inv [OF assms, of r] by auto
next
  case False
  with tick_inv [OF assms] tick_no_switch [OF assms] show ?thesis by simp
qed

text \<open>C23: no ready task starves: whatever stack pointers the ticks carry, a ready task \<open>j\<close> runs after at
  most as many ticks as there are table slots between the current task and it, at most 63.\<close>

theorem scheduler_fair:
  assumes "sched_inv sc" "is_ready sc j" "length rs = nat ((j - current_task sc) mod 64)"
  shows "length rs \<le> 63 \<and> (\<exists>k \<le> length rs. current_task (ticks (take k rs) sc) = j)"
proof -
  have "(j - current_task sc) mod 64 < 64" by simp
  with ticks_reach [OF assms(1,2), of rs] assms(3) show ?thesis by auto
qed

lemma resume_rsp:
  assumes "sched_inv sc" and "c = current_task sc"
    and "\<And>k. k \<le> length rs \<Longrightarrow> current_task (ticks (r # take k rs) sc) \<noteq> c"
    and "current_task (snd (scheduler_tick r' (ticks (r # rs) sc))) = c"
  shows "fst (scheduler_tick r' (ticks (r # rs) sc)) = r"
proof -
  let ?s1 = "snd (scheduler_tick r sc)"
  have inv: "sched_inv ?s1" "sched_inv (ticks rs ?s1)"
    using assms(1) by (auto intro: tick_inv ticks_inv)
  have c: "0 \<le> c" "c < 64" using sched_inv_current [OF assms(1)] assms(2) by auto
  have ne: "current_task (ticks rs ?s1) \<noteq> c" using assms(3) [of "length rs"] by simp
  have "t_rsp (tasks (ticks rs ?s1) ! nat c) = t_rsp (tasks ?s1 ! nat c)"
    using assms(3) by (intro ticks_rsp [OF inv(1) c]) simp
  also have "\<dots> = r" using tick_rsp [OF assms(1) c, of r] assms(2) by simp
  finally show ?thesis using tick_returns [OF inv(2)] assms(4) ne by simp
qed

text \<open>C6: a context switch loses nothing: when the task interrupted with stack pointer \<open>r\<close> has been
  switched out, then after any number of further ticks during which it does not run, the tick that
  makes it current again returns exactly \<open>r\<close>.\<close>

theorem scheduler_resume:
  assumes "sched_inv sc" and "c = current_task sc"
    and "\<And>k. k \<le> length rs \<Longrightarrow> current_task (ticks (r # take k rs) sc) \<noteq> c"
    and "current_task (snd (scheduler_tick r' (ticks (r # rs) sc))) = c"
  shows "fst (scheduler_tick r' (ticks (r # rs) sc)) = r"
  by (rule resume_rsp [OF assms])


section \<open>Creating a task\<close>

lemma copy_name_spec:
  assumes "length buf = 32" "i \<le> 31"
  shows "copy_name name i buf = take i buf @ take (31 - i) name
     @ 0 # drop (Suc (i + min (31 - i) (length name))) buf"
  using assms
proof (induction name arbitrary: i buf)
  case Nil
  then show ?case by (simp add: upd_conv_take_nth_drop)
next
  case (Cons c name)
  show ?case
  proof (cases "i < 31")
    case True
    have "copy_name (c # name) i buf = copy_name name (Suc i) (buf[i := c])"
      using True by (simp add: TASK_NAME_MAX_def)
    also have "\<dots> = take (Suc i) (buf[i := c]) @ take (31 - Suc i) name
        @ 0 # drop (Suc (Suc i + min (31 - Suc i) (length name))) (buf[i := c])"
      using Cons.prems True by (intro Cons.IH) simp_all
    also have "take (Suc i) (buf[i := c]) = take i buf @ [c]"
      using Cons.prems True by (simp add: take_Suc_conv_app_nth)
    finally show ?thesis using True by (simp add: take_Cons' min_def) 
  next
    case False
    with Cons.prems have "i = 31" by simp
    with Cons.prems show ?thesis by (simp add: upd_conv_take_nth_drop TASK_NAME_MAX_def)
  qed
qed

text \<open>The frame a new task starts from: everything zero but the five fields the code sets.\<close>

definition initial_regs :: "u64 \<Rightarrow> u64 \<Rightarrow> registers_t" where
  "initial_regs entry stack_top =
     \<lparr>r15 = 0, r14 = 0, r13 = 0, r12 = 0, r11 = 0, r10 = 0, r9 = 0, r8 = 0, rbp = 0, rdi = 0,
      rsi = 0, rdx = 0, rcx = 0, rbx = 0, rax = 0, int_no = 0, error_code = 0, rip = entry,
      cs = 0x08, rflags = 0x202, rsp = stack_top, ss = 0x10\<rparr>"

lemma frame_fields:
  fixes f :: u64
  assumes "\<And>i. i < 176 \<Longrightarrow> m (f + of_nat i) = 0"
  shows "registers_at (store64 (store64 (store64 (store64 (store64 m (f + 168) 0x10) (f + 160) t)
     (f + 152) 0x202) (f + 144) 0x08) (f + 136) entry) f = initial_regs entry t"
proof -
  have z: "load64 m (f + of_nat j) = 0" if "j + 8 \<le> 176" for j
  proof (rule load64_zero)
    fix i :: nat assume "i < 8"
    with assms [of "j + i"] that show "m (f + of_nat j + of_nat i) = 0" by (simp add: add.assoc)
  qed
  have "load64 m f = 0" using z [of 0] by simp
  then show ?thesis
    using z [of 8] z [of 16] z [of 24] z [of 32] z [of 40] z [of 48] z [of 56] z [of 64] z [of 72]
      z [of 80] z [of 88] z [of 96] z [of 104] z [of 112] z [of 120] z [of 128]
    unfolding registers_at_def initial_regs_def
    by (simp add: load64_store64_apart field_apart field_apart_0)
qed

lemma task_frame_regs:
  assumes "\<And>i. i < 176 \<Longrightarrow> m (stack_top - 176 + of_nat i) = 0"
  shows "registers_at (task_frame stack_top entry m) (stack_top - 176) = initial_regs entry stack_top"
  using frame_fields [of m "stack_top - 176" stack_top entry] assms
  unfolding task_frame_def Let_def by blast

lemma frame_outside: "\<not> in_frame h p x \<Longrightarrow> d + 8 \<le> 4096 \<Longrightarrow> outside (h + p + of_nat d) 8 x"
  by (rule outside_sub [of _ 4096]) (simp_all add: in_frame_def outside_def)

lemma task_frame_outside:
  assumes "\<not> in_frame h p x"
  shows "task_frame (h + p + 4096) entry m x = m x"
proof -
  have "outside (h + p + 4088) 8 x" "outside (h + p + 4080) 8 x"
    "outside (h + p + 4072) 8 x" "outside (h + p + 4064) 8 x" "outside (h + p + 4056) 8 x"
    using frame_outside [OF assms, of 4088] frame_outside [OF assms, of 4080]
      frame_outside [OF assms, of 4072] frame_outside [OF assms, of 4064]
      frame_outside [OF assms, of 4056] by simp_all
  moreover have "h + p + 4096 - 176 + 168 = h + p + 4088" "h + p + 4096 - 176 + 160 = h + p + 4080"
    "h + p + 4096 - 176 + 152 = h + p + 4072" "h + p + 4096 - 176 + 144 = h + p + 4064"
    "h + p + 4096 - 176 + 136 = h + p + 4056"
    by (simp_all add: add.commute)
  ultimately show ?thesis unfolding task_frame_def Let_def by (simp only: store64_outside)
qed

lemma task_stack_regs:
  "registers_at (task_frame (h + p + 4096) entry (snd (memset (h + p) 0 4096 m))) (h + p + 4096 - 176)
     = initial_regs entry (h + p + 4096)"
proof (rule task_frame_regs)
  fix i :: nat assume "i < 176"
  then have "unat (h + p + 4096 - 176 + of_nat i - (h + p)) < 4096"
    using unat_of_nat_u64 [of "3920 + i"] by (simp add: algebra_simps)
  then show "snd (memset (h + p) 0 4096 m) (h + p + 4096 - 176 + of_nat i) = 0"
    by (simp add: memset_mem)
qed

definition names_ok :: "sched_state \<Rightarrow> bool" where
  "names_ok sc \<longleftrightarrow> (\<forall>t \<in> set (tasks sc). length (t_name t) = 32)"

text \<open>The task table after a creation in slot \<open>idx\<close>.\<close>

definition created :: "int \<Rightarrow> u8 list \<Rightarrow> u64 \<Rightarrow> sched_state \<Rightarrow> sched_state" where
  "created idx name stack_top sc =
     sc\<lparr>tasks := (tasks sc)[nat idx := (tasks sc ! nat idx)\<lparr>t_rsp := stack_top - 176,
          kernel_stack_top := stack_top, kernel_stack_size := 4096, t_state := TASK_READY,
          t_name := copy_name name 0 (t_name (tasks sc ! nat idx))\<rparr>],
        task_count := max (task_count sc) (idx + 1)\<rparr>"

lemma created_inv:
  assumes "sched_inv sc" "0 \<le> idx" "idx < 64" "state_of sc idx = TASK_TERMINATED"
  shows "sched_inv (created idx name t sc)" "is_ready (created idx name t sc) idx"
proof -
  have "idx \<noteq> current_task sc" using assms by (auto simp: sched_inv_def)
  moreover have st: "state_of (created idx name t sc) i =
      (if i = idx then TASK_READY else state_of sc i)" if "0 \<le> i" "i < 64" for i
    using assms that by (auto simp: created_def sched_inv_def nth_list_update eq_nat_nat_iff)
  ultimately show "sched_inv (created idx name t sc)"
    using assms unfolding sched_inv_def by (auto simp: created_def)
  show "is_ready (created idx name t sc) idx"
    using st [of idx] assms by (simp add: is_ready_def) (simp add: created_def)
qed

lemma task_create_result:
  assumes "pmm_inv s (p # ps)" "length (tasks sc) = 64" "idx = task_find_free sc" "0 \<le> idx"
  obtains s' where "task_create name entry sc s = (idx, created idx name (pmm_hhdm s + p + 4096) sc, s')"
    "pmm_inv s' ps" "pmm_hhdm s' = pmm_hhdm s" "cr3 s' = cr3 s" "hw_log s' = hw_log s"
    "\<forall>x. \<not> in_frame (pmm_hhdm s) p x \<longrightarrow> mem s' x = mem s x"
    "registers_at (mem s') (pmm_hhdm s + p + 4096 - 176) = initial_regs entry (pmm_hhdm s + p + 4096)"
proof -
  obtain s1 where s1: "pmm_alloc s = (p, s1)" "pmm_inv s1 ps" "mem s1 = mem s"
    "pmm_hhdm s1 = pmm_hhdm s" "cr3 s1 = cr3 s" "hw_log s1 = hw_log s"
    using pmm_alloc_Cons [OF assms(1)] by blast
  let ?h = "pmm_hhdm s"
  let ?m = "task_frame (?h + p + 4096) entry (snd (memset (?h + p) 0 4096 (mem s)))"
  have fr: "?m x = mem s x" if "\<not> in_frame ?h p x" for x
    using that by (simp add: task_frame_outside) (simp add: memset_mem in_frame_def)
  have p: "p \<noteq> 0" "page_aligned p" "p \<notin> set ps" "frame_list ps"
    using assms(1) by (auto simp: pmm_inv_def)
  have "?m x = mem s1 x" if "q \<in> set ps" "in_frame (pmm_hhdm s1) q x" for q x
  proof -
    have "page_aligned q" "q \<noteq> p" using p that by (auto simp: frame_list_def)
    then have "\<not> in_frame ?h p x" using that s1 p in_frame_unique by metis
    with fr s1 show ?thesis by simp
  qed
  then have inv: "pmm_inv (s1\<lparr>mem := ?m\<rparr>) ps" using s1 by (intro pmm_inv_mem_cong) auto
  have "task_create name entry sc s = (idx, created idx name (?h + p + 4096) sc, s1\<lparr>mem := ?m\<rparr>)"
    using assms s1 p
    by (simp add: task_create_def Let_def created_def pmm_get_hhdm_def max_def)
  with inv fr s1 task_stack_regs [of ?h p entry "mem s"] show ?thesis
    by (intro that [of "s1\<lparr>mem := ?m\<rparr>"]) auto
qed

text \<open>What a successful creation in slot \<open>idx\<close> with stack frame \<open>p\<close> promises.\<close>

definition task_started ::
    "int \<Rightarrow> u64 \<Rightarrow> u8 list \<Rightarrow> u64 \<Rightarrow> sched_state \<Rightarrow> pmm_state \<Rightarrow> sched_state \<Rightarrow> pmm_state \<Rightarrow> bool" where
  "task_started idx p name entry sc s sc' s' \<longleftrightarrow>
     0 \<le> idx \<and> idx < 64 \<and> state_of sc idx = TASK_TERMINATED
     \<and> (\<forall>i. 0 \<le> i \<and> i < idx \<longrightarrow> state_of sc i \<noteq> TASK_TERMINATED)
     \<and> is_ready sc' idx \<and> current_task sc' = current_task sc
     \<and> (\<exists>t rest. tasks sc' = (tasks sc)[nat idx := t]
         \<and> kernel_stack_top t = pmm_hhdm s + p + 4096 \<and> t_rsp t = kernel_stack_top t - 176
         \<and> registers_at (mem s') (t_rsp t) = initial_regs entry (kernel_stack_top t)
         \<and> t_name t = take 31 name @ 0 # rest)
     \<and> (\<forall>x. \<not> in_frame (pmm_hhdm s) p x \<longrightarrow> mem s' x = mem s x)"

lemma task_create_fails:
  assumes "length (tasks sc) = 64" "pmm_inv s ps"
    and "(\<forall>i. 0 \<le> i \<and> i < 64 \<longrightarrow> state_of sc i \<noteq> TASK_TERMINATED) \<or> ps = []"
  shows "task_create name entry sc s = (-1, sc, s)"
  using assms(1)
  by (cases rule: task_find_free_cases)
    (use assms(2,3) in \<open>auto simp: task_create_def pmm_alloc_Nil\<close>)

lemma task_create_succeeds:
  assumes "sched_inv sc" "names_ok sc" "pmm_inv s (p # ps)"
    and "\<exists>i. 0 \<le> i \<and> i < 64 \<and> state_of sc i = TASK_TERMINATED"
  shows "\<exists>idx sc' s'. task_create name entry sc s = (idx, sc', s')
     \<and> task_started idx p name entry sc s sc' s' \<and> sched_inv sc' \<and> pmm_inv s' ps"
proof -
  have len: "length (tasks sc) = 64" using assms by (simp add: sched_inv_def)
  let ?i = "task_find_free sc" and ?t = "pmm_hhdm s + p + 4096"
  obtain i: "0 \<le> ?i" "?i < 64" "state_of sc ?i = TASK_TERMINATED"
    "\<forall>i. 0 \<le> i \<and> i < ?i \<longrightarrow> state_of sc i \<noteq> TASK_TERMINATED"
    using len assms(4) by (cases rule: task_find_free_cases) auto
  obtain s' where s': "task_create name entry sc s = (?i, created ?i name ?t sc, s')"
    "pmm_inv s' ps" "\<forall>x. \<not> in_frame (pmm_hhdm s) p x \<longrightarrow> mem s' x = mem s x"
    "registers_at (mem s') (?t - 176) = initial_regs entry ?t"
    using task_create_result [OF assms(3) len refl i(1)] by metis
  have "length (t_name (tasks sc ! nat ?i)) = 32"
    using assms(2) i len by (simp add: names_ok_def)
  then have "task_started ?i p name entry sc s (created ?i name ?t sc) s'"
    using s' i created_inv [OF assms(1) i(1-3), of name ?t] unfolding task_started_def
    by (auto simp: created_def copy_name_spec
        intro!: exI [of _ "tasks (created ?i name ?t sc) ! nat ?i"] simp: len)
  with s' created_inv(1) [OF assms(1) i(1-3), of name ?t] show ?thesis by blast
qed

text \<open>C24: \<open>task_create\<close>, on every path. With no terminated slot or no free frame it returns -1 and
  changes nothing. Otherwise it returns the first terminated slot, which becomes ready; its stack
  is a frame of its own taken from the allocator, outside which no byte changes; the saved stack
  pointer designates, in that frame, an interrupt frame that enters \<open>entry\<close> in kernel mode with
  interrupts enabled and every other register 0; the name is cut to 31 characters and terminated;
  the scheduler's and the allocator's invariants are kept.\<close>

theorem task_create_correct:
  assumes "sched_inv sc" "names_ok sc" "pmm_inv s ps"
  shows "case ps of
     p # ps' \<Rightarrow>
       if \<exists>i. 0 \<le> i \<and> i < 64 \<and> state_of sc i = TASK_TERMINATED
       then \<exists>idx sc' s'. task_create name entry sc s = (idx, sc', s')
         \<and> task_started idx p name entry sc s sc' s' \<and> sched_inv sc' \<and> pmm_inv s' ps'
       else task_create name entry sc s = (-1, sc, s)
   | [] \<Rightarrow> task_create name entry sc s = (-1, sc, s)"
proof -
  have "length (tasks sc) = 64" using assms(1) by (simp add: sched_inv_def)
  note fails = task_create_fails [OF this assms(3)]
  show ?thesis
  proof (cases ps)
    case (Cons p ps')
    with fails task_create_succeeds [OF assms(1,2), of s p ps'] assms(3) show ?thesis by auto
  qed (use fails in simp)
qed

section \<open>Initialisation and exit\<close>

lemma scheduler_init_task:
  assumes "length (tasks sc) = 64" "i < 64"
  shows "t_state (tasks (scheduler_init sc) ! i) = (if i = 0 then TASK_RUNNING else TASK_TERMINATED)"
  using assms by (simp add: scheduler_init_def Let_def nth_list_update)

lemma scheduler_init_inv:
  assumes "length (tasks sc) = 64"
  shows "sched_inv (scheduler_init sc)"
proof -
  have "state_of (scheduler_init sc) i = (if i = 0 then TASK_RUNNING else TASK_TERMINATED)"
    if "0 \<le> i" "i < 64" for i
    using scheduler_init_task [OF assms, of "nat i"] that by auto
  then show ?thesis
    using assms by (auto simp: sched_inv_def) (auto simp: scheduler_init_def Let_def)
qed

lemma scheduler_init_names: "length (tasks sc) = 64 \<Longrightarrow> names_ok sc \<Longrightarrow> names_ok (scheduler_init sc)"
  by (simp add: names_ok_def scheduler_init_def Let_def init_name_def all_set_conv_all_nth
      nth_list_update)

lemma find_next_ready_cong:
  assumes "\<And>i. is_ready sc i = is_ready sc' i"
  shows "task_find_next_ready sc from = task_find_next_ready sc' from"
  using assms by (simp add: task_find_next_ready_def find_next_loop_find)

text \<open>The mark that \<open>task_exit\<close> leaves is overwritten by the very next tick.\<close>

lemma tick_after_exit_mark:
  assumes "sched_inv sc" "task_exit_mark sc = Some sc1"
  shows "scheduler_tick r sc1 = scheduler_tick r sc"
proof -
  let ?c = "current_task sc" and ?rsp = "t_rsp_update (\<lambda>_. r)"
  have c: "nat ?c < length (tasks sc)" "0 \<le> ?c" "state_of sc ?c = TASK_RUNNING"
    using sched_inv_current [OF assms(1)] by auto
  have sc1: "sc1 = upd_task ?c (t_state_update (\<lambda>_. TASK_TERMINATED)) sc"
    using assms c by (simp add: task_exit_mark_def)
  have "is_ready (upd_task ?c ?rsp sc1) i = is_ready (upd_task ?c ?rsp sc) i" for i
    using c by (cases "nat i = nat ?c") (auto simp: sc1 is_ready_def)
  then have "task_find_next_ready (upd_task ?c ?rsp sc1) f = task_find_next_ready (upd_task ?c ?rsp sc) f"
    for f by (rule find_next_ready_cong)
  then show ?thesis using c by (simp add: scheduler_tick_def Let_def sc1 nth_list_update)
qed

lemma ticks_terminated:
  assumes "sched_inv sc" "0 \<le> i" "i < 64"
  shows "state_of (ticks rs sc) i = TASK_TERMINATED \<longleftrightarrow> state_of sc i = TASK_TERMINATED"
  using assms(1)
proof (induction rs arbitrary: sc)
  case (Cons r rs)
  have "state_of (snd (scheduler_tick r sc)) i = TASK_TERMINATED \<longleftrightarrow> state_of sc i = TASK_TERMINATED"
  proof (cases "\<exists>j. is_ready sc j")
    case True
    then obtain j where "is_ready sc j" by blast
    then obtain n where n: "is_ready sc n" "snd (scheduler_tick r sc) = switch_to n r sc"
      using tick_switch [OF Cons.prems, of j r thesis] by auto
    with switch_task [OF Cons.prems n(1) assms(2,3), of r] sched_inv_current [OF Cons.prems]
    show ?thesis by (auto simp: is_ready_def)
  next
    case False
    with tick_no_switch [OF Cons.prems, of r] show ?thesis
      using sched_inv_current [OF Cons.prems] by (cases "nat i = nat (current_task sc)") auto
  qed
  with Cons.IH [OF tick_inv [OF Cons.prems, of r]] show ?case by simp
qed simp

text \<open>C33: \<open>task_exit\<close> does not end the calling task. Once the first tick of its yield loop has happened,
  the scheduler is in the state it would be in had the task never called \<open>task_exit\<close>: the task is
  ready or running again, will be scheduled again, and its slot is never free for a new task.\<close>

theorem task_exit_resurrected:
  assumes "sched_inv sc"
  shows "task_exit (r # rs) sc = Some (ticks (r # rs) sc)
     \<and> state_of (ticks (r # rs) sc) (current_task sc) \<noteq> TASK_TERMINATED"
proof -
  have c: "0 \<le> current_task sc" "current_task sc < 64"
    "state_of sc (current_task sc) = TASK_RUNNING" using sched_inv_current [OF assms] by auto
  then obtain sc1 where sc1: "task_exit_mark sc = Some sc1" by (simp add: task_exit_mark_def)
  with tick_after_exit_mark [OF assms sc1, of r] have "task_exit (r # rs) sc = Some (ticks (r # rs) sc)"
    by (simp add: task_exit_def)
  with ticks_terminated [OF assms c(1,2), of "r # rs"] c(3) show ?thesis by simp
qed

text \<open>\<open>scheduler_init\<close> establishes the invariant whatever the table held: task 0 is running, every
  other slot is free, and the first tick does not switch.\<close>

theorem scheduler_init_correct:
  assumes "length (tasks sc) = 64"
  shows "sched_inv (scheduler_init sc) \<and> current_task (scheduler_init sc) = 0
     \<and> (\<forall>i. 0 < i \<and> i < 64 \<longrightarrow> state_of (scheduler_init sc) i = TASK_TERMINATED)
     \<and> fst (scheduler_tick r (scheduler_init sc)) = 0"
proof -
  note inv = scheduler_init_inv [OF assms]
  have c: "current_task (scheduler_init sc) = 0" by (simp add: scheduler_init_def Let_def)
  have t: "\<forall>i. 0 < i \<and> i < 64 \<longrightarrow> state_of (scheduler_init sc) i = TASK_TERMINATED"
    using scheduler_init_task [OF assms] by auto
  have "\<not> is_ready (scheduler_init sc) i" for i
  proof
    assume "is_ready (scheduler_init sc) i"
    with inv have "nat i < 64" "state_of (scheduler_init sc) i = TASK_READY"
      by (auto simp: is_ready_def sched_inv_def)
    with scheduler_init_task [OF assms, of "nat i"] show False by (simp split: if_splits)
  qed
  with tick_no_switch [OF inv] inv c t show ?thesis by auto
qed

section \<open>A concrete schedule\<close>

definition sched_boot :: sched_state where
  "sched_boot = \<lparr>tasks = replicate 64 \<lparr>t_rsp = 0, kernel_stack_top = 0, kernel_stack_size = 0,
     t_state = TASK_READY, t_name = replicate 32 0\<rparr>, task_count = 0, current_task = -1\<rparr>"

definition sched_example :: sched_state where
  "sched_example = created 1 [104, 105] 0x8000 (scheduler_init sched_boot)"

lemma sched_boot_facts: "length (tasks sched_boot) = 64" "names_ok sched_boot"
  by (simp_all add: sched_boot_def names_ok_def)

lemma sched_example_facts: "sched_inv sched_example" "is_ready sched_example 1"
  using created_inv [of "scheduler_init sched_boot" 1 "[104, 105]" "0x8000"]
    scheduler_init_inv [OF sched_boot_facts(1)] scheduler_init_task [OF sched_boot_facts(1), of 1]
  by (simp_all add: sched_example_def)

lemma sched_example_run:
  "current_task sched_example = 0"
  "current_task (ticks [0x100] sched_example) = 1"
  "current_task (ticks [0x100, 0x200] sched_example) = 0"
  by code_simp+

theorem scheduler_tick_round_robin_witness:
  "sched_inv (snd (scheduler_tick 0x100 sched_example))"
  using scheduler_tick_round_robin [OF sched_example_facts(1), of "0x100"] by simp

theorem scheduler_fair_witness:
  "\<exists>k \<le> 1. current_task (ticks (take k [0x100]) sched_example) = 1"
  using scheduler_fair [OF sched_example_facts, of "[0x100]"] by (simp add: sched_example_run)

theorem scheduler_resume_witness:
  "fst (scheduler_tick 0x200 (ticks [0x100] sched_example)) = 0x100"
  using scheduler_resume [OF sched_example_facts(1) refl, of "[]" "0x100" "0x200"]
    sched_example_run by simp

theorem task_exit_resurrected_witness:
  "task_exit [0x100, 0x200] sched_example = Some (ticks [0x100, 0x200] sched_example)
     \<and> state_of (ticks [0x100, 0x200] sched_example) 0 \<noteq> TASK_TERMINATED"
  using task_exit_resurrected [OF sched_example_facts(1), of "0x100" "[0x200]"]
  by (simp only: sched_example_run simp_thms)

theorem scheduler_init_correct_witness:
  "sched_inv (scheduler_init sched_boot) \<and> fst (scheduler_tick 7 (scheduler_init sched_boot)) = 0"
  using scheduler_init_correct [OF sched_boot_facts(1), of 7] by blast

theorem task_create_correct_witness:
  "\<exists>idx sc' s'. task_create [104, 105] 0x1234 (scheduler_init sched_boot)
       (pmm_free 0x5000 pmm_boot_state) = (idx, sc', s')
     \<and> task_started idx 0x5000 [104, 105] 0x1234 (scheduler_init sched_boot)
         (pmm_free 0x5000 pmm_boot_state) sc' s'"
proof -
  have "\<exists>i. 0 \<le> i \<and> i < 64 \<and> state_of (scheduler_init sched_boot) i = TASK_TERMINATED"
    using scheduler_init_task [OF sched_boot_facts(1), of 1] by (intro exI [of _ 1]) simp
  then show ?thesis
    using task_create_correct [OF scheduler_init_inv [OF sched_boot_facts(1)]
      scheduler_init_names [OF sched_boot_facts] pmm_example_inv, of "[104, 105]" "0x1234"] by auto
qed

end
