(* ===== verification/Keyboard.thy ===== *)
theory Keyboard
  imports Machine
begin

text \<open>
  \<open>src/arc/x86_64/drivers/keyboard.c\<close>: the PS/2 keyboard. The interrupt handler translates scan codes,
  tracking the shift keys, and stores characters in a ring buffer of 256 bytes that holds at most
  255; \<open>keyboard_getchar\<close> and \<open>keyboard_read\<close> take them out.

  \<open>kb_contents\<close> abstracts the ring to the list of stored characters, and the ring is shown to be a
  bounded first-in first-out queue (locale \<open>bounded_queue\<close>). A \<open>char\<close> is a byte; returning one
  as an \<open>int\<close> sign-extends it.
\<close>

section \<open>State and operations\<close>

definition KB_BUFFER_SIZE :: nat where
  "KB_BUFFER_SIZE = 256"

record kb_state =
  kb_buffer :: "u8 list"
  kb_head :: nat
  kb_tail :: nat
  shift_pressed :: nat

definition scancode_table :: "u8 list" where
  "scancode_table =
     [0, 27] @ map of_char ''1234567890-='' @ [8] @
     [9] @ map of_char ''qwertyuiop[]'' @ [10] @
     [0] @ map of_char ''asdfghjkl;'' @ [39, 96] @
     [0, 92] @ map of_char ''zxcvbnm,./'' @ [0] @
     map of_char ''*'' @ [0] @ map of_char '' '' @ replicate 70 0"

definition scancode_shift_table :: "u8 list" where
  "scancode_shift_table =
     [0, 27] @ map of_char ''!@#$%^&*()_+'' @ [8] @
     [9] @ map of_char ''QWERTYUIOP{}'' @ [10] @
     [0] @ map of_char ''ASDFGHJKL:'' @ [34, 126] @
     [0, 124] @ map of_char ''ZXCVBNM<>?'' @ [0] @
     map of_char ''*'' @ [0] @ map of_char '' '' @ replicate 70 0"

definition kb_push :: "u8 \<Rightarrow> kb_state \<Rightarrow> kb_state" where
  "kb_push c k =
     (let next = (kb_head k + 1) mod KB_BUFFER_SIZE
      in if next \<noteq> kb_tail k
         then k\<lparr>kb_buffer := (kb_buffer k)[kb_head k := c], kb_head := next\<rparr>
         else k)"

definition kb_scancode :: "u8 \<Rightarrow> kb_state \<Rightarrow> kb_state" where
  "kb_scancode scancode k =
     (if scancode AND 0x80 \<noteq> 0
      then (let released = scancode AND 0x7F
            in if released = 0x2A \<or> released = 0x36 then k\<lparr>shift_pressed := 0\<rparr> else k)
      else if scancode = 0x2A \<or> scancode = 0x36 then k\<lparr>shift_pressed := 1\<rparr>
      else if scancode < 128
      then (let c = (if shift_pressed k \<noteq> 0 then scancode_shift_table ! unat scancode
                     else scancode_table ! unat scancode)
            in if c \<noteq> 0 then kb_push c k else k)
      else k)"

definition keyboard_handler :: "kb_state \<Rightarrow> 'a machine_scheme \<Rightarrow> kb_state \<times> 'a machine_scheme" where
  "keyboard_handler k s = (let (scancode, s1) = inb 0x60 s in (kb_scancode scancode k, s1))"

definition keyboard_getchar :: "kb_state \<Rightarrow> int \<times> kb_state" where
  "keyboard_getchar k =
     (if kb_head k = kb_tail k then (-1, k)
      else (sint (kb_buffer k ! kb_tail k), k\<lparr>kb_tail := (kb_tail k + 1) mod KB_BUFFER_SIZE\<rparr>))"

text \<open>\<open>keyboard_read\<close> halts the processor between two looks at the buffer. Its first argument is the
  sequence of scan codes that the keyboard interrupts deliver while it waits; the result is the
  character, the state and the scan codes still to come, or \<open>None\<close> when it waits for ever.\<close>

fun keyboard_read :: "u8 list \<Rightarrow> kb_state \<Rightarrow> (int \<times> kb_state \<times> u8 list) option" where
  "keyboard_read [] k =
     (let (c, k') = keyboard_getchar k in if c = -1 then None else Some (c, k', []))"
| "keyboard_read (sc # scs) k =
     (let (c, k') = keyboard_getchar k
      in if c = -1 then keyboard_read scs (kb_scancode sc k') else Some (c, k', sc # scs))"

partial_function (option) kb_drain :: "'a machine_scheme \<Rightarrow> 'a machine_scheme option" where
  "kb_drain s =
     (let (status, s1) = inb 0x64 s
      in if status AND 1 \<noteq> 0 then (let (_, s2) = inb 0x60 s1 in kb_drain s2) else Some s1)"

definition keyboard_init :: "kb_state \<Rightarrow> 'a machine_scheme \<Rightarrow> (kb_state \<times> 'a machine_scheme) option" where
  "keyboard_init k s =
     (case kb_drain s of None \<Rightarrow> None | Some s' \<Rightarrow> Some (k\<lparr>kb_head := 0, kb_tail := 0\<rparr>, s'))"

section \<open>Bounded queues\<close>

fun pop_many :: "('q \<Rightarrow> int \<times> 'q) \<Rightarrow> nat \<Rightarrow> 'q \<Rightarrow> int list \<times> 'q" where
  "pop_many pop 0 q = ([], q)"
| "pop_many pop (Suc n) q = (let (c, q1) = pop q; (ds, q2) = pop_many pop n q1 in (c # ds, q2))"

locale bounded_queue =
  fixes push :: "'c \<Rightarrow> 'q \<Rightarrow> 'q"
    and pop :: "'q \<Rightarrow> int \<times> 'q"
    and contents :: "'q \<Rightarrow> 'c list"
    and invar :: "'q \<Rightarrow> bool"
    and enc :: "'c \<Rightarrow> int"
    and capacity :: nat
  assumes push_room: "invar q \<Longrightarrow> length (contents q) < capacity \<Longrightarrow> contents (push c q) = contents q @ [c]"
    and push_full: "invar q \<Longrightarrow> length (contents q) = capacity \<Longrightarrow> push c q = q"
    and pop_empty: "invar q \<Longrightarrow> contents q = [] \<Longrightarrow> pop q = (-1, q)"
    and pop_some: "invar q \<Longrightarrow> contents q = c # ds \<Longrightarrow> fst (pop q) = enc c \<and> contents (snd (pop q)) = ds"
    and invar_push: "invar q \<Longrightarrow> invar (push c q)"
    and invar_pop: "invar q \<Longrightarrow> invar (snd (pop q))"
    and within: "invar q \<Longrightarrow> length (contents q) \<le> capacity"
begin

lemma push_contents: "invar q \<Longrightarrow> contents (push c q) = take capacity (contents q @ [c])"
  using within [of q] push_room [of q c] push_full [of q c]
  by (cases "length (contents q) = capacity") auto

lemma push_all:
  "invar q \<Longrightarrow> invar (fold push xs q) \<and> contents (fold push xs q) = take capacity (contents q @ xs)"
proof (induction xs arbitrary: q)
  case Nil
  then show ?case using within by simp
next
  case (Cons x xs)
  from Cons.IH [OF invar_push [OF Cons.prems], of x] show ?case
    by (simp only: fold_simps comp_apply push_contents [OF Cons.prems] take_take_append) simp
qed

lemma pop_all:
  "invar q \<Longrightarrow> n \<le> length (contents q) \<Longrightarrow>
     fst (pop_many pop n q) = map enc (take n (contents q))
     \<and> contents (snd (pop_many pop n q)) = drop n (contents q) \<and> invar (snd (pop_many pop n q))"
proof (induction n arbitrary: q)
  case 0
  then show ?case by simp
next
  case (Suc n)
  then obtain c ds where c: "contents q = c # ds" by (cases "contents q") auto
  obtain e q1 where p: "pop q = (e, q1)" by (cases "pop q")
  with pop_some [OF Suc.prems(1) c] invar_pop [OF Suc.prems(1)]
  have "e = enc c" "contents q1 = ds" "invar q1" by auto
  with Suc.IH [of q1] Suc.prems c p show ?case by (auto simp: split_beta)
qed

end

section \<open>The ring is a bounded queue\<close>

definition kb_inv :: "kb_state \<Rightarrow> bool" where
  "kb_inv k \<longleftrightarrow> length (kb_buffer k) = 256 \<and> kb_head k < 256 \<and> kb_tail k < 256"

definition kb_length :: "kb_state \<Rightarrow> nat" where
  "kb_length k = (kb_head k + 256 - kb_tail k) mod 256"

definition kb_contents :: "kb_state \<Rightarrow> u8 list" where
  "kb_contents k = map (\<lambda>i. kb_buffer k ! ((kb_tail k + i) mod 256)) [0 ..< kb_length k]"

lemma kb_length_cases:
  "kb_inv k \<Longrightarrow> kb_length k = (if kb_tail k \<le> kb_head k then kb_head k - kb_tail k
     else kb_head k + 256 - kb_tail k)"
  by (auto simp: kb_length_def kb_inv_def mod_if)

lemma kb_length_less: "kb_length k < 256"
  by (simp add: kb_length_def)

lemma kb_contents_Nil: "kb_inv k \<Longrightarrow> kb_contents k = [] \<longleftrightarrow> kb_head k = kb_tail k"
  by (auto simp: kb_contents_def kb_length_cases kb_inv_def split: if_splits)

lemma kb_push_inv: "kb_inv k \<Longrightarrow> kb_inv (kb_push c k)"
  by (auto simp: kb_inv_def kb_push_def KB_BUFFER_SIZE_def Let_def)

lemma kb_getchar_inv: "kb_inv k \<Longrightarrow> kb_inv (snd (keyboard_getchar k))"
  by (auto simp: kb_inv_def keyboard_getchar_def KB_BUFFER_SIZE_def)

lemma kb_full: "kb_inv k \<Longrightarrow> (kb_head k + 1) mod 256 = kb_tail k \<longleftrightarrow> kb_length k = 255"
  by (auto simp: kb_length_cases kb_inv_def mod_if split: if_splits)

lemma kb_push_contents:
  assumes "kb_inv k" "kb_length k < 255"
  shows "kb_contents (kb_push c k) = kb_contents k @ [c]"
proof -
  let ?k = "k\<lparr>kb_buffer := (kb_buffer k)[kb_head k := c], kb_head := (kb_head k + 1) mod 256\<rparr>"
  have k: "kb_push c k = ?k"
    using assms kb_full [OF assms(1)] by (simp add: kb_push_def KB_BUFFER_SIZE_def)
  have inv': "kb_inv ?k" using kb_push_inv [OF assms(1), of c] k by simp
  have len: "kb_length ?k = Suc (kb_length k)"
    using assms inv' by (auto simp: kb_length_cases kb_inv_def mod_if split: if_splits)
  have last: "(kb_tail k + kb_length k) mod 256 = kb_head k"
    using assms by (auto simp: kb_length_cases kb_inv_def mod_if split: if_splits)
  have "(kb_tail k + i) mod 256 \<noteq> kb_head k" if "i < kb_length k" for i
    using assms that by (auto simp: kb_length_cases kb_inv_def mod_if split: if_splits)
  then have "(kb_buffer k)[kb_head k := c] ! ((kb_tail k + i) mod 256)
      = kb_buffer k ! ((kb_tail k + i) mod 256)" if "i < kb_length k" for i
    using that by (metis nth_list_update_neq)
  then show ?thesis
    using assms last unfolding k kb_contents_def len by (simp add: kb_inv_def)
qed

lemma kb_getchar_contents:
  assumes "kb_inv k" "kb_contents k = c # ds"
  shows "fst (keyboard_getchar k) = sint c" "kb_contents (snd (keyboard_getchar k)) = ds"
proof -
  let ?k = "k\<lparr>kb_tail := (kb_tail k + 1) mod 256\<rparr>"
  have ne: "kb_head k \<noteq> kb_tail k" using assms kb_contents_Nil by force
  have inv': "kb_inv ?k" using assms(1) by (simp add: kb_inv_def)
  have len: "kb_length k = Suc (kb_length ?k)"
    using assms(1) inv' ne by (auto simp: kb_length_cases kb_inv_def mod_if split: if_splits)
  have "kb_contents k = kb_buffer k ! (kb_tail k mod 256) # kb_contents ?k"
  proof -
    have "[0 ..< Suc n] = 0 # map Suc [0 ..< n]" for n
      by (simp add: map_Suc_upt upt_conv_Cons)
    then show ?thesis unfolding kb_contents_def len by (simp add: comp_def mod_simps)
  qed
  with assms ne show "fst (keyboard_getchar k) = sint c" "kb_contents (snd (keyboard_getchar k)) = ds"
    by (simp_all add: keyboard_getchar_def KB_BUFFER_SIZE_def kb_inv_def)
qed

interpretation kb_queue: bounded_queue kb_push keyboard_getchar kb_contents kb_inv sint 255
proof unfold_locales
  fix q c ds
  assume inv: "kb_inv q"
  have len: "length (kb_contents q) = kb_length q" by (simp add: kb_contents_def)
  show "length (kb_contents q) \<le> 255" using kb_length_less [of q] len by simp
  show "kb_inv (kb_push c q)" "kb_inv (snd (keyboard_getchar q))"
    using inv by (simp_all add: kb_push_inv kb_getchar_inv)
  show "kb_contents (kb_push c q) = kb_contents q @ [c]" if "length (kb_contents q) < 255"
    using inv that len by (simp add: kb_push_contents)
  show "kb_push c q = q" if "length (kb_contents q) = 255"
    using that len kb_full [OF inv] by (simp add: kb_push_def KB_BUFFER_SIZE_def)
  show "keyboard_getchar q = (-1, q)" if "kb_contents q = []"
    using that kb_contents_Nil [OF inv] by (simp add: keyboard_getchar_def)
  show "fst (keyboard_getchar q) = sint c \<and> kb_contents (snd (keyboard_getchar q)) = ds"
    if "kb_contents q = c # ds"
    using kb_getchar_contents [OF inv that] by simp
qed

section \<open>What a sequence of scan codes types\<close>

definition key_char :: "bool \<Rightarrow> u8 \<Rightarrow> u8 option" where
  "key_char shifted sc =
     (if 128 \<le> sc then None
      else (let c = (if shifted then scancode_shift_table else scancode_table) ! unat sc
            in if c = 0 then None else Some c))"

definition shift_press :: "u8 \<Rightarrow> bool" where
  "shift_press sc \<longleftrightarrow> sc = 0x2A \<or> sc = 0x36"

definition shift_release :: "u8 \<Rightarrow> bool" where
  "shift_release sc \<longleftrightarrow> sc = 0xAA \<or> sc = 0xB6"

fun typed :: "bool \<Rightarrow> u8 list \<Rightarrow> u8 list" where
  "typed shifted [] = []"
| "typed shifted (sc # scs) =
     (if shift_press sc then typed True scs
      else if shift_release sc then typed False scs
      else case key_char shifted sc of
             None \<Rightarrow> typed shifted scs
           | Some c \<Rightarrow> c # typed shifted scs)"

text \<open>Bit 7 of a scan code marks a release; the two shift keys are 0x2A and 0x36.\<close>

lemma release_codes:
  "((sc::u8) AND 0x80 \<noteq> 0 \<longleftrightarrow> 128 \<le> sc) \<and>
   (sc AND 0x80 \<noteq> 0 \<and> (sc AND 0x7F = 0x2A \<or> sc AND 0x7F = 0x36) \<longleftrightarrow> sc = 0xAA \<or> sc = 0xB6)"
  by (rule all_bytes [where P = "\<lambda>sc. (sc AND 0x80 \<noteq> 0 \<longleftrightarrow> 128 \<le> sc) \<and>
     (sc AND 0x80 \<noteq> 0 \<and> (sc AND 0x7F = 0x2A \<or> sc AND 0x7F = 0x36) \<longleftrightarrow> sc = 0xAA \<or> sc = 0xB6)"])
     code_simp

lemma key_char_plain: "key_char shifted sc = Some c \<Longrightarrow> 0 < c \<and> c < 128"
proof -
  have "list_all (\<lambda>c. c < 128) scancode_table" "list_all (\<lambda>c. c < 128) scancode_shift_table"
    "length scancode_table = 128" "length scancode_shift_table = 128"
    by code_simp+
  moreover assume "key_char shifted sc = Some c"
  ultimately show ?thesis
    by (auto simp: key_char_def Let_def list_all_length word_less_nat_alt word_le_nat_alt
        word_gt_0_no word_neq_0_conv split: if_splits)
qed

lemma kb_scancode_spec:
  "kb_scancode sc k =
     (if shift_press sc then k\<lparr>shift_pressed := 1\<rparr>
      else if shift_release sc then k\<lparr>shift_pressed := 0\<rparr>
      else case key_char (shift_pressed k \<noteq> 0) sc of None \<Rightarrow> k | Some c \<Rightarrow> kb_push c k)"
proof (cases "128 \<le> sc")
  case True
  with release_codes [of sc] have "sc AND 0x80 \<noteq> 0" "\<not> shift_press sc"
    "sc AND 0x7F = 0x2A \<or> sc AND 0x7F = 0x36 \<longleftrightarrow> shift_release sc"
    by (auto simp: shift_press_def shift_release_def)
  with True show ?thesis by (simp add: kb_scancode_def key_char_def)
next
  case False
  with release_codes [of sc] have "sc AND 0x80 = 0" "\<not> shift_release sc"
    by (auto simp: shift_release_def)
  with False show ?thesis
    by (auto simp: kb_scancode_def key_char_def shift_press_def Let_def)
qed

lemma kb_contents_shift [simp]:
  "kb_contents (k\<lparr>shift_pressed := b\<rparr>) = kb_contents k" "kb_inv (k\<lparr>shift_pressed := b\<rparr>) = kb_inv k"
  by (simp_all add: kb_contents_def kb_length_def kb_inv_def)

lemma kb_push_shift [simp]: "shift_pressed (kb_push c k) = shift_pressed k"
  by (simp add: kb_push_def Let_def)

lemma kb_scancode_inv: "kb_inv k \<Longrightarrow> kb_inv (kb_scancode sc k)"
  by (auto simp: kb_scancode_spec kb_push_inv split: option.split)

lemma kb_typed:
  "kb_inv k \<Longrightarrow> kb_inv (fold kb_scancode scs k) \<and>
     kb_contents (fold kb_scancode scs k) = take 255 (kb_contents k @ typed (shift_pressed k \<noteq> 0) scs)"
proof (induction scs arbitrary: k)
  case Nil
  then show ?case using kb_queue.within by simp
next
  case (Cons sc scs)
  have inv: "kb_inv (kb_scancode sc k)" using Cons.prems by (rule kb_scancode_inv)
  note IH = Cons.IH [OF inv]
  show ?case
  proof (cases "key_char (shift_pressed k \<noteq> 0) sc")
    case None
    with IH show ?thesis by (simp add: kb_scancode_spec)
  next
    case (Some c)
    show ?thesis
    proof (cases "shift_press sc \<or> shift_release sc")
      case True
      with IH show ?thesis by (auto simp: kb_scancode_spec)
    next
      case False
      with Some have "kb_scancode sc k = kb_push c k" by (simp add: kb_scancode_spec)
      with IH False Some show ?thesis
        using kb_queue.push_contents [OF Cons.prems, of c] take_take_append [of 255 "kb_contents k @ [c]"]
        by simp
    qed
  qed
qed

lemma typed_plain: "c \<in> set (typed shifted scs) \<Longrightarrow> 0 < c \<and> c < 128"
  by (induction shifted scs rule: typed.induct)
     (auto split: if_splits option.splits dest: key_char_plain)

lemma plain_sint: "0 < (c::u8) \<and> c < 128 \<Longrightarrow> sint c = int (unat c) \<and> 0 < sint c"
proof -
  have "0 < c \<and> c < 128 \<longrightarrow> sint c = int (unat c) \<and> 0 < sint c"
    by (rule all_bytes [where P = "\<lambda>c. 0 < c \<and> c < 128 \<longrightarrow> sint c = int (unat c) \<and> 0 < sint c"]) code_simp
  then show "0 < c \<and> c < 128 \<Longrightarrow> ?thesis" by blast
qed

section \<open>Properties\<close>

text \<open>C25: characters come out in the order they were typed. Starting from an empty buffer, after
  the interrupts for any sequence of scan codes, reading \<open>n\<close> characters returns the first \<open>n\<close> of the
  first 255 characters that the sequence types; what comes after the buffer is full is lost, and
  once all have been read the next read returns -1.\<close>

theorem keyboard_fifo:
  assumes "kb_inv k" "kb_head k = kb_tail k"
    and "chars = take 255 (typed (shift_pressed k \<noteq> 0) scs)" and "n \<le> length chars"
  shows "fst (pop_many keyboard_getchar n (fold kb_scancode scs k)) = map (\<lambda>c. int (unat c)) (take n chars)
    \<and> (n = length chars \<longrightarrow>
        fst (keyboard_getchar (snd (pop_many keyboard_getchar n (fold kb_scancode scs k)))) = -1)"
proof -
  let ?k = "fold kb_scancode scs k"
  have k: "kb_inv ?k" "kb_contents ?k = chars"
    using kb_typed [OF assms(1), of scs] kb_contents_Nil [OF assms(1)] assms(2,3) by auto
  note pop = kb_queue.pop_all [OF k(1), of n]
  have "map sint (take n chars) = map (\<lambda>c. int (unat c)) (take n chars)"
    using assms(3) by (auto dest!: in_set_takeD typed_plain plain_sint)
  with pop k(2) assms(4) have "fst (pop_many keyboard_getchar n ?k) = map (\<lambda>c. int (unat c)) (take n chars)"
    by simp
  moreover have "fst (keyboard_getchar (snd (pop_many keyboard_getchar n ?k))) = -1" if "n = length chars"
    using pop k(2) that kb_queue.pop_empty [of "snd (pop_many keyboard_getchar n ?k)"] by simp
  ultimately show ?thesis by blast
qed

definition kb_boot :: kb_state where
  "kb_boot = \<lparr>kb_buffer = replicate 256 0, kb_head = 0, kb_tail = 0, shift_pressed = 0\<rparr>"

text \<open>The keys h, shift-i, and the release of h and shift in between type \<open>hI\<close>.\<close>

theorem keyboard_fifo_witness:
  "fst (pop_many keyboard_getchar 2 (fold kb_scancode [0x23, 0xA3, 0x2A, 0x17, 0xAA] kb_boot))
     = map (\<lambda>c. int (unat c)) (map of_char ''hI'' :: u8 list)"
proof -
  have "typed False [0x23, 0xA3, 0x2A, 0x17, 0xAA] = map of_char ''hI''" by code_simp
  moreover have "kb_inv kb_boot" "kb_head kb_boot = kb_tail kb_boot" "shift_pressed kb_boot = 0"
    by (simp_all add: kb_boot_def kb_inv_def)
  ultimately show ?thesis
    using keyboard_fifo [of kb_boot "map of_char ''hI''" "[0x23, 0xA3, 0x2A, 0x17, 0xAA]" 2] by simp
qed

text \<open>Every interrupt keeps the ring well formed, and appends exactly the character that its
  scan code types under the current shift state, unless the 255 places are taken.\<close>

theorem keyboard_handler_correct:
  assumes "kb_inv k" and "keyboard_handler k s = (k', s')"
  shows "kb_inv k' \<and> port_rd s' = (port_rd s)(0x60 := Suc (port_rd s 0x60))
    \<and> kb_contents k' = take 255 (kb_contents k
         @ typed (shift_pressed k \<noteq> 0) [port_in s 0x60 (port_rd s 0x60)])"
proof -
  from assms(2) have k': "k' = fold kb_scancode [port_in s 0x60 (port_rd s 0x60)] k"
    and s': "port_rd s' = (port_rd s)(0x60 := Suc (port_rd s 0x60))"
    by (auto simp: keyboard_handler_def inb_def)
  show ?thesis
    unfolding k' using kb_typed [OF assms(1), of "[port_in s 0x60 (port_rd s 0x60)]"] s' by blast
qed

definition kb_machine :: machine where
  "kb_machine = \<lparr>mem = (\<lambda>_. 0), cr3 = 0, if_flag = True, port_in = (\<lambda>_ _. 0x1E), port_rd = (\<lambda>_. 0), hw_log = []\<rparr>"

theorem keyboard_handler_correct_witness:
  "kb_contents (fst (keyboard_handler kb_boot kb_machine)) = map of_char ''a''"
proof -
  have "kb_inv kb_boot" by (simp add: kb_boot_def kb_inv_def)
  from keyboard_handler_correct [OF this, of kb_machine "fst (keyboard_handler kb_boot kb_machine)"
      "snd (keyboard_handler kb_boot kb_machine)"]
  have "kb_contents (fst (keyboard_handler kb_boot kb_machine)) = take 255 (kb_contents kb_boot
      @ typed (shift_pressed kb_boot \<noteq> 0) [port_in kb_machine 0x60 (port_rd kb_machine 0x60)])" by simp
  moreover have "typed False [0x1E] = map of_char ''a''" by code_simp
  ultimately show ?thesis by (simp add: kb_boot_def kb_machine_def kb_contents_def kb_length_def)
qed

text \<open>C26: \<open>keyboard_read\<close> returns as soon as there is a character. If the buffered characters
  followed by what the coming scan codes type start with \<open>c\<close>, the call returns \<open>c\<close>; if that
  sequence is empty, it waits for ever.\<close>

theorem keyboard_read_returns:
  assumes "kb_inv k" "list_all (\<lambda>c. 0 < c \<and> c < 128) (kb_contents k)"
  shows "case kb_contents k @ typed (shift_pressed k \<noteq> 0) scs of
      [] \<Rightarrow> keyboard_read scs k = None
    | c # _ \<Rightarrow> \<exists>k' scs'. keyboard_read scs k = Some (int (unat c), k', scs')"
  using assms
proof (induction scs arbitrary: k)
  case Nil
  then show ?case
  proof (cases "kb_contents k")
    case Nil
    with kb_queue.pop_empty [OF \<open>kb_inv k\<close>] show ?thesis by simp
  next
    case (Cons c ds)
    with Nil.prems kb_queue.pop_some [OF Nil.prems(1) Cons] plain_sint [of c] show ?thesis
      by (auto simp: split_beta)
  qed
next
  case (Cons sc scs)
  show ?case
  proof (cases "kb_contents k")
    case (Cons c ds)
    with Cons.prems kb_queue.pop_some [OF \<open>kb_inv k\<close> Cons] plain_sint [of c] show ?thesis
      by (auto simp: split_beta)
  next
    case Nil
    have read: "keyboard_read (sc # scs) k = keyboard_read scs (kb_scancode sc k)"
      using kb_queue.pop_empty [OF Cons.prems(1) Nil] by simp
    have con: "kb_contents (kb_scancode sc k) = take 255 (typed (shift_pressed k \<noteq> 0) [sc])"
      using kb_typed [OF Cons.prems(1), of "[sc]"] Nil by simp
    have split: "typed (shift_pressed k \<noteq> 0) (sc # scs)
        = kb_contents (kb_scancode sc k) @ typed (shift_pressed (kb_scancode sc k) \<noteq> 0) scs"
      unfolding con by (auto simp: kb_scancode_spec split: option.split)
    have "list_all (\<lambda>c. 0 < c \<and> c < 128) (kb_contents (kb_scancode sc k))"
      unfolding con list_all_iff by (blast dest: in_set_takeD typed_plain)
    from Cons.IH [OF kb_scancode_inv [OF Cons.prems(1)] this] show ?thesis
      unfolding read split Nil append_Nil .
  qed
qed

theorem keyboard_read_returns_witness:
  "\<exists>k' scs'. keyboard_read [0x2A, 0x1E] kb_boot = Some (65, k', scs')"
proof -
  have "kb_inv kb_boot" "list_all (\<lambda>c. 0 < c \<and> c < 128) (kb_contents kb_boot)"
    by (simp_all add: kb_boot_def kb_inv_def kb_contents_def kb_length_def)
  moreover have "kb_contents kb_boot @ typed (shift_pressed kb_boot \<noteq> 0) [0x2A, 0x1E] = [65]" by code_simp
  ultimately show ?thesis using keyboard_read_returns [of kb_boot "[0x2A, 0x1E]"] by simp
qed

text \<open>The driver keeps one flag for both shift keys: with both held down, releasing the left one
  turns shift off although the right one is still pressed, and the key a types a small a.\<close>

theorem keyboard_two_shifts:
  "kb_contents (fold kb_scancode [0x2A, 0x36, 0xAA, 0x1E] kb_boot) = map of_char ''a''"
proof -
  have "kb_inv kb_boot" by (simp add: kb_boot_def kb_inv_def)
  moreover have "kb_contents kb_boot @ typed (shift_pressed kb_boot \<noteq> 0) [0x2A, 0x36, 0xAA, 0x1E]
      = map of_char ''a''" by code_simp
  ultimately show ?thesis using kb_typed [of kb_boot "[0x2A, 0x36, 0xAA, 0x1E]"] by simp
qed

end
