(* ===== verification/Serial.thy ===== *)
theory Serial
  imports Machine
begin

text \<open>
  \<open>src/kernel/serial.c\<close> and \<open>src/kernel/panic.c\<close>: the polled COM1 driver, the printing of numbers, and
  the two ways the kernel stops. \<open>serial_putchar\<close> waits until the transmitter is empty; whether that
  ever happens is up to the device, so the wait is a \<open>partial_function\<close>, and \<open>serial_live\<close> names the
  hypothesis that the device always becomes ready again.

  The two number printers of the kernel (here and in the framebuffer console) build the digits in a
  buffer on the stack and print it as a string. The locale \<open>console\<close> states what printing needs of a
  device and proves for every console that the text is the number.
\<close>

section \<open>The driver\<close>

definition SERIAL_COM1 :: u16 where
  "SERIAL_COM1 = 0x3F8"

definition serial_init :: "'a machine_scheme \<Rightarrow> 'a machine_scheme" where
  "serial_init s =
     (let s1 = outb (SERIAL_COM1 + 1) 0x00 s;
          s2 = outb (SERIAL_COM1 + 3) 0x80 s1;
          s3 = outb (SERIAL_COM1 + 0) 0x03 s2;
          s4 = outb (SERIAL_COM1 + 1) 0x00 s3;
          s5 = outb (SERIAL_COM1 + 3) 0x03 s4;
          s6 = outb (SERIAL_COM1 + 2) 0xC7 s5
      in outb (SERIAL_COM1 + 4) 0x0B s6)"

definition serial_tx_empty :: "'a machine_scheme \<Rightarrow> bool \<times> 'a machine_scheme" where
  "serial_tx_empty s = (let (b, s1) = inb (SERIAL_COM1 + 5) s in (b AND 0x20 \<noteq> 0, s1))"

partial_function (option) serial_wait :: "'a machine_scheme \<Rightarrow> 'a machine_scheme option" where
  "serial_wait s = (let (ready, s1) = serial_tx_empty s in if ready then Some s1 else serial_wait s1)"

definition serial_putchar :: "u8 \<Rightarrow> 'a machine_scheme \<Rightarrow> 'a machine_scheme option" where
  "serial_putchar c s = map_option (outb SERIAL_COM1 c) (serial_wait s)"

text \<open>A C string is the list of its bytes; a byte 0 ends it.\<close>

fun serial_puts :: "u8 list \<Rightarrow> 'a machine_scheme \<Rightarrow> 'a machine_scheme option" where
  "serial_puts [] s = Some s"
| "serial_puts (c # str) s =
     (if c = 0 then Some s
      else Option.bind (if c = 10 then serial_putchar 13 s else Some s)
             (\<lambda>s1. Option.bind (serial_putchar c s1) (serial_puts str)))"

text \<open>String literals.\<close>

definition lit :: "string \<Rightarrow> u8 list" where
  "lit str = map of_char str"

subsection \<open>Numbers\<close>

text \<open>The loop over the digits of \<open>put_hex\<close>, with the loop variable \<open>i\<close> from 15 down to 0.\<close>

definition hex_digit :: "u64 \<Rightarrow> nat \<Rightarrow> u8" where
  "hex_digit value i =
     (let digit = drop_bit (i * 4) value AND 0xF
      in if digit < 10 then 48 + ucast digit else 97 + ucast digit - 10)"

fun hex_loop :: "u64 \<Rightarrow> nat list \<Rightarrow> u8 list \<Rightarrow> u8 list" where
  "hex_loop value [] buf = buf"
| "hex_loop value (i # is) buf = hex_loop value is (buf[17 - i := hex_digit value i])"

definition hex_buf :: "u64 \<Rightarrow> u8 list" where
  "hex_buf value =
     (let buf = (replicate 19 0)[0 := 48, 1 := 120]
      in (hex_loop value (rev [0 ..< 16]) buf)[18 := 0])"

text \<open>The loop of \<open>put_dec\<close>: digits from the end of the buffer. The result is \<open>&buf[i]\<close>.\<close>

function dec_loop :: "u64 \<Rightarrow> nat \<Rightarrow> u8 list \<Rightarrow> nat \<times> u8 list" where
  "dec_loop v i buf =
     (if 0 < v then dec_loop (v div 10) (i - 1) (buf[i - 1 := 48 + ucast (v mod 10)]) else (i, buf))"
  by pat_completeness auto
termination
  by (relation "measure (\<lambda>(v, i, buf). unat v)")
    (auto simp: unat_div word_less_nat_alt intro!: div_less_dividend)

declare dec_loop.simps [simp del]

definition dec_buf :: "u64 \<Rightarrow> u8 list" where
  "dec_buf value = (let (i, buf) = dec_loop value 20 ((replicate 21 0)[20 := 0]) in drop i buf)"

definition serial_put_hex :: "u64 \<Rightarrow> 'a machine_scheme \<Rightarrow> 'a machine_scheme option" where
  "serial_put_hex value s = serial_puts (hex_buf value) s"

definition serial_put_dec :: "u64 \<Rightarrow> 'a machine_scheme \<Rightarrow> 'a machine_scheme option" where
  "serial_put_dec value s =
     (if value = 0 then serial_putchar 48 s else serial_puts (dec_buf value) s)"

subsection \<open>Panic\<close>

text \<open>\<open>for (;;) { cli; hlt; }\<close> never returns; the state after \<open>k\<close> rounds of it.\<close>

definition halt_round :: "'a machine_scheme \<Rightarrow> 'a machine_scheme" where
  "halt_round s = hw_emit Hlt (cli s)"

definition panic :: "u8 list \<Rightarrow> nat \<Rightarrow> 'a machine_scheme \<Rightarrow> 'a machine_scheme option" where
  "panic message k s =
     Option.bind (serial_puts (10 # lit ''=== KERNEL PANIC ==='' @ [10]) (cli s))
       (\<lambda>s1. Option.bind (serial_puts message s1)
       (\<lambda>s2. Option.bind (serial_puts (10 # lit ''System halted.'' @ [10]) s2)
       (\<lambda>s3. Some ((halt_round ^^ k) s3))))"

definition panic_assert ::
    "u8 list \<Rightarrow> u64 \<Rightarrow> u8 list \<Rightarrow> nat \<Rightarrow> 'a machine_scheme \<Rightarrow> 'a machine_scheme option" where
  "panic_assert file line desc k s =
     Option.bind (serial_puts (10 # lit ''=== ASSERTION FAILED ==='' @ 10 # lit ''File: '') (cli s))
       (\<lambda>s1. Option.bind (serial_puts file s1)
       (\<lambda>s2. Option.bind (serial_puts (10 # lit ''Line: '') s2)
       (\<lambda>s3. Option.bind (serial_put_dec line s3)
       (\<lambda>s4. Option.bind (serial_puts (10 # lit ''Condition: '') s4)
       (\<lambda>s5. Option.bind (serial_puts desc s5)
       (\<lambda>s6. Option.bind (serial_puts (10 # lit ''System halted.'' @ [10]) s6)
       (\<lambda>s7. Some ((halt_round ^^ k) s7))))))))"

section \<open>Digits\<close>

definition digit_value :: "u8 \<Rightarrow> nat" where
  "digit_value c = (if c < 58 then unat c - 48 else unat c - 87)"

definition parse_digits :: "nat \<Rightarrow> u8 list \<Rightarrow> nat" where
  "parse_digits base ds = foldl (\<lambda>n c. base * n + digit_value c) 0 ds"

lemma parse_digits_simps [simp]:
  "parse_digits b [] = 0" "parse_digits b (ds @ [c]) = b * parse_digits b ds + digit_value c"
  by (simp_all add: parse_digits_def)

lemma hex_digit_cases:
  assumes "d < 16"
  shows "digit_value (if (of_nat d :: u64) < 10 then 48 + ucast (of_nat d :: u64)
      else 97 + ucast (of_nat d :: u64) - 10) = d"
proof -
  have "d \<in> set [0 ..< 16]" using assms by simp
  moreover have "list_all (\<lambda>d. digit_value (if (of_nat d :: u64) < 10 then 48 + ucast (of_nat d :: u64)
      else 97 + ucast (of_nat d :: u64) - 10) = d) [0 ..< 16]"
    by code_simp
  ultimately show ?thesis by (simp only: list_all_iff)
qed

lemma hex_digit_value: "digit_value (hex_digit v i) = unat v div 16 ^ i mod 16"
proof -
  let ?d = "drop_bit (i * 4) v AND 0xF"
  have "?d = take_bit 4 (drop_bit (i * 4) v)" by (simp add: take_bit_eq_mask mask_eq_exp_minus_1)
  then have "unat ?d = take_bit 4 (drop_bit (i * 4) (unat v))"
    by (simp only: unsigned_take_bit_eq unat_drop_bit_eq)
  also have "\<dots> = unat v div 16 ^ i mod 16"
    by (simp add: take_bit_eq_mod drop_bit_eq_div power_mult mult.commute [of i])
  finally have d: "unat ?d = unat v div 16 ^ i mod 16" .
  moreover have "of_nat (unat ?d) = ?d" by simp
  ultimately have "?d = of_nat (unat v div 16 ^ i mod 16)" by simp
  then show ?thesis
    using hex_digit_cases [of "unat v div 16 ^ i mod 16"] by (simp add: hex_digit_def Let_def)
qed

definition hex_digits :: "u64 \<Rightarrow> u8 list" where
  "hex_digits v = map (hex_digit v) (rev [0 ..< 16])"

lemma parse_hex_rev: "parse_digits 16 (map (hex_digit v) (rev [i ..< i + n])) = unat v div 16 ^ i mod 16 ^ n"
proof (induction n arbitrary: i)
  case (Suc n)
  have "rev [i ..< i + Suc n] = rev [Suc i ..< Suc i + n] @ [i]"
    by (metis add_Suc_right add_Suc_shift less_add_Suc1 rev.simps(2) upt_conv_Cons)
  then have "parse_digits 16 (map (hex_digit v) (rev [i ..< i + Suc n]))
      = 16 * (unat v div 16 ^ Suc i mod 16 ^ n) + unat v div 16 ^ i mod 16"
    using Suc.IH [of "Suc i"] by (simp add: hex_digit_value del: upt_Suc)
  also have "unat v div 16 ^ Suc i = unat v div 16 ^ i div 16"
    by (simp only: power_Suc2 div_mult2_eq)
  also have "16 * (unat v div 16 ^ i div 16 mod 16 ^ n) + unat v div 16 ^ i mod 16
      = unat v div 16 ^ i mod 16 ^ Suc n"
    by (simp add: mod_mult2_eq)
  finally show ?case .
qed simp

lemma parse_hex_digits: "parse_digits 16 (hex_digits v) = unat v"
  using parse_hex_rev [of v 0 16] unat_u64_less(1) [of v] by (simp add: hex_digits_def)

lemma upt16: "rev [0 ..< 16] = [15, 14, 13, 12, 11, 10, 9, 8, 7, 6, 5, 4, 3, 2, 1, 0::nat]"
  by code_simp

lemma hex_buf_text: "hex_buf v = 48 # 120 # hex_digits v @ [0]"
  by (simp add: hex_buf_def hex_digits_def upt16 numeral_eq_Suc)

text \<open>The decimal digits, most significant first.\<close>

fun dec_digits :: "nat \<Rightarrow> u8 list" where
  "dec_digits n = (if n = 0 then [] else dec_digits (n div 10) @ [48 + of_nat (n mod 10)])"

declare dec_digits.simps [simp del]

lemma dec_digits_0 [simp]: "dec_digits 0 = []"
  by (simp add: dec_digits.simps)

lemma dec_digits_length: "n < 10 ^ k \<Longrightarrow> length (dec_digits n) \<le> k"
proof (induction n arbitrary: k rule: dec_digits.induct)
  case (1 n)
  show ?case
  proof (cases "n = 0")
    case False
    with "1.prems" obtain k' where k: "k = Suc k'" by (cases k) auto
    with "1.prems" have "n div 10 < 10 ^ k'" by (simp add: less_mult_imp_div_less mult.commute)
    with "1.IH" False k show ?thesis by (simp add: dec_digits.simps [of n])
  qed simp
qed

lemma dec_digit_ok:
  assumes "d < 10"
  shows "digit_value (48 + of_nat d) = d" "(48 + of_nat d :: u8) \<noteq> 0" "(48 + of_nat d :: u8) \<noteq> 10"
    "0 < d \<longrightarrow> (48 + of_nat d :: u8) \<noteq> 48"
proof -
  have "d \<in> set [0 ..< 10]" using assms by simp
  moreover have "list_all (\<lambda>d. digit_value (48 + of_nat d) = d \<and> (48 + of_nat d :: u8) \<noteq> 0
      \<and> (48 + of_nat d :: u8) \<noteq> 10 \<and> (0 < d \<longrightarrow> (48 + of_nat d :: u8) \<noteq> 48)) [0 ..< 10]"
    by code_simp
  ultimately have "digit_value (48 + of_nat d) = d \<and> (48 + of_nat d :: u8) \<noteq> 0
      \<and> (48 + of_nat d :: u8) \<noteq> 10 \<and> (0 < d \<longrightarrow> (48 + of_nat d :: u8) \<noteq> 48)"
    unfolding list_all_iff by blast
  then show "digit_value (48 + of_nat d) = d" "(48 + of_nat d :: u8) \<noteq> 0" "(48 + of_nat d :: u8) \<noteq> 10"
    "0 < d \<longrightarrow> (48 + of_nat d :: u8) \<noteq> 48" by blast+
qed

lemma parse_dec_digits: "parse_digits 10 (dec_digits n) = n"
  by (induction n rule: dec_digits.induct) (subst dec_digits.simps, auto simp: dec_digit_ok)

lemma dec_digits_text: "c \<in> set (dec_digits n) \<Longrightarrow> c \<noteq> 0 \<and> c \<noteq> 10"
  by (induction n rule: dec_digits.induct)
    (subst (asm) (2) dec_digits.simps, auto simp: dec_digit_ok split: if_splits)

lemma dec_digits_head: "0 < n \<Longrightarrow> dec_digits n \<noteq> [] \<and> hd (dec_digits n) \<noteq> 48"
proof (induction n rule: dec_digits.induct)
  case (1 n)
  show ?case
  proof (cases "n < 10")
    case True
    with 1 dec_digit_ok(4) [OF True] show ?thesis by (simp add: dec_digits.simps [of n])
  next
    case False
    with 1 show ?thesis by (simp add: dec_digits.simps [of n])
  qed
qed

lemma dec_loop_digits:
  "unat v < 10 ^ i \<Longrightarrow> i \<le> length buf \<Longrightarrow>
     dec_loop v i buf = (i - length (dec_digits (unat v)),
       take (i - length (dec_digits (unat v))) buf @ dec_digits (unat v) @ drop i buf)"
proof (induction v i buf rule: dec_loop.induct)
  case (1 v i buf)
  show ?case
  proof (cases "0 < v")
    case False
    then have "v = 0" by (simp add: word_gt_0)
    then show ?thesis by (simp add: dec_loop.simps [of 0])
  next
    case True
    then have v: "unat v \<noteq> 0" by (metis unat_eq_zero word_neq_0_conv)
    with "1.prems" obtain j where i: "i = Suc j" by (cases i) auto
    have dv: "unat (v div 10) = unat v div 10" by (simp add: unat_div)
    have lt: "unat (v div 10) < 10 ^ j"
      using "1.prems"(1) by (simp add: dv i less_mult_imp_div_less mult.commute)
    have "of_nat (unat (v mod 10)) = (ucast (v mod 10) :: u8)" by simp
    moreover have "unat (v mod 10) = unat v mod 10" by (simp add: unat_mod)
    ultimately have d: "(ucast (v mod 10) :: u8) = of_nat (unat v mod 10)" by (simp only:)
    let ?n = "length (dec_digits (unat v div 10))"
    have n: "?n \<le> j" using dec_digits_length lt dv by simp
    have "dec_loop v i buf = dec_loop (v div 10) (i - 1) (buf[i - 1 := 48 + ucast (v mod 10)])"
      using True by (simp add: dec_loop.simps [of v])
    also have "\<dots> = (j - ?n, take (j - ?n) (buf[j := 48 + ucast (v mod 10)]) @ dec_digits (unat v div 10)
        @ drop j (buf[j := 48 + ucast (v mod 10)]))"
      using "1.IH" [OF True] lt "1.prems"(2) by (simp add: i dv)
    also have "drop j (buf[j := 48 + ucast (v mod 10)]) = (48 + of_nat (unat v mod 10)) # drop i buf"
      using "1.prems"(2) by (simp add: i d upd_conv_take_nth_drop)
    finally show ?thesis
      using n "1.prems"(2) v by (simp add: dec_digits.simps [of "unat v"] i)
  qed
qed

lemma dec_buf_text: "dec_buf v = dec_digits (unat v) @ [0]"
proof -
  have "unat v < 10 ^ 20" using unat_u64_less(1) [of v] by simp
  then have "dec_loop v 20 ((replicate 21 0)[20 := 0]) = (20 - length (dec_digits (unat v)),
      take (20 - length (dec_digits (unat v))) ((replicate 21 0)[20 := 0]) @ dec_digits (unat v)
      @ drop 20 ((replicate 21 0)[20 := 0]))"
    by (intro dec_loop_digits) simp_all
  moreover have "length (dec_digits (unat v)) \<le> 20"
    using \<open>unat v < 10 ^ 20\<close> by (rule dec_digits_length)
  ultimately show ?thesis by (simp add: dec_buf_def numeral_eq_Suc)
qed

section \<open>Consoles\<close>

text \<open>Sending a list of bytes, one after the other.\<close>

primrec send :: "(u8 \<Rightarrow> 's \<Rightarrow> 's option) \<Rightarrow> u8 list \<Rightarrow> 's \<Rightarrow> 's option" where
  "send putc [] s = Some s"
| "send putc (c # str) s = Option.bind (putc c s) (send putc str)"

lemma send_append: "send putc (xs @ ys) s = Option.bind (send putc xs s) (send putc ys)"
  by (induction xs arbitrary: s) (auto split: Option.bind_split)

text \<open>A console prints a string byte by byte up to its terminator, a byte \<open>c\<close> as the bytes \<open>expand c\<close>.\<close>

locale console =
  fixes putc :: "u8 \<Rightarrow> 's \<Rightarrow> 's option"
    and puts :: "u8 list \<Rightarrow> 's \<Rightarrow> 's option"
    and expand :: "u8 \<Rightarrow> u8 list"
  assumes puts_Nil: "puts [] s = Some s"
    and puts_Cons: "puts (c # str) s =
      (if c = 0 then Some s else Option.bind (send putc (expand c) s) (puts str))"
    and expand_plain: "c \<noteq> 10 \<Longrightarrow> expand c = [c]"
begin

lemma puts_text:
  "0 \<notin> set str \<Longrightarrow> puts (str @ 0 # rest) s = send putc (concat (map expand str)) s"
  by (induction str arbitrary: s) (auto simp: puts_Cons send_append split: Option.bind_split)

lemma puts_literal: "0 \<notin> set str \<Longrightarrow> puts str s = send putc (concat (map expand str)) s"
  by (induction str arbitrary: s) (auto simp: puts_Nil puts_Cons send_append split: Option.bind_split)

lemma expand_digits: "10 \<notin> set str \<Longrightarrow> concat (map expand str) = str"
  by (induction str) (auto simp: expand_plain)

lemma puts_hex: "puts (hex_buf v) s = send putc (48 # 120 # hex_digits v) s"
proof -
  have "hex_digit v i \<noteq> 0 \<and> hex_digit v i \<noteq> 10" for i
  proof -
    let ?P = "\<lambda>d::u64. (if d < 10 then 48 + ucast d else 97 + ucast d - 10 :: u8) \<notin> {0, 10}"
    have "drop_bit (i * 4) v AND 0xF \<le> 0xF" by (rule word_and_le1)
    then have "unat (drop_bit (i * 4) v AND 0xF) < 16" by (simp add: word_le_nat_alt)
    then have "drop_bit (i * 4) v AND 0xF \<in> set (map of_nat [0 ..< 16])"
      by (intro image_eqI [of _ _ "unat (drop_bit (i * 4) v AND 0xF)"] | simp)+
    moreover have "list_all ?P (map of_nat [0 ..< 16])" by code_simp
    ultimately have "?P (drop_bit (i * 4) v AND 0xF)" unfolding list_all_iff by blast
    then show ?thesis by (simp add: hex_digit_def Let_def)
  qed
  then have "0 \<notin> set (48 # 120 # hex_digits v)" "10 \<notin> set (48 # 120 # hex_digits v)"
    by (auto simp: hex_digits_def)
  then show ?thesis
    using puts_text [of "48 # 120 # hex_digits v" "[]" s] expand_digits [of "48 # 120 # hex_digits v"]
    by (simp only: hex_buf_text append_Cons simp_thms)
qed

lemma puts_dec: "puts (dec_buf v) s = send putc (dec_digits (unat v)) s"
proof -
  have "0 \<notin> set (dec_digits (unat v))" "10 \<notin> set (dec_digits (unat v))" using dec_digits_text by blast+
  then show ?thesis
    using puts_text [of "dec_digits (unat v)" "[]" s] expand_digits [of "dec_digits (unat v)"]
    by (simp add: dec_buf_text)
qed

end

definition crlf :: "u8 \<Rightarrow> u8 list" where
  "crlf c = (if c = 10 then [13, 10] else [c])"

interpretation serial: console serial_putchar serial_puts crlf
  by unfold_locales (auto simp: crlf_def Option.bind_assoc split: Option.bind_split)

section \<open>What reaches the wire\<close>

text \<open>The line status register reports an empty transmitter again and again.\<close>

definition serial_live :: "'a machine_scheme \<Rightarrow> bool" where
  "serial_live s \<longleftrightarrow> (\<forall>n. \<exists>k \<ge> n. port_in s (SERIAL_COM1 + 5) k AND 0x20 \<noteq> 0)"

text \<open>\<open>sent out s s'\<close>: from \<open>s\<close> to \<open>s'\<close> the bytes \<open>out\<close> went to the data register and nothing changed but
  the number of times the devices were read.\<close>

definition sent :: "u8 list \<Rightarrow> 'a machine_scheme \<Rightarrow> 'a machine_scheme \<Rightarrow> bool" where
  "sent out s s' \<longleftrightarrow>
     (\<exists>f. s' = s\<lparr>port_rd := f, hw_log := hw_log s @ map (Outb SERIAL_COM1) out\<rparr>)"

lemma sent_live: "sent out s s' \<Longrightarrow> serial_live s \<Longrightarrow> serial_live s'"
  by (auto simp: sent_def serial_live_def)

lemma sent_trans: "sent xs s t \<Longrightarrow> sent ys t u \<Longrightarrow> sent (xs @ ys) s u"
  by (auto simp: sent_def)

lemma serial_wait_returns:
  assumes "port_in s (SERIAL_COM1 + 5) (port_rd s (SERIAL_COM1 + 5) + d) AND 0x20 \<noteq> 0"
  shows "\<exists>f. serial_wait s = Some (s\<lparr>port_rd := f\<rparr>)"
  using assms
proof (induction d arbitrary: s)
  case 0
  then show ?case
    by (intro exI [of _ "(port_rd s)(SERIAL_COM1 + 5 := Suc (port_rd s (SERIAL_COM1 + 5)))"])
      (simp add: serial_wait.simps [of s] serial_tx_empty_def inb_def fun_upd_def)
next
  case (Suc d)
  let ?s = "s\<lparr>port_rd := (port_rd s)(SERIAL_COM1 + 5 := Suc (port_rd s (SERIAL_COM1 + 5)))\<rparr>"
  from Suc obtain f where "serial_wait ?s = Some (?s\<lparr>port_rd := f\<rparr>)" using Suc.IH [of ?s] by auto
  then show ?case
    by (simp add: serial_wait.simps [of s] serial_tx_empty_def inb_def) blast
qed

lemma serial_putchar_sent:
  assumes "serial_live s"
  shows "\<exists>s'. serial_putchar c s = Some s' \<and> sent [c] s s'"
proof -
  obtain k where "port_rd s (SERIAL_COM1 + 5) \<le> k" "port_in s (SERIAL_COM1 + 5) k AND 0x20 \<noteq> 0"
    using assms by (auto simp: serial_live_def)
  then obtain d where "port_in s (SERIAL_COM1 + 5) (port_rd s (SERIAL_COM1 + 5) + d) AND 0x20 \<noteq> 0"
    by (metis le_Suc_ex)
  from serial_wait_returns [OF this] show ?thesis
    by (auto simp: serial_putchar_def sent_def outb_def hw_emit_def)
qed

lemma send_sent: "serial_live s \<Longrightarrow> \<exists>s'. send serial_putchar out s = Some s' \<and> sent out s s'"
proof (induction out arbitrary: s)
  case Nil
  then show ?case by (auto simp: sent_def intro: exI [of _ "port_rd s"])
next
  case (Cons c out)
  from serial_putchar_sent [OF Cons.prems] obtain s1
    where s1: "serial_putchar c s = Some s1" "sent [c] s s1" by blast
  with Cons.IH [of s1] sent_live [OF s1(2) Cons.prems] sent_trans [OF s1(2)] show ?case by fastforce
qed

definition no_nul :: "u8 list \<Rightarrow> bool" where
  "no_nul str \<longleftrightarrow> 0 \<notin> set str"

abbreviation crlf_text :: "u8 list \<Rightarrow> u8 list" where
  "crlf_text str \<equiv> concat (map crlf str)"

lemma serial_puts_sent:
  "serial_live s \<Longrightarrow> no_nul str \<Longrightarrow> \<exists>s'. serial_puts str s = Some s' \<and> sent (crlf_text str) s s'"
  using send_sent [of s "crlf_text str"] by (simp add: serial.puts_literal no_nul_def)

lemma serial_put_hex_sent:
  "serial_live s \<Longrightarrow> \<exists>s'. serial_put_hex v s = Some s' \<and> sent (48 # 120 # hex_digits v) s s'"
  using send_sent [of s "48 # 120 # hex_digits v"] by (simp only: serial_put_hex_def serial.puts_hex simp_thms)

definition dec_text :: "u64 \<Rightarrow> u8 list" where
  "dec_text v = (if v = 0 then [48] else dec_digits (unat v))"

lemma serial_put_dec_sent:
  "serial_live s \<Longrightarrow> \<exists>s'. serial_put_dec v s = Some s' \<and> sent (dec_text v) s s'"
  using send_sent [of s "dec_digits (unat v)"] serial_putchar_sent [of s 48]
  by (simp add: serial_put_dec_def serial.puts_dec dec_text_def)

section \<open>Properties\<close>

text \<open>C27: on a device whose transmitter always becomes empty again, \<open>serial_puts\<close> returns, the data
  register receives the bytes of the string in order with a carriage return before every line feed,
  and nothing else happens: no other port is written, memory and registers stay.\<close>

theorem serial_puts_transmits:
  assumes "serial_live s" "no_nul str"
  shows "\<exists>s'. serial_puts (str @ 0 # rest) s = Some s' \<and> sent (crlf_text str) s s'
     \<and> port_writes SERIAL_COM1 (hw_log s') = port_writes SERIAL_COM1 (hw_log s) @ crlf_text str
     \<and> mem s' = mem s \<and> cr3 s' = cr3 s \<and> if_flag s' = if_flag s"
proof -
  obtain s' where s': "serial_puts (str @ 0 # rest) s = Some s'" "sent (crlf_text str) s s'"
    using send_sent [OF assms(1), of "crlf_text str"] assms(2)
    by (auto simp: serial.puts_text no_nul_def)
  moreover have "port_writes SERIAL_COM1 (map (Outb SERIAL_COM1) out) = out" for out
    by (induction out) simp_all
  ultimately show ?thesis by (auto simp: sent_def)
qed

text \<open>C28: \<open>serial_put_hex\<close> prints \<open>0x\<close> and 16 hexadecimal digits that read back as the value;
  \<open>serial_put_dec\<close> prints decimal digits that read back as the value, with no leading zero.\<close>

theorem serial_numbers_round_trip:
  assumes "serial_live s"
  shows "\<exists>s1 s2 hex dec. serial_put_hex v s = Some s1 \<and> sent (48 # 120 # hex) s s1
     \<and> length hex = 16 \<and> parse_digits 16 hex = unat v
     \<and> serial_put_dec v s = Some s2 \<and> sent dec s s2 \<and> parse_digits 10 dec = unat v
     \<and> (v \<noteq> 0 \<longrightarrow> hd dec \<noteq> 48) \<and> (v = 0 \<longrightarrow> dec = [48])"
proof -
  have "length (hex_digits v) = 16" by (simp add: hex_digits_def)
  moreover have "parse_digits 10 (dec_text v) = unat v"
    using parse_digits_simps(2) [of 10 "[]" 48]
    by (simp add: dec_text_def parse_dec_digits digit_value_def)
  moreover have "hd (dec_text v) \<noteq> 48" if "v \<noteq> 0"
    using that dec_digits_head [of "unat v"] by (simp add: dec_text_def unat_gt_0)
  moreover have "v = 0 \<longrightarrow> dec_text v = [48]" by (simp add: dec_text_def)
  ultimately show ?thesis
    using serial_put_hex_sent [OF assms, of v] serial_put_dec_sent [OF assms, of v] parse_hex_digits
    by blast
qed

lemma halt_rounds:
  "hw_log ((halt_round ^^ k) s) = hw_log s @ concat (replicate k [Cli, Hlt])
     \<and> (0 < k \<or> \<not> if_flag s \<longrightarrow> \<not> if_flag ((halt_round ^^ k) s)) \<and> mem ((halt_round ^^ k) s) = mem s"
proof (induction k arbitrary: s)
  case (Suc k)
  have "hw_log (halt_round s) = hw_log s @ [Cli, Hlt]" "\<not> if_flag (halt_round s)"
    "mem (halt_round s) = mem s" by (simp_all add: halt_round_def cli_def)
  with Suc.IH [of "halt_round s"] show ?case by (simp del: funpow.simps add: funpow_Suc_right)
qed simp

text \<open>C29: \<open>panic\<close> disables interrupts, prints its three lines and then does nothing but \<open>cli; hlt\<close>: after
  any number of rounds of its loop interrupts are still disabled, memory is untouched, and the log
  holds the text followed by halts only.\<close>

theorem panic_halts:
  assumes "serial_live s" "no_nul message"
  shows "\<exists>s'. panic message k s = Some s' \<and> \<not> if_flag s' \<and> mem s' = mem s
     \<and> hw_log s' = hw_log s @ Cli # map (Outb SERIAL_COM1) (crlf_text
          (10 # lit ''=== KERNEL PANIC ==='' @ 10 # message @ 10 # lit ''System halted.'' @ [10]))
        @ concat (replicate k [Cli, Hlt])"
proof -
  have lits: "no_nul (10 # lit ''=== KERNEL PANIC ==='' @ [10])" "no_nul (10 # lit ''System halted.'' @ [10])"
    by (simp_all add: no_nul_def lit_def)
  have "serial_live (cli s)" using assms(1) by (simp add: serial_live_def cli_def)
  from serial_puts_sent [OF this lits(1)] obtain s1
    where s1: "serial_puts (10 # lit ''=== KERNEL PANIC ==='' @ [10]) (cli s) = Some s1"
      "sent (crlf_text (10 # lit ''=== KERNEL PANIC ==='' @ [10])) (cli s) s1" by blast
  note live1 = sent_live [OF s1(2) \<open>serial_live (cli s)\<close>]
  from serial_puts_sent [OF live1 assms(2)] obtain s2
    where s2: "serial_puts message s1 = Some s2" "sent (crlf_text message) s1 s2" by blast
  from serial_puts_sent [OF sent_live [OF s2(2) live1] lits(2)] obtain s3
    where s3: "serial_puts (10 # lit ''System halted.'' @ [10]) s2 = Some s3"
      "sent (crlf_text (10 # lit ''System halted.'' @ [10])) s2 s3" by blast
  have p: "panic message k s = Some ((halt_round ^^ k) s3)"
    using s1(1) s2(1) s3(1) by (simp only: panic_def Option.bind.simps)
  have "hw_log s3 = hw_log s @ Cli # map (Outb SERIAL_COM1) (crlf_text
      (10 # lit ''=== KERNEL PANIC ==='' @ 10 # message @ 10 # lit ''System halted.'' @ [10]))"
    "mem s3 = mem s" "\<not> if_flag s3"
    using s1(2) s2(2) s3(2) by (auto simp: sent_def cli_def)
  with halt_rounds [of k s3] p show ?thesis by auto
qed

subsection \<open>Instances\<close>

text \<open>A device that is ready at every second reading.\<close>

definition serial_machine :: machine where
  "serial_machine = \<lparr>mem = (\<lambda>_. 0), cr3 = 0, if_flag = True,
     port_in = (\<lambda>p k. if even k then 0 else 0x60), port_rd = (\<lambda>_. 0), hw_log = []\<rparr>"

lemma serial_machine_live: "serial_live serial_machine"
  unfolding serial_live_def serial_machine_def
proof
  fix n :: nat
  show "\<exists>k\<ge>n. port_in \<lparr>mem = (\<lambda>_. 0), cr3 = 0, if_flag = True,
     port_in = (\<lambda>p k. if even k then 0 else 0x60), port_rd = (\<lambda>_. 0), hw_log = []\<rparr> (SERIAL_COM1 + 5) k
     AND 0x20 \<noteq> 0"
    by (intro exI [of _ "2 * n + 1"]) simp
qed

theorem serial_puts_transmits_witness:
  "\<exists>s'. serial_puts [79, 75, 10, 0] serial_machine = Some s'
     \<and> port_writes SERIAL_COM1 (hw_log s') = [79, 75, 13, 10]"
  using serial_puts_transmits [OF serial_machine_live, of "[79, 75, 10]" "[]"]
  by (auto simp: no_nul_def crlf_def serial_machine_def)

theorem serial_numbers_round_trip_witness:
  "\<exists>s2 dec. serial_put_dec 42 serial_machine = Some s2 \<and> sent dec serial_machine s2
     \<and> parse_digits 10 dec = 42"
  using serial_numbers_round_trip [OF serial_machine_live, of 42] by auto

theorem panic_halts_witness:
  "\<exists>s'. panic [33] 1 serial_machine = Some s' \<and> \<not> if_flag s' \<and> last (hw_log s') = Hlt"
  using panic_halts [OF serial_machine_live, of "[33]" 1] by (auto simp: no_nul_def)

end
