(* ===== verification/Timer.thy ===== *)
theory Timer
  imports Machine
begin

text \<open>
  \<open>src/arc/x86_64/drivers/timer.c\<close>: the programmable interval timer. \<open>timer_init\<close> programs the divisor,
  \<open>timer_handler\<close> counts interrupts, \<open>timer_sleep\<close> halts until enough of them have come.

  Between two looks of \<open>timer_sleep\<close> at the counter the processor halts and interrupts are handled. What
  is handled at each halt is not under the code's control: \<open>timer_wait\<close> takes it as a list of batches
  of interrupts, one batch per \<open>hlt\<close>, and the handler as an argument, so that the same loop serves
  the timer alone and the whole kernel. The locale \<open>tick_source\<close> states what the loop relies on.
\<close>

section \<open>State and operations\<close>

definition PIT_BASE_FREQ :: u32 where
  "PIT_BASE_FREQ = 1193182"

record timer_state =
  timer_ticks :: u64
  timer_freq :: u32
  pit_divisor :: u16

definition pit_read_count :: "'a machine_scheme \<Rightarrow> u16 \<times> 'a machine_scheme" where
  "pit_read_count s =
     (let s1 = outb 0x43 0x00 s; (low, s2) = inb 0x40 s1; (high, s3) = inb 0x40 s2
      in (ucast low OR push_bit 8 (ucast high), s3))"

definition timer_handler :: "timer_state \<Rightarrow> timer_state" where
  "timer_handler t = t\<lparr>timer_ticks := timer_ticks t + 1\<rparr>"

definition timer_get_ticks :: "timer_state \<Rightarrow> u64" where
  "timer_get_ticks t = timer_ticks t"

text \<open>The product is computed in 32 bits.\<close>

definition sleep_ticks :: "u32 \<Rightarrow> u32 \<Rightarrow> u64" where
  "sleep_ticks freq ms = ucast (freq * ms div 1000)"

text \<open>\<open>None\<close>: the loop is still waiting when the batches are used up.\<close>

fun timer_wait ::
    "('k \<Rightarrow> u64) \<Rightarrow> ('e \<Rightarrow> 'k \<Rightarrow> 'k) \<Rightarrow> ('k \<Rightarrow> 'k) \<Rightarrow> u64 \<Rightarrow> 'e list list \<Rightarrow> 'k \<Rightarrow> 'k option" where
  "timer_wait ticks handle hlt target [] k = (if ticks k < target then None else Some k)"
| "timer_wait ticks handle hlt target (batch # batches) k =
     (if ticks k < target then timer_wait ticks handle hlt target batches (fold handle batch (hlt k))
      else Some k)"

text \<open>\<open>timer_sleep\<close> on the timer and the machine; each element of a batch is one timer interrupt.\<close>

definition timer_sleep ::
    "u32 \<Rightarrow> unit list list \<Rightarrow> timer_state \<times> 'a machine_scheme \<Rightarrow> (timer_state \<times> 'a machine_scheme) option"
  where
  "timer_sleep ms batches k =
     (let target = timer_ticks (fst k) + sleep_ticks (timer_freq (fst k)) ms
      in map_option (\<lambda>(t, s). (t, cli s))
           (timer_wait (\<lambda>(t, s). timer_ticks t) (\<lambda>_ (t, s). (timer_handler t, s))
              (\<lambda>(t, s). (t, hw_emit Hlt s)) target batches (fst k, sti (snd k))))"

text \<open>\<open>None\<close>: the division faults.\<close>

definition timer_init :: "u32 \<Rightarrow> timer_state \<Rightarrow> 'a machine_scheme \<Rightarrow> (timer_state \<times> 'a machine_scheme) option"
  where
  "timer_init frequency t s =
     (if frequency = 0 then None
      else let d = (ucast (PIT_BASE_FREQ div frequency) :: u16);
               t1 = t\<lparr>timer_freq := frequency, timer_ticks := 0, pit_divisor := d\<rparr>;
               s1 = outb 0x43 0x34 s;
               s2 = outb 0x40 (ucast (d AND 0xFF)) s1;
               s3 = outb 0x40 (ucast (drop_bit 8 d AND 0xFF)) s2
           in Some (t1, s3))"

section \<open>Waiting for ticks\<close>

text \<open>What the loop relies on: an interrupt adds 1 to the counter or leaves it, halting leaves it.\<close>

locale tick_source =
  fixes ticks :: "'k \<Rightarrow> u64"
    and handle :: "'e \<Rightarrow> 'k \<Rightarrow> 'k"
    and hlt :: "'k \<Rightarrow> 'k"
    and is_tick :: "'e \<Rightarrow> bool"
  assumes handle_ticks: "ticks (handle e k) = ticks k + (if is_tick e then 1 else 0)"
    and hlt_ticks: "ticks (hlt k) = ticks k"
begin

definition count :: "'e list \<Rightarrow> nat" where
  "count es = length (filter is_tick es)"

lemma fold_ticks: "ticks (fold handle es k) = ticks k + of_nat (count es)"
  by (induction es arbitrary: k) (simp_all add: count_def handle_ticks)

text \<open>No early return: whoever gets past the loop has seen the ticks it was waiting for.\<close>

lemma wait_not_early:
  "timer_wait ticks handle hlt target bs k = Some k' \<Longrightarrow> target \<le> ticks k'"
  by (induction bs arbitrary: k) (auto split: if_splits)

text \<open>And the loop returns as soon as the batches contain that many ticks.\<close>

lemma wait_past: "target \<le> ticks k \<Longrightarrow> timer_wait ticks handle hlt target bs k = Some k"
  by (cases bs) auto

lemma wait_ticks:
  "timer_wait ticks handle hlt target bs k = Some k' \<Longrightarrow>
     \<exists>m \<le> count (concat bs). ticks k' = ticks k + of_nat m"
proof (induction bs arbitrary: k)
  case Nil
  then show ?case by (auto split: if_splits)
next
  case (Cons b bs)
  show ?case
  proof (cases "ticks k < target")
    case True
    with Cons obtain m where "m \<le> count (concat bs)" "ticks k' = ticks (fold handle b (hlt k)) + of_nat m" by auto
    then show ?thesis
      by (intro exI [of _ "count b + m"]) (simp add: fold_ticks hlt_ticks count_def)
  next
    case False
    with Cons.prems show ?thesis by auto
  qed
qed

text \<open>What every event and every halt preserves holds after the loop.\<close>

lemma wait_invariant:
  assumes "\<And>e k. I k \<Longrightarrow> I (handle e k)" "\<And>k. I k \<Longrightarrow> I (hlt k)"
  shows "timer_wait ticks handle hlt target bs k = Some k' \<Longrightarrow> I k \<Longrightarrow> I k'"
proof (induction bs arbitrary: k)
  case (Cons b bs)
  have "I k \<Longrightarrow> I (fold handle b k)" for k using assms(1) by (induction b arbitrary: k) simp_all
  with Cons assms(2) show ?case by (simp split: if_splits)
qed (simp split: if_splits)

lemma wait_returns:
  assumes "unat (ticks k) + count (concat bs) < 2 ^ 64" "target = ticks k + of_nat n"
    "n \<le> count (concat bs)"
  shows "\<exists>k'. timer_wait ticks handle hlt target bs k = Some k'"
  using assms
proof (induction bs arbitrary: k n)
  case Nil
  then show ?case by (simp add: count_def)
next
  case (Cons b bs)
  let ?k = "fold handle b (hlt k)"
  have c: "count (concat (b # bs)) = count b + count (concat bs)" by (simp add: count_def)
  have t: "ticks ?k = ticks k + of_nat (count b)" by (simp add: fold_ticks hlt_ticks)
  have u: "unat (ticks ?k) = unat (ticks k) + count b"
    unfolding t using Cons.prems(1) c by (subst unat_add_of_nat) simp_all
  have "\<exists>k'. timer_wait ticks handle hlt target bs ?k = Some k'"
  proof (cases "count b \<le> n")
    case True
    then show ?thesis
      using Cons.prems c u by (intro Cons.IH [of _ "n - count b"]) (simp_all add: t of_nat_diff)
  next
    case False
    have "unat target = unat (ticks k) + n"
      unfolding Cons.prems(2) using Cons.prems(1,3) by (subst unat_add_of_nat) simp_all
    with False u have "target \<le> ticks ?k" by (simp add: word_le_nat_alt)
    then show ?thesis by (simp add: wait_past)
  qed
  then show ?case by simp
qed

end

interpretation pit: tick_source "\<lambda>(t :: timer_state, s :: 'a machine_scheme). timer_ticks t"
    "\<lambda>(_ :: unit) (t, s). (timer_handler t, s)" "\<lambda>(t, s). (t, hw_emit Hlt s)" "\<lambda>_. True"
  by unfold_locales (auto simp: timer_handler_def split: prod.splits)

section \<open>Properties\<close>

lemma sleep_ticks_exact:
  assumes "unat freq * unat ms < 2 ^ 32"
  shows "unat (sleep_ticks freq ms) = unat freq * unat ms div 1000"
proof -
  have "unat (freq * ms) = unat freq * unat ms" using assms by (simp add: unat_word_ariths)
  then have "unat (freq * ms div 1000) = unat freq * unat ms div 1000" by (simp add: unat_div)
  moreover have "unat (sleep_ticks freq ms) = unat (freq * ms div 1000)"
    unfolding sleep_ticks_def by (rule unat_ucast_u64) simp
  ultimately show ?thesis by simp
qed

text \<open>C30: \<open>timer_sleep\<close> waits for \<open>timer_freq * ms / 1000\<close> timer interrupts. It returns as soon as the halts
  have seen that many (with any distribution of the interrupts over the halts), never with fewer,
  and leaves interrupts disabled; exact as long as the product fits in 32 bits and the tick
  counter does not wrap around.\<close>

theorem timer_sleep_correct:
  fixes t :: timer_state and s :: machine
  assumes "unat (timer_freq t) * unat ms < 2 ^ 32"
    and "unat (timer_ticks t) + length (concat batches) < 2 ^ 64"
  defines "n \<equiv> unat (timer_freq t) * unat ms div 1000"
  shows "(n \<le> length (concat batches) \<longrightarrow> (\<exists>t' s'. timer_sleep ms batches (t, s) = Some (t', s')))
     \<and> (\<forall>t' s'. timer_sleep ms batches (t, s) = Some (t', s') \<longrightarrow>
          unat (timer_ticks t) + n < 2 ^ 64 \<longrightarrow>
          unat (timer_ticks t) + n \<le> unat (timer_ticks t') \<and> \<not> if_flag s')"
proof -
  let ?target = "timer_ticks t + sleep_ticks (timer_freq t) ms"
  let ?wait = "timer_wait (\<lambda>(t, s). timer_ticks t) (\<lambda>_ (t, s). (timer_handler t, s))
      (\<lambda>(t, s). (t, hw_emit Hlt s)) ?target batches (t, sti s)"
  have n: "unat (sleep_ticks (timer_freq t) ms) = n" using sleep_ticks_exact assms(1) n_def by simp
  moreover have "of_nat (unat (sleep_ticks (timer_freq t) ms)) = sleep_ticks (timer_freq t) ms" by simp
  ultimately have tgt: "?target = timer_ticks t + of_nat n" by simp
  have count: "pit.count (concat batches) = length (concat batches)" by (simp add: pit.count_def)
  have sleep: "timer_sleep ms batches (t, s) = map_option (\<lambda>(t, s). (t, cli s)) ?wait"
    by (simp add: timer_sleep_def Let_def)
  have "\<exists>k'. ?wait = Some k'" if "n \<le> length (concat batches)"
    using that assms(2) by (intro pit.wait_returns [of _ _ _ n]) (simp_all add: count tgt)
  then have "\<exists>t' s'. timer_sleep ms batches (t, s) = Some (t', s')" if "n \<le> length (concat batches)"
    using that unfolding sleep by (auto simp: split_beta)
  moreover have "unat (timer_ticks t) + n \<le> unat (timer_ticks t') \<and> \<not> if_flag s'"
    if r: "timer_sleep ms batches (t, s) = Some (t', s')" "unat (timer_ticks t) + n < 2 ^ 64" for t' s'
  proof -
    from r(1) obtain s1 where w: "?wait = Some (t', s1)" "s' = cli s1"
      unfolding sleep by (auto simp: split_beta)
    have "?target \<le> timer_ticks t'" using pit.wait_not_early [OF w(1)] by simp
    moreover have "unat ?target = unat (timer_ticks t) + n"
      unfolding tgt using r(2) by (subst unat_add_of_nat) simp_all
    ultimately show ?thesis using w(2) by (simp add: word_le_nat_alt cli_def)
  qed
  ultimately show ?thesis by blast
qed

text \<open>The product \<open>timer_freq * ms\<close> is computed modulo \<open>2 ^ 32\<close>: at the 100 Hz the kernel runs at, a
  request to sleep 42949673 milliseconds (almost twelve hours) returns at once.\<close>

theorem timer_sleep_overflow:
  "sleep_ticks 100 42949673 = 0
     \<and> timer_sleep 42949673 [] (\<lparr>timer_ticks = 7, timer_freq = 100, pit_divisor = d\<rparr>, s)
       = Some (\<lparr>timer_ticks = 7, timer_freq = 100, pit_divisor = d\<rparr>, cli (sti s))"
  by (simp add: timer_sleep_def sleep_ticks_def)

text \<open>\<open>timer_init\<close> faults on frequency 0. For every frequency from 19 Hz on the divisor is
  \<open>1193182 / frequency\<close> exactly, and the two bytes written to the counter after the mode byte are its
  low and its high half; below 19 Hz the divisor does not fit and is cut to 16 bits.\<close>

theorem timer_init_programs:
  fixes s :: machine
  shows "timer_init 0 t s = None
     \<and> (\<forall>f. f \<noteq> 0 \<longrightarrow> (\<exists>t' s' lo hi. timer_init f t s = Some (t', s')
          \<and> timer_ticks t' = 0 \<and> timer_freq t' = f
          \<and> hw_log s' = hw_log s @ [Outb 0x43 0x34, Outb 0x40 lo, Outb 0x40 hi]
          \<and> unat lo + 256 * unat hi = unat (pit_divisor t')
          \<and> unat (pit_divisor t') = 1193182 div unat f mod 2 ^ 16
          \<and> (19 \<le> unat f \<longrightarrow> unat (pit_divisor t') = 1193182 div unat f)))"
proof -
  have bytes: "unat (ucast (d AND 0xFF) :: u8) + 256 * unat (ucast (drop_bit 8 d AND 0xFF) :: u8) = unat d"
    for d :: u16
  proof -
    have m: "x AND 0xFF = take_bit 8 x" for x :: u16
      by (simp add: take_bit_eq_mask mask_eq_exp_minus_1)
    have "unat (ucast (take_bit 8 x) :: u8) = unat x mod 256" for x :: u16
      by (simp only: unsigned_ucast_eq unsigned_take_bit_eq) (simp add: take_bit_eq_mod)
    then have "unat (ucast (d AND 0xFF) :: u8) = unat d mod 256"
      "unat (ucast (drop_bit 8 d AND 0xFF) :: u8) = unat (drop_bit 8 d) mod 256" by (simp_all only: m)
    moreover have "unat (drop_bit 8 d) = unat d div 256"
      by (simp only: unat_drop_bit_eq) (simp add: drop_bit_eq_div)
    moreover have "unat d div 256 < 256" using unsigned_less [of d, where 'a = nat] by simp
    ultimately show ?thesis by simp
  qed
  have div: "unat (ucast (PIT_BASE_FREQ div f) :: u16) = 1193182 div unat f mod 2 ^ 16" for f
    by (subst unsigned_ucast_eq) (simp add: take_bit_eq_mod unat_div PIT_BASE_FREQ_def)
  have small: "1193182 div unat f mod 2 ^ 16 = 1193182 div unat f" if "19 \<le> unat f" for f :: u32
  proof -
    have "1193182 div unat f \<le> 1193182 div 19" using that by (intro div_le_mono2) simp_all
    then show ?thesis by simp
  qed
  show ?thesis using bytes div small by (auto simp: timer_init_def Let_def)
qed

subsection \<open>Instances\<close>

definition timer_example :: timer_state where
  "timer_example = \<lparr>timer_ticks = 0, timer_freq = 100, pit_divisor = 0\<rparr>"

definition timer_machine :: machine where
  "timer_machine = \<lparr>mem = (\<lambda>_. 0), cr3 = 0, if_flag = False, port_in = (\<lambda>_ _. 0), port_rd = (\<lambda>_. 0),
     hw_log = []\<rparr>"

theorem timer_sleep_correct_witness:
  "\<exists>t' s'. timer_sleep 20 [[()], [(), ()]] (timer_example, timer_machine) = Some (t', s')"
  using timer_sleep_correct [of timer_example 20 "[[()], [(), ()]]" timer_machine]
  by (simp add: timer_example_def)

theorem timer_init_programs_witness:
  "\<exists>t' s' lo hi. timer_init 100 timer_example timer_machine = Some (t', s')
     \<and> hw_log s' = hw_log timer_machine @ [Outb 0x43 0x34, Outb 0x40 lo, Outb 0x40 hi]
     \<and> unat lo + 256 * unat hi = 11931"
proof -
  from timer_init_programs [of timer_example timer_machine, THEN conjunct2, rule_format, of 100]
  obtain t' s' lo hi where "timer_init 100 timer_example timer_machine = Some (t', s')"
    "hw_log s' = hw_log timer_machine @ [Outb 0x43 0x34, Outb 0x40 lo, Outb 0x40 hi]"
    "unat lo + 256 * unat hi = unat (pit_divisor t')"
    "unat (pit_divisor t') = 1193182 div unat (100::u32) mod 2 ^ 16" by auto
  then show ?thesis by auto
qed

end
