(* ===== verification/Descriptors.thy ===== *)
theory Descriptors
  imports Machine
begin

text \<open>
  \<open>src/arc/x86_64/gdt.c\<close> and \<open>src/arc/x86_64/idt.c\<close>: the segment and the interrupt descriptor table and the
  programming of the interrupt controllers. The packed bit fields of the C structures are words of
  the field's width; \<open>gdt_code\<close> and \<open>idt_code\<close> give the bytes the processor reads. The addresses of the
  tables and of the assembly entry points (\<open>isr0\<close> to \<open>isr31\<close>, \<open>irq0\<close> to \<open>irq15\<close>) are parameters.
\<close>

section \<open>Segment descriptors\<close>

record gdt_entry_t =
  limit_low :: "16 word"
  base_low :: "24 word"
  access :: u8
  limit_high :: "4 word"
  gflags :: "4 word"
  base_high :: u8

record gdt_state =
  gdt :: "gdt_entry_t list"
  gdt_ptr_limit :: u16
  gdt_ptr_base :: u64

definition gdt_set_entry ::
    "nat \<Rightarrow> u32 \<Rightarrow> u32 \<Rightarrow> u8 \<Rightarrow> u8 \<Rightarrow> gdt_state \<Rightarrow> gdt_state" where
  "gdt_set_entry index base limit acc flags g =
     g\<lparr>gdt := (gdt g)[index := \<lparr>limit_low = ucast (limit AND 0xFFFF), base_low = ucast (base AND 0x00FFFFFF),
        access = acc, limit_high = ucast (drop_bit 16 limit AND 0x0F), gflags = ucast (flags AND 0x0F),
        base_high = ucast (drop_bit 24 base AND 0xFF)\<rparr>]\<rparr>"

text \<open>\<open>gdt_flush\<close>, in assembly, loads the register from the structure its argument designates.\<close>

definition gdt_flush :: "gdt_state \<Rightarrow> 'a machine_scheme \<Rightarrow> 'a machine_scheme" where
  "gdt_flush g s = hw_emit (Lgdt (gdt_ptr_limit g) (gdt_ptr_base g)) s"

definition gdt_init :: "u64 \<Rightarrow> gdt_state \<Rightarrow> 'a machine_scheme \<Rightarrow> gdt_state \<times> 'a machine_scheme" where
  "gdt_init gdt_addr g s =
     (let g0 = gdt_set_entry 0 0 0 0 0 g;
          g1 = gdt_set_entry 1 0 0xFFFFFFFF 0x9A 0x0A g0;
          g2 = gdt_set_entry 2 0 0xFFFFFFFF 0x92 0x0A g1;
          g3 = gdt_set_entry 3 0 0xFFFFFFFF 0xFA 0x0A g2;
          g4 = gdt_set_entry 4 0 0xFFFFFFFF 0xF2 0x0A g3;
          g5 = g4\<lparr>gdt_ptr_limit := of_nat (length (gdt g4) * 8) - 1, gdt_ptr_base := gdt_addr\<rparr>
      in (g5, gdt_flush g5 s))"

text \<open>The eight bytes of a packed descriptor, as one little-endian number.\<close>

definition gdt_code :: "gdt_entry_t \<Rightarrow> u64" where
  "gdt_code e = ucast (limit_low e) OR push_bit 16 (ucast (base_low e)) OR push_bit 40 (ucast (access e))
     OR push_bit 48 (ucast (limit_high e)) OR push_bit 52 (ucast (gflags e))
     OR push_bit 56 (ucast (base_high e))"

text \<open>What the processor extracts from a descriptor.\<close>

definition seg_base :: "u64 \<Rightarrow> u64" where
  "seg_base d = take_bit 24 (drop_bit 16 d) OR push_bit 24 (drop_bit 56 d)"

definition seg_limit :: "u64 \<Rightarrow> u64" where
  "seg_limit d = take_bit 16 d OR push_bit 16 (take_bit 4 (drop_bit 48 d))"

definition seg_access :: "u64 \<Rightarrow> u64" where
  "seg_access d = take_bit 8 (drop_bit 40 d)"

definition seg_flags :: "u64 \<Rightarrow> u64" where
  "seg_flags d = take_bit 4 (drop_bit 52 d)"

section \<open>Interrupt gates\<close>

record idt_entry_t =
  ibase_low :: u16
  selector :: u16
  ist :: u8
  iflags :: u8
  ibase_mid :: u16
  ibase_high :: u32
  ireserved :: u32

record idt_state =
  idt :: "idt_entry_t list"
  idt_ptr_limit :: u16
  idt_ptr_base :: u64

definition idt_set_entry :: "nat \<Rightarrow> u64 \<Rightarrow> u16 \<Rightarrow> u8 \<Rightarrow> idt_state \<Rightarrow> idt_state" where
  "idt_set_entry index base sel flags d =
     d\<lparr>idt := (idt d)[index := \<lparr>ibase_low = ucast (base AND 0xFFFF), selector = sel, ist = 0,
        iflags = flags, ibase_mid = ucast (drop_bit 16 base AND 0xFFFF),
        ibase_high = ucast (drop_bit 32 base AND 0xFFFFFFFF), ireserved = 0\<rparr>]\<rparr>"

definition pic_remap :: "'a machine_scheme \<Rightarrow> 'a machine_scheme" where
  "pic_remap s =
     (let s1 = io_wait (outb 0x20 0x11 s);
          s2 = io_wait (outb 0xA0 0x11 s1);
          s3 = io_wait (outb 0x21 0x20 s2);
          s4 = io_wait (outb 0xA1 0x28 s3);
          s5 = io_wait (outb 0x21 0x04 s4);
          s6 = io_wait (outb 0xA1 0x02 s5);
          s7 = io_wait (outb 0x21 0x01 s6);
          s8 = io_wait (outb 0xA1 0x01 s7)
      in outb 0xA1 0xFF (outb 0x21 0xFC s8))"

definition idt_init ::
    "(nat \<Rightarrow> u64) \<Rightarrow> (nat \<Rightarrow> u64) \<Rightarrow> u64 \<Rightarrow> idt_state \<Rightarrow> 'a machine_scheme \<Rightarrow> idt_state \<times> 'a machine_scheme"
  where
  "idt_init isr irq idt_addr d s =
     (let d1 = fold (\<lambda>i. idt_set_entry i 0 0 0) [0 ..< 256] d;
          d2 = fold (\<lambda>i. idt_set_entry i (isr i) 0x08 0x8E) [0 ..< 32] d1;
          d3 = fold (\<lambda>i. idt_set_entry (32 + i) (irq i) 0x08 0x8E) [0 ..< 16] d2;
          s1 = pic_remap s;
          d4 = d3\<lparr>idt_ptr_limit := of_nat (length (idt d3) * 16) - 1, idt_ptr_base := idt_addr\<rparr>;
          s2 = hw_emit (Lidt (idt_ptr_limit d4) (idt_ptr_base d4)) s1
      in (d4, sti s2))"

text \<open>The handler address the processor assembles from a gate, and its present bit.\<close>

definition gate_offset :: "idt_entry_t \<Rightarrow> u64" where
  "gate_offset e = ucast (ibase_low e) OR push_bit 16 (ucast (ibase_mid e)) OR push_bit 32 (ucast (ibase_high e))"

definition gate_present :: "idt_entry_t \<Rightarrow> bool" where
  "gate_present e \<longleftrightarrow> bit (iflags e) 7"

section \<open>Packing and unpacking\<close>

lemma and_masks:
  "(x :: 'a::len word) AND 0xFFFF = take_bit 16 x" "x AND 0xFFFFFFFF = take_bit 32 x"
  "x AND 0x00FFFFFF = take_bit 24 x" "x AND 0xFF = take_bit 8 x" "x AND 0x0F = take_bit 4 x"
  by (simp_all add: take_bit_eq_mask mask_eq_exp_minus_1)

lemma gate_offset_split:
  "(ucast (ucast (x AND 0xFFFF) :: u16) OR push_bit 16 (ucast (ucast (drop_bit 16 x AND 0xFFFF) :: u16))
     OR push_bit 32 (ucast (ucast (drop_bit 32 x AND 0xFFFFFFFF) :: u32)) :: u64) = x"
  unfolding and_masks by (rule u64_eqI) (simp add: upt64 bit_simps)

lemma segment_fields:
  fixes e :: gdt_entry_t and base limit :: u32 and acc flags :: u8
  assumes "e = \<lparr>limit_low = ucast (limit AND 0xFFFF), base_low = ucast (base AND 0x00FFFFFF),
        access = acc, limit_high = ucast (drop_bit 16 limit AND 0x0F), gflags = ucast (flags AND 0x0F),
        base_high = ucast (drop_bit 24 base AND 0xFF)\<rparr>"
  shows "seg_base (gdt_code e) = ucast base"
    and "seg_limit (gdt_code e) = ucast (take_bit 20 limit)"
    and "seg_access (gdt_code e) = ucast acc"
    and "seg_flags (gdt_code e) = ucast (take_bit 4 flags)"
  unfolding assms seg_base_def seg_limit_def seg_access_def seg_flags_def gdt_code_def and_masks
    gdt_entry_t.simps
  by (rule u64_eqI, simp add: upt64 bit_simps bit_beyond)+


section \<open>The tables after initialisation\<close>

definition mk_gate :: "u64 \<Rightarrow> u16 \<Rightarrow> u8 \<Rightarrow> idt_entry_t" where
  "mk_gate base sel fl = \<lparr>ibase_low = ucast (base AND 0xFFFF), selector = sel, ist = 0, iflags = fl,
     ibase_mid = ucast (drop_bit 16 base AND 0xFFFF),
     ibase_high = ucast (drop_bit 32 base AND 0xFFFFFFFF), ireserved = 0\<rparr>"

lemma mk_gate_fields [simp]:
  "gate_offset (mk_gate b sel fl) = b" "selector (mk_gate b sel fl) = sel"
  "iflags (mk_gate b sel fl) = fl" "ist (mk_gate b sel fl) = 0" "ireserved (mk_gate b sel fl) = 0"
  using gate_offset_split [of b] by (simp_all add: mk_gate_def gate_offset_def)

lemma idt_set_entry_update: "idt (idt_set_entry i b sel fl d) = (idt d)[i := mk_gate b sel fl]"
  by (simp add: idt_set_entry_def mk_gate_def)

text \<open>Setting a range of gates, as \<open>idt_init\<close> does three times.\<close>

lemma idt_set_range:
  "length (idt (fold (\<lambda>i. idt_set_entry (a + i) (b i) sel fl) [0 ..< n] d)) = length (idt d)
     \<and> (\<forall>j < length (idt d). idt (fold (\<lambda>i. idt_set_entry (a + i) (b i) sel fl) [0 ..< n] d) ! j =
          (if a \<le> j \<and> j < a + n then mk_gate (b (j - a)) sel fl else idt d ! j))"
  by (induction n) (auto simp: idt_set_entry_update nth_list_update less_Suc_eq)

text \<open>\<open>gdt_init\<close> builds the null descriptor and four flat 64-bit segments, kernel code and data at
  selectors 0x08 and 0x10 and user code and data at 0x18 and 0x20, and loads the table register
  with its address and last byte. Base, limit, access and flags of each descriptor are what the
  processor reads out of its packed bytes.\<close>

theorem gdt_init_correct:
  assumes "length (gdt g) = 5"
  shows "\<exists>g' s'. gdt_init gdt_addr g s = (g', s')
     \<and> map gdt_code (gdt g') = [0, 0x00AF9A000000FFFF, 0x00AF92000000FFFF, 0x00AFFA000000FFFF,
          0x00AFF2000000FFFF]
     \<and> map (seg_base \<circ> gdt_code) (gdt g') = [0, 0, 0, 0, 0]
     \<and> map (seg_limit \<circ> gdt_code) (gdt g') = [0, 0xFFFFF, 0xFFFFF, 0xFFFFF, 0xFFFFF]
     \<and> map (seg_access \<circ> gdt_code) (gdt g') = [0, 0x9A, 0x92, 0xFA, 0xF2]
     \<and> map (seg_flags \<circ> gdt_code) (gdt g') = [0, 0xA, 0xA, 0xA, 0xA]
     \<and> s' = hw_emit (Lgdt 39 gdt_addr) s"
proof -
  obtain a b c d e where g: "gdt g = [a, b, c, d, e]"
    using assms by (auto simp: length_Suc_conv numeral_eq_Suc)
  obtain g' s' where r: "gdt_init gdt_addr g s = (g', s')" by force
  have "gdt g' = [
      \<lparr>limit_low = 0, base_low = 0, access = 0, limit_high = 0, gflags = 0, base_high = 0\<rparr>,
      \<lparr>limit_low = 0xFFFF, base_low = 0, access = 0x9A, limit_high = 0xF, gflags = 0xA, base_high = 0\<rparr>,
      \<lparr>limit_low = 0xFFFF, base_low = 0, access = 0x92, limit_high = 0xF, gflags = 0xA, base_high = 0\<rparr>,
      \<lparr>limit_low = 0xFFFF, base_low = 0, access = 0xFA, limit_high = 0xF, gflags = 0xA, base_high = 0\<rparr>,
      \<lparr>limit_low = 0xFFFF, base_low = 0, access = 0xF2, limit_high = 0xF, gflags = 0xA, base_high = 0\<rparr>]"
    using r by (auto simp: gdt_init_def gdt_set_entry_def g Let_def)
  moreover have "s' = hw_emit (Lgdt 39 gdt_addr) s"
    using r by (auto simp: gdt_init_def gdt_set_entry_def gdt_flush_def g Let_def)
  ultimately show ?thesis
    using r by (simp add: gdt_code_def seg_base_def seg_limit_def seg_access_def seg_flags_def
        take_bit_eq_mod)
qed

text \<open>C31: whatever base, limit, access byte and flags a descriptor is set to, the processor reads the
  same base, access byte and flags and the low 20 bits of the limit out of the packed bytes.\<close>

theorem gdt_set_entry_round_trip:
  assumes "i < length (gdt g)"
  shows "seg_base (gdt_code (gdt (gdt_set_entry i base limit acc flags g) ! i)) = ucast base
     \<and> seg_limit (gdt_code (gdt (gdt_set_entry i base limit acc flags g) ! i)) = ucast (take_bit 20 limit)
     \<and> seg_access (gdt_code (gdt (gdt_set_entry i base limit acc flags g) ! i)) = ucast acc
     \<and> seg_flags (gdt_code (gdt (gdt_set_entry i base limit acc flags g) ! i)) = ucast (take_bit 4 flags)"
  using assms segment_fields [OF refl, of limit base acc flags] by (simp add: gdt_set_entry_def)

lemma pic_remap_log:
  "hw_log (pic_remap s) = hw_log s @ [Outb 0x20 0x11, Outb 0x80 0, Outb 0xA0 0x11, Outb 0x80 0,
     Outb 0x21 0x20, Outb 0x80 0, Outb 0xA1 0x28, Outb 0x80 0, Outb 0x21 0x04, Outb 0x80 0,
     Outb 0xA1 0x02, Outb 0x80 0, Outb 0x21 0x01, Outb 0x80 0, Outb 0xA1 0x01, Outb 0x80 0,
     Outb 0x21 0xFC, Outb 0xA1 0xFF]"
  by (simp add: pic_remap_def io_wait_def Let_def)

text \<open>C32: after \<open>idt_init\<close>, gate \<open>i\<close> leads to the exception stub \<open>isr i\<close> for \<open>i < 32\<close> and to the interrupt stub
  \<open>irq (i - 32)\<close> for \<open>32 \<le> i < 48\<close>, through the kernel code selector, and is present; every other gate is
  absent. The controllers are told to deliver interrupts from vector 0x20 and 0x28 on with only the
  timer and the keyboard unmasked, and interrupts are enabled last, after the table is loaded.\<close>

theorem idt_init_correct:
  assumes "length (idt d) = 256"
  shows "\<exists>d' s' pics. idt_init isr irq idt_addr d s = (d', s') \<and> length (idt d') = 256
     \<and> (\<forall>i<256. gate_offset (idt d' ! i) = (if i < 32 then isr i else if i < 48 then irq (i - 32) else 0)
          \<and> gate_present (idt d' ! i) = (i < 48) \<and> (i < 48 \<longrightarrow> selector (idt d' ! i) = 0x08))
     \<and> hw_log s' = hw_log s @ pics @ [Lidt 4095 idt_addr, Sti] \<and> if_flag s'
     \<and> port_writes 0x20 pics = [0x11] \<and> port_writes 0x21 pics = [0x20, 0x04, 0x01, 0xFC]
     \<and> port_writes 0xA0 pics = [0x11] \<and> port_writes 0xA1 pics = [0x28, 0x02, 0x01, 0xFF]"
proof -
  obtain d' s' where r: "idt_init isr irq idt_addr d s = (d', s')" by force
  let ?d1 = "fold (\<lambda>i. idt_set_entry (0 + i) 0 0 0) [0 ..< 256] d"
  let ?d2 = "fold (\<lambda>i. idt_set_entry (0 + i) (isr i) 0x08 0x8E) [0 ..< 32] ?d1"
  let ?d3 = "fold (\<lambda>i. idt_set_entry (32 + i) (irq i) 0x08 0x8E) [0 ..< 16] ?d2"
  have d': "idt d' = idt ?d3" using r by (auto simp: idt_init_def Let_def)
  note steps = idt_set_range [of 0 "\<lambda>_. 0" 0 0 256 d] idt_set_range [of 0 isr "0x08" "0x8E" 32 ?d1]
    idt_set_range [of 32 irq "0x08" "0x8E" 16 ?d2]
  have len: "length (idt ?d1) = 256" "length (idt ?d2) = 256" "length (idt ?d3) = 256"
    using steps assms by auto
  have gate: "idt d' ! i = (if i < 32 then mk_gate (isr i) 0x08 0x8E
      else if i < 48 then mk_gate (irq (i - 32)) 0x08 0x8E else mk_gate 0 0 0)" if "i < 256" for i
    using steps that len assms unfolding d' by auto
  have "bit (0x8E :: u8) 7" by simp
  then have "gate_offset (idt d' ! i) = (if i < 32 then isr i else if i < 48 then irq (i - 32) else 0)
      \<and> gate_present (idt d' ! i) = (i < 48) \<and> (i < 48 \<longrightarrow> selector (idt d' ! i) = 0x08)"
    if "i < 256" for i
    by (simp add: gate [OF that] gate_present_def)
  moreover have "hw_log s' = hw_log (pic_remap s) @ [Lidt 4095 idt_addr, Sti]" "if_flag s'"
    using r len by (auto simp: idt_init_def Let_def sti_def)
  ultimately show ?thesis using r len d' unfolding pic_remap_log by auto
qed

subsection \<open>Instances\<close>

definition gdt_blank :: gdt_state where
  "gdt_blank = \<lparr>gdt = replicate 5 \<lparr>limit_low = 0, base_low = 0, access = 0, limit_high = 0, gflags = 0,
     base_high = 0\<rparr>, gdt_ptr_limit = 0, gdt_ptr_base = 0\<rparr>"

definition idt_blank :: idt_state where
  "idt_blank = \<lparr>idt = replicate 256 (mk_gate 0 0 0), idt_ptr_limit = 0, idt_ptr_base = 0\<rparr>"

definition table_machine :: machine where
  "table_machine = \<lparr>mem = (\<lambda>_. 0), cr3 = 0, if_flag = False, port_in = (\<lambda>_ _. 0), port_rd = (\<lambda>_. 0),
     hw_log = []\<rparr>"

theorem gdt_init_correct_witness:
  "\<exists>g' s'. gdt_init 0xFFFFFFFF80005000 gdt_blank table_machine = (g', s')
     \<and> gdt_code (gdt g' ! 1) = 0x00AF9A000000FFFF"
  using gdt_init_correct [of gdt_blank "0xFFFFFFFF80005000" table_machine]
  by (auto simp: gdt_blank_def map_eq_Cons_conv)

theorem gdt_set_entry_round_trip_witness:
  "seg_base (gdt_code (gdt (gdt_set_entry 2 0x12345678 0xABCDE 0x92 0x0A gdt_blank) ! 2)) = 0x12345678"
  using gdt_set_entry_round_trip [of 2 gdt_blank "0x12345678" "0xABCDE" "0x92" "0x0A"]
  by (simp add: gdt_blank_def)

theorem idt_init_correct_witness:
  "\<exists>d' s'. idt_init (\<lambda>i. 0x1000 + of_nat i) (\<lambda>i. 0x2000 + of_nat i) 0x9000 idt_blank table_machine = (d', s')
     \<and> gate_offset (idt d' ! 33) = 0x2001"
proof -
  obtain d' s' where r:
    "idt_init (\<lambda>i. 0x1000 + of_nat i) (\<lambda>i. 0x2000 + of_nat i) 0x9000 idt_blank table_machine = (d', s')"
    "\<forall>i<256. gate_offset (idt d' ! i) = (if i < 32 then 0x1000 + of_nat i
       else if i < 48 then 0x2000 + of_nat (i - 32) else 0)"
    using idt_init_correct [of idt_blank "\<lambda>i. 0x1000 + of_nat i" "\<lambda>i. 0x2000 + of_nat i" "0x9000"
        table_machine] by (auto simp: idt_blank_def)
  from r(2) [rule_format, of 33] r(1) show ?thesis by auto
qed

end
