(* ===== verification/Apic.thy ===== *)
theory Apic
  imports Heap_Client Serial
begin

text \<open>
  \<open>src/arc/x86_64/apic.c\<close>: mapping the local APIC and unmasking its \<open>LINT0\<close> pin. The code runs before
  the frame allocator exists, so missing page tables come from a static pool of three pages; a 2 MB
  page in the way is split into a table of 512 small pages.

  The address of the pool is chosen by the linker and the base address of the APIC is read from the
  processor: both are arguments of the model. The theorems show that the walk of this file computes
  the translation of the paging code, and that the initialisation maps the APIC's page and leaves
  the translation of every other page as it was, also when it splits a large page.
\<close>

section \<open>Operations\<close>

record apic_state =
  pt_pool :: u64
  pt_pool_idx :: int

definition APIC_LINT0 :: u64 where
  "APIC_LINT0 = 0x350"

definition apic_virt :: u64 where
  "apic_virt = 0xFFFFFFFFFEE00000"

definition virt_to_phys :: "u64 \<Rightarrow> u64 \<Rightarrow> 'a machine_scheme \<Rightarrow> u64" where
  "virt_to_phys hhdm virt s =
     (let pml4 = hhdm + page_down (cr3 s);
          pml4e = load64 (mem s) (pml4 + 8 * (drop_bit 39 virt AND 0x1FF))
      in if pml4e AND 1 = 0 then 0
      else let pdpt = hhdm + phys_mask pml4e;
               pdpte = load64 (mem s) (pdpt + 8 * (drop_bit 30 virt AND 0x1FF))
      in if pdpte AND 1 = 0 then 0
      else if pdpte AND 0x80 \<noteq> 0 then (pdpte AND 0x000FFFFFC0000000) + (virt AND 0x3FFFFFFF)
      else let pd = hhdm + phys_mask pdpte;
               pde = load64 (mem s) (pd + 8 * (drop_bit 21 virt AND 0x1FF))
      in if pde AND 1 = 0 then 0
      else if pde AND 0x80 \<noteq> 0 then phys_mask pde + (virt AND 0x1FFFFF)
      else let pt = hhdm + phys_mask pde;
               pte = load64 (mem s) (pt + 8 * (drop_bit 12 virt AND 0x1FF))
      in if pte AND 1 = 0 then 0
      else phys_mask pte + (virt AND 0xFFF))"

definition pool_alloc_phys :: "u64 \<Rightarrow> apic_state \<Rightarrow> 'a machine_scheme \<Rightarrow> u64 \<times> apic_state" where
  "pool_alloc_phys hhdm a s =
     (if pt_pool_idx a \<ge> 3 then (0, a)
      else (virt_to_phys hhdm (pt_pool a + 4096 * word_of_int (pt_pool_idx a)) s,
            a\<lparr>pt_pool_idx := pt_pool_idx a + 1\<rparr>))"

definition flush_tlb :: "'a machine_scheme \<Rightarrow> 'a machine_scheme" where
  "flush_tlb s = hw_emit (Load_cr3 (cr3 s)) s"

text \<open>A missing table: the entry at address \<open>e\<close> gets a page of the pool, which is then cleared. The first
  component says whether the pool had a page.\<close>

definition pool_table :: "u64 \<Rightarrow> u64 \<Rightarrow> apic_state \<Rightarrow> 'a machine_scheme \<Rightarrow>
    bool \<times> apic_state \<times> 'a machine_scheme" where
  "pool_table hhdm e a s =
     (let (paddr, a1) = pool_alloc_phys hhdm a s
      in if paddr = 0 then (False, a1, s)
         else let m1 = store64 (mem s) e (paddr OR 0x03)
              in (True, a1, s\<lparr>mem := memset_loop (hhdm + paddr) 0 0 4096 m1\<rparr>))"

text \<open>The 2 MB page of the entry at \<open>e\<close> becomes a table of 512 pages.\<close>

definition split_fill :: "u64 \<Rightarrow> u64 \<Rightarrow> memory \<Rightarrow> memory" where
  "split_fill new_pt huge_phys m =
     fold (\<lambda>i m. store64 m (new_pt + 8 * of_nat i) ((huge_phys + push_bit 12 (of_nat i)) OR 0x23)) [0 ..< 512] m"

definition split_page :: "u64 \<Rightarrow> u64 \<Rightarrow> apic_state \<Rightarrow> 'a machine_scheme \<Rightarrow>
    bool \<times> apic_state \<times> 'a machine_scheme" where
  "split_page hhdm e a s =
     (let huge_phys = load64 (mem s) e AND NOT 0x1FFFFF;
          (pt_paddr, a1) = pool_alloc_phys hhdm a s
      in if pt_paddr = 0 then (False, a1, s)
         else let m1 = split_fill (hhdm + pt_paddr) huge_phys (mem s)
              in (True, a1, s\<lparr>mem := store64 m1 e (pt_paddr OR 0x03)\<rparr>))"

definition apic_fail :: "string \<Rightarrow> apic_state \<Rightarrow> 'a machine_scheme \<Rightarrow> (apic_state \<times> 'a machine_scheme) option" where
  "apic_fail msg a s = map_option (Pair a) (serial_puts (lit msg @ [10]) s)"

text \<open>\<open>eax\<close> and \<open>edx\<close> are what \<open>rdmsr\<close> returns for register \<open>0x1B\<close>.\<close>

definition apic_init :: "u32 \<Rightarrow> u32 \<Rightarrow> u64 \<Rightarrow> apic_state \<Rightarrow> 'a machine_scheme \<Rightarrow>
    (apic_state \<times> 'a machine_scheme) option" where
  "apic_init eax edx hhdm a s =
     (let apic_phys = (push_bit 32 (ucast edx) OR ucast eax) AND 0xFFFFFF000;
          pml4e = hhdm + page_down (cr3 s) + 8 * (drop_bit 39 apic_virt AND 0x1FF);
          (ok, a1, s1) = (if load64 (mem s) pml4e AND 1 = 0 then pool_table hhdm pml4e a s else (True, a, s))
      in if \<not> ok then apic_fail ''[APIC] failed: no pool for PDPT'' a1 s1
      else let pdpte = hhdm + phys_mask (load64 (mem s1) pml4e) + 8 * (drop_bit 30 apic_virt AND 0x1FF);
               absent = (load64 (mem s1) pdpte AND 1 = 0);
               (ok, a2, s2) = (if absent then pool_table hhdm pdpte a1 s1 else (True, a1, s1))
      in if \<not> ok then apic_fail ''[APIC] failed: no pool for PD'' a2 s2
      else if \<not> absent \<and> load64 (mem s2) pdpte AND 0x80 \<noteq> 0
        then apic_fail ''[APIC] failed: PDPT 1GB page conflict'' a2 s2
      else let pde = hhdm + phys_mask (load64 (mem s2) pdpte) + 8 * (drop_bit 21 apic_virt AND 0x1FF);
               absent = (load64 (mem s2) pde AND 1 = 0);
               (ok, a3, s3) = (if absent then pool_table hhdm pde a2 s2
                               else if load64 (mem s2) pde AND 0x80 \<noteq> 0 then split_page hhdm pde a2 s2
                               else (True, a2, s2))
      in if \<not> ok then apic_fail (if absent then ''[APIC] failed: no pool for PT''
                                 else ''[APIC] failed: no pool to split 2MB'') a3 s3
      else let pte = hhdm + phys_mask (load64 (mem s3) pde) + 8 * (drop_bit 12 apic_virt AND 0x1FF);
               s4 = s3\<lparr>mem := store64 (mem s3) pte (page_down apic_phys OR 0x23)\<rparr>;
               s5 = flush_tlb s4
      in Some (a3, s5\<lparr>mem := store32 (mem s5) (apic_virt + 4 * (APIC_LINT0 div 4)) 0x700\<rparr>))"

section \<open>The walk\<close>

lemma virt_to_phys_vmm: "virt_to_phys h v s = vmm_virt_to_phys h v s"
  by (simp add: virt_to_phys_def vmm_virt_to_phys_def get_cr3_def PML4_I_def PDPT_I_def PD_I_def PT_I_def Let_def)

section \<open>Tables from the pool\<close>

text \<open>Every table and every page of the pool is reached below the APIC's window.\<close>

definition low_frame :: "u64 \<Rightarrow> u64 \<Rightarrow> bool" where
  "low_frame h t \<longleftrightarrow> unat h + unat t + 4096 \<le> unat apic_virt"

definition pool_inv :: "u64 \<Rightarrow> u64 \<Rightarrow> u64 list \<Rightarrow> memory \<Rightarrow> bool" where
  "pool_inv h r qs m \<longleftrightarrow> pt_tree m h r \<and> distinct qs
     \<and> (\<forall>q \<in> set qs. page_aligned q \<and> q \<noteq> 0 \<and> q < 2 ^ 52 \<and> not_table m h r q \<and> low_frame h q)
     \<and> (\<forall>js t. pt_path js \<longrightarrow> pt_table m h r js = Some t \<longrightarrow> low_frame h t)"

text \<open>Linking page \<open>q\<close> at an index path: the tables afterwards.\<close>

lemma pool_inv_link:
  assumes inv: "pool_inv h r (q # qs) m" and p: "pt_path (i # js0)"
    and lt: "\<And>js. pt_path js \<Longrightarrow> pt_table m' h r js = (if js = i # js0 then Some q else pt_table m h r js)"
  shows "pool_inv h r qs m'"
proof -
  from inv have tree: "pt_tree m h r" and q: "q \<noteq> 0" "not_table m h r q" by (simp_all add: pool_inv_def)
  have "t' \<noteq> 0" if "pt_path js" "pt_table m' h r js = Some t'" for js t'
    using that lt [OF that(1)] tree q(1) unfolding pt_tree_def by (metis option.inject)
  moreover have "js = ks" if "pt_path js" "pt_path ks" "pt_table m' h r js = Some t'" "pt_table m' h r ks = Some t'"
    for js ks t'
    using that lt [OF that(1)] lt [OF that(2)] q(2) tree
    unfolding pt_tree_def not_table_def by (auto split: if_splits)
  ultimately have "pt_tree m' h r" using tree unfolding pt_tree_def by blast
  moreover have "not_table m' h r p" if "p \<in> set qs" for p
    using inv that lt unfolding pool_inv_def not_table_def by (auto split: if_splits)
  ultimately show ?thesis using inv lt unfolding pool_inv_def by (auto split: if_splits)
qed

lemma zero_after_store:
  assumes "page_aligned q" "page_aligned t" "q \<noteq> t" "i < 512"
  shows "memset_loop (h + q) 0 0 4096 (store64 m (cell h t i) v) = store64 (zero_frame h q m) (cell h t i) v"
proof
  fix x
  show "memset_loop (h + q) 0 0 4096 (store64 m (cell h t i) v) x = store64 (zero_frame h q m) (cell h t i) v x"
  proof (cases "in_frame h q x")
    case True
    then have "outside (cell h t i) 8 x" using assms in_frame_unique cell_outside by blast
    with True show ?thesis by (simp add: zero_frame_def [symmetric] zero_frame_mem store64_outside)
  next
    case False
    then have "zero_frame h q m x = m x" by (simp add: zero_frame_mem)
    from wr_cong [of "zero_frame h q m" x m 8 "cell h t i" v, OF this] False show ?thesis
      by (simp add: zero_frame_def [symmetric] zero_frame_mem store64_def)
  qed
qed

lemma pool_link:
  assumes inv: "pool_inv h r (q # qs) m" and at: "pt_path (i # js0)" "pt_table m h r js0 = Some t"
    and absent: "load64 m (cell h t i) AND 1 = 0"
  defines "m' \<equiv> memset_loop (h + q) 0 0 4096 (store64 m (cell h t i) (q OR 3))"
  shows "pool_inv h r qs m'" "pt_table m' h r (i # js0) = Some q"
    "pt_xlat (pt_entry m' h r) v = pt_xlat (pt_entry m h r) v"
    "pt_path js \<Longrightarrow> js \<noteq> i # js0 \<Longrightarrow> pt_table m' h r js = pt_table m h r js"
    "pt_path js \<Longrightarrow> j < 512 \<Longrightarrow> pt_entry m' h r js j = (if js = js0 \<and> j = i then Some (q OR 3)
       else if js = i # js0 then Some 0 else pt_entry m h r js j)"
    "phys_mask (load64 m' (cell h t i)) = q"
proof -
  from inv have tree: "pt_tree m h r" and q: "page_aligned q" "q < 2 ^ 52" "q \<noteq> 0" "not_table m h r q"
    by (simp_all add: pool_inv_def)
  have js0: "pt_path js0" "i < 512" using at(1) pt_path_tl by auto
  have t: "page_aligned t" "q \<noteq> t"
    using tree at(2) q(4) js0(1) pt_table_aligned by (auto simp: pt_tree_def not_table_def)
  have m': "m' = link_table h q t i m"
    using zero_after_store [OF q(1) t js0(2)] by (simp add: m'_def link_table_def)
  note lt = link_table_tree [OF tree q(1,2,4) at absent]
  note le = link_table_entry [OF tree q(1,2,4) at absent]
  show "pool_inv h r qs m'"
    using lt unfolding m' by (intro pool_inv_link [OF inv at(1)])
  show "pt_table m' h r (i # js0) = Some q" using lt [OF at(1)] by (simp add: m')
  show "pt_path js \<Longrightarrow> js \<noteq> i # js0 \<Longrightarrow> pt_table m' h r js = pt_table m h r js" using lt by (simp add: m')
  show "pt_path js \<Longrightarrow> j < 512 \<Longrightarrow> pt_entry m' h r js j = (if js = js0 \<and> j = i then Some (q OR 3)
       else if js = i # js0 then Some 0 else pt_entry m h r js j)" using le by (simp add: m')
  have "pt_entry m h r js0 i = Some (load64 m (cell h t i))" using at(2) by (simp add: pt_entry_def)
  then show "pt_xlat (pt_entry m' h r) v = pt_xlat (pt_entry m h r) v"
    unfolding m' using absent at(1) by (intro link_table_xlat [OF le q(1)]) simp_all
  show "phys_mask (load64 m' (cell h t i)) = q" using entry_frame [OF q(1,2), of 3] by (simp add: m' link_table_def)
qed

section \<open>Splitting a large page\<close>

lemma split_fill_steps:
  fixes h huge :: u64
  assumes "page_aligned q" "n \<le> 512"
  defines "f \<equiv> \<lambda>i m. store64 m (h + q + 8 * of_nat i) ((huge + push_bit 12 (of_nat i)) OR 0x23)"
  shows "\<not> in_frame h q x \<Longrightarrow> fold f [0 ..< n] m x = m x"
    and "k < n \<Longrightarrow> load64 (fold f [0 ..< n] m) (cell h q (of_nat k)) = (huge + push_bit 12 (of_nat k)) OR 0x23"
proof -
  have lt: "(of_nat i :: u64) < 512" if "i < 512" for i
    using that by (simp add: word_less_nat_alt unat_of_nat_u64)
  show "fold f [0 ..< n] m x = m x" if "\<not> in_frame h q x"
    using assms(2) by (induction n) (simp_all add: f_def store64_outside cell_outside that lt)
  show "load64 (fold f [0 ..< n] m) (cell h q (of_nat k)) = (huge + push_bit 12 (of_nat k)) OR 0x23" if "k < n"
    using assms(2) that
  proof (induction n)
    case (Suc n)
    show ?case
    proof (cases "k = n")
      case True
      then show ?thesis by (simp add: f_def)
    next
      case False
      then have "(of_nat n :: u64) \<noteq> of_nat k"
        using Suc.prems by (subst word_unat_eq_iff, subst (1 2) unat_of_nat_u64) simp_all
      then have "apart (cell h q (of_nat n)) 8 (cell h q (of_nat k)) 8"
        using assms(1) Suc.prems lt by (intro cells_apart) simp_all
      then show ?thesis using Suc False by (simp add: f_def load64_store64_apart)
    qed
  qed simp
qed

lemma split_fill_cell:
  assumes "page_aligned q" "j < 512"
  shows "load64 (split_fill (h + q) huge m) (cell h q j) = (huge + push_bit 12 j) OR 0x23"
proof -
  have "unat j < 512" using assms(2) by (simp add: word_less_nat_alt)
  from split_fill_steps(2) [OF assms(1) order_refl this, of h huge m] show ?thesis
    by (simp add: split_fill_def)
qed

text \<open>The small page of a split page is the part of the large page at the same address.\<close>

lemma split_entry_xlat:
  assumes "e AND 0x1FF000 = 0"
  shows "phys_mask (((e AND NOT 0x1FFFFF) + push_bit 12 (PT_I v)) OR 0x23) + (v AND 0xFFF)
     = phys_mask e + (v AND 0x1FFFFF)"
    and "(((e AND NOT 0x1FFFFF) + push_bit 12 (PT_I v)) OR 0x23) AND 1 \<noteq> 0"
proof -
  have m: "(0x1FFFFF::u64) = mask 21" "(0x1FF::u64) = mask 9" "(0xFFF::u64) = mask 12"
    "(0x1FF000::u64) = push_bit 12 (mask 9)" "(0x000FFFFFFFFFF000::u64) = push_bit 12 (mask 40)"
    by (simp_all add: mask_eq_exp_minus_1)
  have e: "\<not> bit e n" if "12 \<le> n" "n < 21" for n
  proof
    assume "bit e n"
    with that have "bit (e AND 0x1FF000) n" unfolding m by (auto simp: bit_simps)
    with assms show False by simp
  qed
  let ?a = "e AND NOT 0x1FFFFF" and ?b = "push_bit 12 (PT_I v)"
  have ab: "?a + ?b = ?a OR ?b"
    by (rule disjunctive_add) (auto simp: m PT_I_def bit_simps)
  have l: "phys_mask (((e AND NOT 0x1FFFFF) + ?b) OR 0x23) + (v AND 0xFFF)
      = phys_mask ((?a OR ?b) OR 0x23) OR (v AND 0xFFF)"
    unfolding ab by (rule disjunctive_add) (auto simp: phys_mask_def m bit_simps)
  have r: "phys_mask e + (v AND 0x1FFFFF) = phys_mask e OR (v AND 0x1FFFFF)"
    by (rule disjunctive_add) (auto simp: phys_mask_def m bit_simps e)
  have p23: "phys_mask ((?a OR ?b) OR 0x23) = phys_mask (?a OR ?b)"
    by (simp add: phys_mask_def bit.conj_disj_distrib2)
  show "phys_mask ((?a + ?b) OR 0x23) + (v AND 0xFFF) = phys_mask e + (v AND 0x1FFFFF)"
    unfolding l r p23
    by (rule bit_word_eqI) (auto simp: phys_mask_def m PT_I_def bit_simps e)
  show "((?a + ?b) OR 0x23) AND 1 \<noteq> 0"
    by (metis bit_0 bit_or_iff bit_and_iff bit_1_0 odd_numeral bit_0_eq bot_apply bot_bool_def)
qed

lemma pool_split:
  assumes inv: "pool_inv h r (q # qs) m" and at: "pt_path [i, a, b]" "pt_table m h r [a, b] = Some t"
    and e: "e = load64 m (cell h t i)" "e AND 1 \<noteq> 0" "e AND 0x80 \<noteq> 0" "e AND 0x1FF000 = 0"
  defines "m' \<equiv> store64 (split_fill (h + q) (e AND NOT 0x1FFFFF) m) (cell h t i) (q OR 3)"
  shows "pool_inv h r qs m'" "pt_table m' h r [i, a, b] = Some q"
    "pt_xlat (pt_entry m' h r) v = pt_xlat (pt_entry m h r) v"
    "phys_mask (load64 m' (cell h t i)) = q"
proof -
  define m1 where "m1 = split_fill (h + q) (e AND NOT 0x1FFFFF) m"
  from inv have tree: "pt_tree m h r" and q: "page_aligned q" "q < 2 ^ 52" "q \<noteq> 0" "not_table m h r q"
    by (simp_all add: pool_inv_def)
  have m1: "m1 x = m x" if "\<not> in_frame h q x" for x
    using split_fill_steps(1) [OF q(1) order_refl that] by (simp add: m1_def split_fill_def)
  have f1: "pt_table m1 h r js = pt_table m h r js" "k < 512 \<Longrightarrow> pt_entry m1 h r js k = pt_entry m h r js k"
    "pt_tree m1 h r" if "pt_path js" for js k
    using frame_update_tree [OF tree q(1,4), of m1] m1 that by simp_all
  have js0: "pt_path [a, b]" "i < 512" using at(1) by auto
  have t1: "pt_table m1 h r [a, b] = Some t" using f1(1) [OF js0(1)] at(2) by simp
  have shape: "js = [i, a, b] \<or> (\<forall>ks. js \<noteq> ks @ i # [a, b])" if "pt_path js" for js
  proof (rule disjCI)
    assume "\<not> (\<forall>ks. js \<noteq> ks @ i # [a, b])"
    then obtain ks where "js = ks @ i # [a, b]" by blast
    with that show "js = [i, a, b]" by (cases ks) (auto simp: pt_path_def)
  qed
  have p3: "(q OR 3) AND 1 \<noteq> 0" "(q OR 3) AND 0x80 = 0" "phys_mask (q OR 3) = q"
    using entry_flags [OF q(1), of 1 3] entry_flags [OF q(1), of "0x80" 3] entry_frame [OF q(1,2), of 3] by simp_all
  note st = tree_store [OF f1(3) [OF js0(1)] js0(1) t1 js0(2), where v = "q OR 3", folded m'_def [folded m1_def]]
  have link: "pt_table m' h r [i, a, b] = Some q"
    using st [OF js0(1)] t1 p3 by (simp add: pt_next_def m'_def m1_def)
  have lt: "pt_table m' h r js = (if js = [i, a, b] then Some q else pt_table m h r js)" if "pt_path js" for js
    using shape [OF that] link st [OF that] f1(1) [OF that] by auto
  show "pool_inv h r qs m'" by (rule pool_inv_link [OF inv at(1) lt])
  show "pt_table m' h r [i, a, b] = Some q" by (rule link)
  show "phys_mask (load64 m' (cell h t i)) = q" using p3 by (simp add: m'_def)
  have "page_aligned r" using tree by (simp add: pt_tree_def)
  then have tq: "page_aligned t" "t \<noteq> q"
    using pt_table_aligned [OF _ at(2)] q(4) [unfolded not_table_def] js0(1) at(2) by blast+
  have new: "pt_entry m' h r [i, a, b] j = Some (((e AND NOT 0x1FFFFF) + push_bit 12 j) OR 0x23)" if "j < 512" for j
    using cells_apart [of t q i j h] tq q(1) js0(2) that split_fill_cell [OF q(1) that] link
    by (simp add: pt_entry_def m'_def load64_store64_apart)
  have old: "pt_entry m' h r js j = (if js = [a, b] \<and> j = i then Some (q OR 3) else pt_entry m h r js j)"
    if "pt_path js" "js \<noteq> [i, a, b]" "j < 512" for js j
    using tree_store_entry [OF f1(3) [OF js0(1)] js0(1) t1 js0(2) that(1) _ that(3), where v = "q OR 3"]
      shape [OF that(1)] that f1(2) [OF that(1,3)] by (simp add: m'_def m1_def)
  have ee: "pt_entry m h r [a, b] i = Some e" using at(2) e(1) by (simp add: pt_entry_def)
  show "pt_xlat (pt_entry m' h r) v = pt_xlat (pt_entry m h r) v"
  proof (cases "[PD_I v, PDPT_I v, PML4_I v] = [i, a, b]")
    case True
    then have u: "pt_entry m' h r [] (PML4_I v) = pt_entry m h r [] (PML4_I v)"
      "pt_entry m' h r [PML4_I v] (PDPT_I v) = pt_entry m h r [PML4_I v] (PDPT_I v)"
      "pt_entry m' h r [PDPT_I v, PML4_I v] (PD_I v) = Some (q OR 3)"
      using old [of "[]" "PML4_I v"] old [of "[PML4_I v]" "PDPT_I v"] old [of "[a, b]" i] js0 by auto
    have "pt_entry m h r [PDPT_I v, PML4_I v] (PD_I v) = Some e" using True ee by simp
    moreover have "pt_entry m' h r [PD_I v, PDPT_I v, PML4_I v] (PT_I v)
        = Some (((e AND NOT 0x1FFFFF) + push_bit 12 (PT_I v)) OR 0x23)" using True new by simp
    ultimately show ?thesis
      unfolding pt_xlat_def u Let_def using p3 e(2,3) split_entry_xlat [OF e(4), of v] by simp
  next
    case False
    then show ?thesis
      using old [of "[]" "PML4_I v"] old [of "[PML4_I v]" "PDPT_I v"] old [of "[PDPT_I v, PML4_I v]" "PD_I v"]
        old [of "[PD_I v, PDPT_I v, PML4_I v]" "PT_I v"] by (intro pt_xlat_cong) auto
  qed
qed

section \<open>The initialisation\<close>

text \<open>The remaining pages of the pool lie in the frames \<open>qs\<close>, none of which is a page table.\<close>

definition pool_ready :: "u64 \<Rightarrow> apic_state \<Rightarrow> 'a machine_scheme \<Rightarrow> u64 list \<Rightarrow> bool" where
  "pool_ready h a s qs \<longleftrightarrow> pool_inv h (page_down (cr3 s)) qs (mem s) \<and> 0 \<le> pt_pool_idx a
     \<and> qs = map (\<lambda>k. vmm_virt_to_phys h (pt_pool a + 4096 * of_nat k) s) [nat (pt_pool_idx a) ..< 3]"

text \<open>What the levels of the walk may do: tables appear, translations stay, no large page appears.\<close>

definition pool_step :: "u64 \<Rightarrow> 'a machine_scheme \<Rightarrow> 'a machine_scheme \<Rightarrow> bool" where
  "pool_step h s s' \<longleftrightarrow> s' = s\<lparr>mem := mem s'\<rparr> \<and> (\<forall>v. vmm_virt_to_phys h v s' = vmm_virt_to_phys h v s)
     \<and> (\<forall>js j e. pt_path js \<longrightarrow> j < 512 \<longrightarrow> pt_entry (mem s') h (page_down (cr3 s)) js j = Some e \<longrightarrow>
          e AND 0x80 \<noteq> 0 \<longrightarrow> pt_entry (mem s) h (page_down (cr3 s)) js j = Some e)"

lemma pool_alloc_ready:
  assumes "pool_ready h a s (q # qs)"
  shows "pool_alloc_phys h a s = (q, a\<lparr>pt_pool_idx := pt_pool_idx a + 1\<rparr>)" "q \<noteq> 0"
    and "pool_inv h (page_down (cr3 s)) qs m' \<Longrightarrow>
      (\<And>v. vmm_virt_to_phys h v (s\<lparr>mem := m'\<rparr>) = vmm_virt_to_phys h v s) \<Longrightarrow>
      pool_ready h (a\<lparr>pt_pool_idx := pt_pool_idx a + 1\<rparr>) (s\<lparr>mem := m'\<rparr>) qs"
proof -
  obtain n where n: "pt_pool_idx a = int n" using assms by (auto simp: pool_ready_def intro: nonneg_int_cases)
  with assms have "n < 3" by (simp add: pool_ready_def) (metis upt_rec list.map(1) list.discI)
  then have u: "[n ..< 3] = n # [Suc n ..< 3]" by (rule upt_conv_Cons)
  have q: "q = vmm_virt_to_phys h (pt_pool a + 4096 * of_nat n) s"
    "qs = map (\<lambda>k. vmm_virt_to_phys h (pt_pool a + 4096 * of_nat k) s) [Suc n ..< 3]"
    using assms by (simp_all add: pool_ready_def n u)
  show "pool_alloc_phys h a s = (q, a\<lparr>pt_pool_idx := pt_pool_idx a + 1\<rparr>)"
    using \<open>n < 3\<close> q(1) by (simp add: pool_alloc_phys_def n virt_to_phys_vmm)
  show "q \<noteq> 0" using assms by (simp add: pool_ready_def pool_inv_def)
  have "nat (int n + 1) = Suc n" by simp
  then show "pool_inv h (page_down (cr3 s)) qs m' \<Longrightarrow>
      (\<And>v. vmm_virt_to_phys h v (s\<lparr>mem := m'\<rparr>) = vmm_virt_to_phys h v s) \<Longrightarrow>
      pool_ready h (a\<lparr>pt_pool_idx := pt_pool_idx a + 1\<rparr>) (s\<lparr>mem := m'\<rparr>) qs"
    using q(2) by (simp add: pool_ready_def n)
qed

lemma level_step:
  fixes s :: "'a machine_scheme"
  assumes rdy: "pool_ready h a s qs" "qs \<noteq> []"
    and at: "pt_path (i # js0)" "pt_table (mem s) h (page_down (cr3 s)) js0 = Some t" and e: "e = cell h t i"
    and small: "load64 (mem s) e AND 1 \<noteq> 0 \<and> js0 \<noteq> [] \<longrightarrow> load64 (mem s) e AND 0x80 = 0"
  obtains a1 s1 qs' where
    "(if load64 (mem s) e AND 1 = 0 then pool_table h e a s else (True, a, s)) = (True, a1, s1)"
    "pool_ready h a1 s1 qs'" "length qs \<le> Suc (length qs')" "pool_step h s s1"
    "pt_table (mem s1) h (page_down (cr3 s)) (i # js0) = Some (phys_mask (load64 (mem s1) e))"
    "load64 (mem s) e AND 1 = 0 \<or> s1 = s"
proof (cases "load64 (mem s) e AND 1 = 0")
  case False
  then have "pt_table (mem s) h (page_down (cr3 s)) (i # js0) = Some (phys_mask (load64 (mem s) e))"
    using at(2) small by (auto simp: e pt_next_def Let_def)
  with False rdy that [of a s qs] show ?thesis by (simp add: pool_step_def)
next
  case True
  let ?r = "page_down (cr3 s)"
  obtain q qs' where qs: "qs = q # qs'" using rdy(2) by (cases qs) auto
  note al = pool_alloc_ready [OF rdy(1) [unfolded qs]]
  define m' where "m' = memset_loop (h + q) 0 0 4096 (store64 (mem s) e (q OR 3))"
  have inv: "pool_inv h ?r (q # qs') (mem s)" using rdy(1) unfolding qs pool_ready_def by (rule conjunct1)
  note lk = pool_link [OF inv at True [unfolded e], folded e, folded m'_def]
  have x: "vmm_virt_to_phys h v (s\<lparr>mem := m'\<rparr>) = vmm_virt_to_phys h v s" for v
    using lk(3) [of v] by (simp add: vmm_virt_to_phys_xlat)
  have q: "page_aligned q" using inv by (simp add: pool_inv_def)
  have "(q OR 3) AND 0x80 = 0" using entry_flags [OF q, of "0x80" 3] by simp
  then have "pool_step h s (s\<lparr>mem := m'\<rparr>)"
    using x lk(5) by (auto simp: pool_step_def split: if_splits)
  moreover have "pool_table h e a s = (True, a\<lparr>pt_pool_idx := pt_pool_idx a + 1\<rparr>, s\<lparr>mem := m'\<rparr>)"
    using al(1,2) by (simp add: pool_table_def m'_def)
  ultimately show ?thesis
    using that [of "a\<lparr>pt_pool_idx := pt_pool_idx a + 1\<rparr>" "s\<lparr>mem := m'\<rparr>" qs'] True qs al(3) [OF lk(1) x] lk(2,6)
    by simp
qed

lemma split_step:
  fixes s :: "'a machine_scheme"
  assumes rdy: "pool_ready h a s qs" "qs \<noteq> []"
    and at: "pt_path [i, b, c]" "pt_table (mem s) h (page_down (cr3 s)) [b, c] = Some t" and e: "e = cell h t i"
    and large: "load64 (mem s) e AND 1 \<noteq> 0" "load64 (mem s) e AND 0x80 \<noteq> 0" "load64 (mem s) e AND 0x1FF000 = 0"
  obtains a1 s1 qs' where "split_page h e a s = (True, a1, s1)" "pool_ready h a1 s1 qs'"
    "\<forall>v. vmm_virt_to_phys h v s1 = vmm_virt_to_phys h v s" "s1 = s\<lparr>mem := mem s1\<rparr>"
    "pt_table (mem s1) h (page_down (cr3 s)) [i, b, c] = Some (phys_mask (load64 (mem s1) e))"
proof -
  let ?r = "page_down (cr3 s)"
  obtain q qs' where qs: "qs = q # qs'" using rdy(2) by (cases qs) auto
  note al = pool_alloc_ready [OF rdy(1) [unfolded qs]]
  define m' where "m' = store64 (split_fill (h + q) (load64 (mem s) e AND NOT 0x1FFFFF) (mem s)) e (q OR 3)"
  have inv: "pool_inv h ?r (q # qs') (mem s)" using rdy(1) unfolding qs pool_ready_def by (rule conjunct1)
  note lk = pool_split [OF inv at, folded e, OF refl large, folded m'_def]
  have x: "vmm_virt_to_phys h v (s\<lparr>mem := m'\<rparr>) = vmm_virt_to_phys h v s" for v
    using lk(3) [of v] by (simp add: vmm_virt_to_phys_xlat)
  have "split_page h e a s = (True, a\<lparr>pt_pool_idx := pt_pool_idx a + 1\<rparr>, s\<lparr>mem := m'\<rparr>)"
    using al(1,2) by (simp add: split_page_def m'_def Let_def)
  from that [OF this al(3) [OF lk(1) x]] x lk(2,4) show ?thesis by simp
qed

lemma store_above_tables:
  assumes "pool_inv h r qs m" "pt_path js" "pt_table m h r js = Some t" "j < 512"
  shows "load64 (store32 m (apic_virt + 4 * (APIC_LINT0 div 4)) v) (cell h t j) = load64 m (cell h t j)"
proof (rule load64_cong)
  fix k :: nat assume "k < 8"
  let ?x = "cell h t j + of_nat k" and ?l = "apic_virt + 4 * (APIC_LINT0 div 4)"
  have low: "unat h + unat t + 4096 \<le> unat apic_virt"
    using assms(1-3) by (auto simp: pool_inv_def low_frame_def)
  have "in_frame h t ?x" using assms(4) \<open>k < 8\<close> by (rule cell_in_frame)
  then have d: "unat (?x - (h + t)) < 4096" by (simp add: in_frame_def)
  have a: "unat apic_virt = 0xFFFFFFFFFEE00000" by (simp add: apic_virt_def)
  have ht: "unat (h + t) = unat h + unat t" using low a by (simp add: unat_word_ariths)
  have lt: "unat (h + t) + unat (?x - (h + t)) < 2 ^ 64" using low a d ht by simp
  have sum: "unat (z + y) = unat z + unat y" if "unat z + unat y < 2 ^ 64" for y z :: u64
    using that by (simp add: unat_word_ariths)
  have "?x = (h + t) + (?x - (h + t))" by simp
  then have "unat ?x = unat (h + t) + unat (?x - (h + t))" using sum [OF lt] by (simp only:)
  then have "unat ?x < unat apic_virt" using d ht low by simp
  moreover have "unat ?l = unat apic_virt + 0x350" by (simp add: apic_virt_def APIC_LINT0_def)
  ultimately have "4 \<le> unat (?x - ?l)" by (simp add: unat_sub_if' apic_virt_def)
  then show "store32 m ?l v ?x = m ?x" by (simp add: store32_outside outside_def)
qed

lemma pool_inv_same:
  assumes "pool_inv h r qs m" "\<And>js. pt_path js \<Longrightarrow> pt_table m' h r js = pt_table m h r js"
  shows "pool_inv h r qs m'"
proof -
  have "pt_tree m' h r" using assms unfolding pool_inv_def pt_tree_def by metis
  with assms show ?thesis unfolding pool_inv_def not_table_def by auto
qed

lemma store_lint0_xlat:
  assumes "pool_inv h r qs m"
  shows "pt_xlat (pt_entry (store32 m (apic_virt + 4 * (APIC_LINT0 div 4)) v) h r) w = pt_xlat (pt_entry m h r) w"
proof -
  let ?m = "store32 m (apic_virt + 4 * (APIC_LINT0 div 4)) v"
  have "pt_table ?m h r js = pt_table m h r js" if "pt_path js" for js
    by (rule tree_cong [OF store_above_tables [OF assms] that])
  then have "pt_entry ?m h r js j = pt_entry m h r js j" if "pt_path js" "j < 512" for js j
    using store_above_tables [OF assms that(1) _ that(2)] that
    by (cases "pt_table m h r js") (auto simp: pt_entry_def)
  then show ?thesis by (intro pt_xlat_cong) simp_all
qed

definition apic_base :: "u32 \<Rightarrow> u32 \<Rightarrow> u64" where
  "apic_base eax edx = (push_bit 32 (ucast edx) OR ucast eax) AND 0xFFFFFF000"

lemma apic_base_entry:
  "page_down (apic_base eax edx) = apic_base eax edx" "phys_mask (apic_base eax edx OR 0x23) = apic_base eax edx"
  "(apic_base eax edx OR 0x23) AND 1 = 1"
proof -
  have al: "page_aligned (apic_base eax edx)" by (simp add: apic_base_def page_aligned_def and.assoc)
  then show "page_down (apic_base eax edx) = apic_base eax edx" by (rule page_down_same)
  have "apic_base eax edx \<le> 0xFFFFFF000" unfolding apic_base_def by (rule word_and_le1)
  then have "apic_base eax edx < 2 ^ 52" by (rule order_le_less_trans) simp
  with al show "phys_mask (apic_base eax edx OR 0x23) = apic_base eax edx" by (intro entry_frame) simp_all
  show "(apic_base eax edx OR 0x23) AND 1 = 1" using entry_flags [OF al, of 1 "0x23"] by simp
qed

text \<open>The last step: the leaf entry, the TLB flush and the write to the APIC.\<close>

lemma apic_finish:
  fixes s :: "'a machine_scheme" and eax edx :: u32
  assumes rdy: "pool_ready h a s qs"
    and leaf: "pt_table (mem s) h (page_down (cr3 s)) (leaf_path apic_virt) = Some t"
  defines "s4 \<equiv> s\<lparr>mem := store64 (mem s) (cell h t (PT_I apic_virt)) (page_down (apic_base eax edx) OR 0x23)\<rparr>"
  defines "s' \<equiv> (flush_tlb s4)\<lparr>mem := store32 (mem (flush_tlb s4)) (apic_virt + 4 * (APIC_LINT0 div 4)) 0x700\<rparr>"
  shows "vmm_virt_to_phys h w s' = (if vpage w = vpage apic_virt then apic_base eax edx + (w AND 0xFFF)
     else vmm_virt_to_phys h w s)" "load32 (mem s') (apic_virt + APIC_LINT0) = 0x700"
    "hw_log s' = hw_log s @ [Load_cr3 (cr3 s)]" "pt_tree (mem s') h (page_down (cr3 s'))" "cr3 s' = cr3 s"
proof -
  let ?r = "page_down (cr3 s)" and ?m = "store64 (mem s) (cell h t (PT_I apic_virt)) (apic_base eax edx OR 0x23)"
  from rdy have inv: "pool_inv h ?r qs (mem s)" unfolding pool_ready_def by (rule conjunct1)
  then have tree: "pt_tree (mem s) h ?r" by (simp add: pool_inv_def)
  have inv4: "pool_inv h ?r qs ?m" by (rule pool_inv_same [OF inv leaf_store_table [OF tree leaf]])
  have lint: "apic_virt + 4 * (APIC_LINT0 div 4) = apic_virt + APIC_LINT0" by (simp add: APIC_LINT0_def)
  have s': "mem s' = store32 ?m (apic_virt + 4 * (APIC_LINT0 div 4)) 0x700" "cr3 s' = cr3 s"
    by (simp_all add: s'_def s4_def flush_tlb_def apic_base_entry(1))
  show "vmm_virt_to_phys h w s' = (if vpage w = vpage apic_virt then apic_base eax edx + (w AND 0xFFF)
     else vmm_virt_to_phys h w s)"
    using leaf_store_pt_xlat [OF tree leaf, of "apic_base eax edx OR 0x23" w]
    by (simp add: vmm_virt_to_phys_xlat s' store_lint0_xlat [OF inv4] apic_base_entry)
  show "load32 (mem s') (apic_virt + APIC_LINT0) = 0x700" by (simp add: s'(1) lint)
  show "hw_log s' = hw_log s @ [Load_cr3 (cr3 s)]" by (simp add: s'_def s4_def flush_tlb_def)
  have "pt_table (mem s') h ?r js = pt_table ?m h ?r js" if "pt_path js" for js
    unfolding s'(1) by (rule tree_cong [OF store_above_tables [OF inv4] that])
  from pool_inv_same [OF inv4 this] show "pt_tree (mem s') h (page_down (cr3 s'))" by (simp add: s'(2) pool_inv_def)
  show "cr3 s' = cr3 s" by (rule s'(2))
qed

lemma pool_step_frame:
  assumes "pool_step h s s'"
  shows "cr3 s' = cr3 s" "hw_log s' = hw_log s" "vmm_virt_to_phys h v s' = vmm_virt_to_phys h v s"
proof -
  from assms have "s' = s\<lparr>mem := mem s'\<rparr>" by (simp add: pool_step_def)
  from arg_cong [OF this, of cr3] arg_cong [OF this, of hw_log]
  show "cr3 s' = cr3 s" "hw_log s' = hw_log s" by simp_all
  show "vmm_virt_to_phys h v s' = vmm_virt_to_phys h v s" using assms by (simp add: pool_step_def)
qed

lemma pool_step_large:
  assumes "pool_step h s s'" "pt_path js" "j < 512" "pt_table (mem s') h (page_down (cr3 s)) js = Some t"
    and "load64 (mem s') (cell h t j) AND 0x80 \<noteq> 0"
  shows "pt_entry (mem s) h (page_down (cr3 s)) js j = Some (load64 (mem s') (cell h t j))"
  using assms by (auto simp: pool_step_def pt_entry_def)

lemma pool_step_trans:
  assumes "pool_step h s t" "pool_step h t u"
  shows "pool_step h s u"
proof -
  have t: "t = s\<lparr>mem := mem t\<rparr>" and u: "u = t\<lparr>mem := mem u\<rparr>" using assms by (simp_all add: pool_step_def)
  from u have "u = s\<lparr>mem := mem u\<rparr>" by (subst (asm) t) simp
  then show ?thesis using assms pool_step_frame(1) [OF assms(1)] unfolding pool_step_def by metis
qed

abbreviation aent :: "u64 \<Rightarrow> 'a machine_scheme \<Rightarrow> u64 list \<Rightarrow> u64 \<Rightarrow> u64 option" where
  "aent h s \<equiv> pt_entry (mem s) h (page_down (cr3 s))"

text \<open>At the third level a missing table is added and a 2 MB page is split; either way the translations stay.\<close>

lemma directory_step:
  assumes "pool_ready h a s qs" "qs \<noteq> []" "pt_path (leaf_path v)"
    and t: "pt_table (mem s) h (page_down (cr3 s)) [PDPT_I v, PML4_I v] = Some t" "p2 = cell h t (PD_I v)"
    and big: "load64 (mem s) p2 AND 0x80 \<noteq> 0 \<Longrightarrow> load64 (mem s) p2 AND 0x1FF000 = 0"
  obtains a3 s3 qs3 where "(if load64 (mem s) p2 AND 1 = 0 then pool_table h p2 a s
      else if load64 (mem s) p2 AND 0x80 \<noteq> 0 then split_page h p2 a s else (True, a, s)) = (True, a3, s3)"
    "pool_ready h a3 s3 qs3" "\<forall>w. vmm_virt_to_phys h w s3 = vmm_virt_to_phys h w s"
    "s3 = s\<lparr>mem := mem s3\<rparr>" "pt_table (mem s3) h (page_down (cr3 s)) (leaf_path v) = Some (phys_mask (load64 (mem s3) p2))"
proof (cases "load64 (mem s) p2 AND 1 \<noteq> 0 \<and> load64 (mem s) p2 AND 0x80 \<noteq> 0")
  case True
  then have e: "load64 (mem s) p2 AND 1 \<noteq> 0" "load64 (mem s) p2 AND 0x80 \<noteq> 0"
    "load64 (mem s) p2 AND 0x1FF000 = 0" using big by blast+
  obtain a3 s3 qs3 where "split_page h p2 a s = (True, a3, s3)" "pool_ready h a3 s3 qs3"
    "\<forall>w. vmm_virt_to_phys h w s3 = vmm_virt_to_phys h w s" "s3 = s\<lparr>mem := mem s3\<rparr>"
    "pt_table (mem s3) h (page_down (cr3 s)) (leaf_path v) = Some (phys_mask (load64 (mem s3) p2))"
    by (rule split_step [OF assms(1-3) t e])
  then show ?thesis by (intro that [of a3 s3 qs3]) (simp_all only: e if_True if_False simp_thms)
next
  case False
  then have n: "load64 (mem s) p2 AND 1 \<noteq> 0 \<and> [PDPT_I v, PML4_I v] \<noteq> [] \<longrightarrow> load64 (mem s) p2 AND 0x80 = 0"
    by blast
  obtain a3 s3 qs3 where
    l: "(if load64 (mem s) p2 AND 1 = 0 then pool_table h p2 a s else (True, a, s)) = (True, a3, s3)"
    "pool_ready h a3 s3 qs3" "pool_step h s s3"
    "pt_table (mem s3) h (page_down (cr3 s)) (leaf_path v) = Some (phys_mask (load64 (mem s3) p2))"
    by (rule level_step [OF assms(1-3) t n])
  show ?thesis
  proof (rule that [OF _ l(2) _ _ l(4)])
    show "s3 = s\<lparr>mem := mem s3\<rparr>" using l(3) unfolding pool_step_def by (rule conjunct1)
  qed (use False l(1) pool_step_frame(3) [OF l(3)] in auto)
qed

section \<open>Properties\<close>

text \<open>C18: with a fresh pool whose three pages are not page tables, and unless a 1 GB page covers the window,
  \<open>apic_init\<close> returns, the window at \<open>0xFFFFFFFFFEE00000\<close> translates to the APIC's page, every other page
  translates as before, also when a 2 MB page in the way is split, the page tables stay a tree, the
  TLB is flushed once and \<open>LINT0\<close> is programmed with \<open>0x700\<close>.\<close>

theorem apic_init_maps:
  fixes s :: "'a machine_scheme"
  assumes rdy: "pool_ready h a s qs" "length qs = 3"
    and big: "\<And>e. aent h s [PML4_I apic_virt] (PDPT_I apic_virt) = Some e \<Longrightarrow> e AND 0x80 = 0"
    and huge: "\<And>e. aent h s [PDPT_I apic_virt, PML4_I apic_virt] (PD_I apic_virt) = Some e \<Longrightarrow>
        e AND 0x80 \<noteq> 0 \<Longrightarrow> e AND 0x1FF000 = 0"
  shows "\<exists>a' s'. apic_init eax edx h a s = Some (a', s')
     \<and> (\<forall>w. vmm_virt_to_phys h w s' = (if vpage w = vpage apic_virt then apic_base eax edx + (w AND 0xFFF)
          else vmm_virt_to_phys h w s))
     \<and> load32 (mem s') (apic_virt + APIC_LINT0) = 0x700 \<and> hw_log s' = hw_log s @ [Load_cr3 (cr3 s)]
     \<and> pt_tree (mem s') h (page_down (cr3 s'))"
proof -
  let ?r = "page_down (cr3 s)" and ?v = apic_virt
  define p4 where "p4 = cell h ?r (PML4_I ?v)"
  have p: "pt_path [PML4_I ?v]" "pt_path [PDPT_I ?v, PML4_I ?v]" "pt_path (leaf_path ?v)" by simp_all
  have t0: "pt_table (mem s) h ?r [] = Some ?r" "qs \<noteq> []" using rdy(2) by auto
  have n4: "load64 (mem s) p4 AND 1 \<noteq> 0 \<and> [] \<noteq> [] \<longrightarrow> load64 (mem s) p4 AND 0x80 = 0" by simp
  obtain a1 s1 qs1 where
    l1: "(if load64 (mem s) p4 AND 1 = 0 then pool_table h p4 a s else (True, a, s)) = (True, a1, s1)"
    "pool_ready h a1 s1 qs1" "length qs \<le> Suc (length qs1)" "pool_step h s s1"
    "pt_table (mem s1) h ?r [PML4_I ?v] = Some (phys_mask (load64 (mem s1) p4))"
    by (rule level_step [OF rdy(1) t0(2) p(1) t0(1) p4_def n4])
  note f1 = pool_step_frame [OF l1(4)]
  define p3 where "p3 = cell h (phys_mask (load64 (mem s1) p4)) (PDPT_I ?v)"
  have n3: "load64 (mem s1) p3 AND 0x80 = 0"
  proof (rule ccontr)
    assume "load64 (mem s1) p3 AND 0x80 \<noteq> 0"
    with pool_step_large [OF l1(4) p(1) index_less(2) l1(5)] big show False unfolding p3_def by blast
  qed
  then have n3': "load64 (mem s1) p3 AND 1 \<noteq> 0 \<and> [PML4_I ?v] \<noteq> [] \<longrightarrow> load64 (mem s1) p3 AND 0x80 = 0" by simp
  have ne1: "qs1 \<noteq> []" using l1(3) rdy(2) by auto
  obtain a2 s2 qs2 where
    l2: "(if load64 (mem s1) p3 AND 1 = 0 then pool_table h p3 a1 s1 else (True, a1, s1)) = (True, a2, s2)"
    "pool_ready h a2 s2 qs2" "length qs1 \<le> Suc (length qs2)" "pool_step h s1 s2"
    "pt_table (mem s2) h ?r [PDPT_I ?v, PML4_I ?v] = Some (phys_mask (load64 (mem s2) p3))"
    "load64 (mem s1) p3 AND 1 = 0 \<or> s2 = s1"
    by (rule level_step [OF l1(2) ne1 p(2), unfolded f1(1), OF l1(5) p3_def n3'])
  note st2 = pool_step_trans [OF l1(4) l2(4)]
  note f2 = pool_step_frame [OF st2]
  define p2 where "p2 = cell h (phys_mask (load64 (mem s2) p3)) (PD_I ?v)"
  have n2: "load64 (mem s2) p2 AND 0x1FF000 = 0" if "load64 (mem s2) p2 AND 0x80 \<noteq> 0"
    using pool_step_large [OF st2 p(2) index_less(3) l2(5)] huge that unfolding p2_def by blast
  have ne2: "qs2 \<noteq> []" using l1(3) l2(3) rdy(2) by auto
  obtain a3 s3 qs3 where l3: "(if load64 (mem s2) p2 AND 1 = 0 then pool_table h p2 a2 s2
      else if load64 (mem s2) p2 AND 0x80 \<noteq> 0 then split_page h p2 a2 s2 else (True, a2, s2)) = (True, a3, s3)"
    "pool_ready h a3 s3 qs3" "\<forall>w. vmm_virt_to_phys h w s3 = vmm_virt_to_phys h w s2"
    "s3 = s2\<lparr>mem := mem s3\<rparr>" "pt_table (mem s3) h ?r (leaf_path ?v) = Some (phys_mask (load64 (mem s3) p2))"
    by (rule directory_step [OF l2(2) ne2 p(3), unfolded f2(1), OF l2(5) p2_def n2])
  have f3: "cr3 s3 = cr3 s" "hw_log s3 = hw_log s"
    using arg_cong [OF l3(4), of cr3] arg_cong [OF l3(4), of hw_log] f2(1,2) by simp_all
  have init: "apic_init eax edx h a s = Some (a3, (flush_tlb (s3\<lparr>mem := store64 (mem s3)
      (cell h (phys_mask (load64 (mem s3) p2)) (PT_I ?v)) (page_down (apic_base eax edx) OR 0x23)\<rparr>))
      \<lparr>mem := store32 (mem (flush_tlb (s3\<lparr>mem := store64 (mem s3)
      (cell h (phys_mask (load64 (mem s3) p2)) (PT_I ?v)) (page_down (apic_base eax edx) OR 0x23)\<rparr>)))
        (apic_virt + 4 * (APIC_LINT0 div 4)) 0x700\<rparr>)"
    unfolding apic_init_def Let_def PML4_I_def [symmetric] PDPT_I_def [symmetric] PD_I_def [symmetric]
      PT_I_def [symmetric] apic_base_def [symmetric] p4_def [symmetric]
    unfolding l1(1) split_conv p3_def [symmetric]
    unfolding l2(1) split_conv p2_def [symmetric]
    unfolding l3(1) split_conv using l2(6) n3 by auto
  note fin = apic_finish [OF l3(2), unfolded f3, OF l3(5), where eax = eax and edx = edx]
  show ?thesis
    by (intro exI conjI, rule init) (use fin l3(3) f2(3) in simp_all)
qed

subsection \<open>Instances\<close>

text \<open>A machine whose kernel image holds the pool at \<open>0xFFFFFFFF80300000\<close>, mapped to the frames
  \<open>0x2000\<close>, \<open>0x3000\<close> and \<open>0x4000\<close>.\<close>

definition apic_example :: apic_state where
  "apic_example = \<lparr>pt_pool = 0xFFFFFFFF80300000, pt_pool_idx = 0\<rparr>"

definition map_pool :: "nat \<Rightarrow> pmm_state \<Rightarrow> pmm_state" where
  "map_pool k = vmm_map_page 0 (0xFFFFFFFF80300000 + 4096 * of_nat k) (0x2000 + 4096 * of_nat k) 3"

definition apic_machine :: pmm_state where
  "apic_machine = fold map_pool [0, 1, 2] heap_machine"

lemma table_low: "page_aligned r \<Longrightarrow> r < 2 ^ 52 \<Longrightarrow> pt_table m 0 r js = Some t \<Longrightarrow> low_frame 0 t"
proof -
  assume r: "r < 2 ^ 52" and t: "pt_table m 0 r js = Some t"
  have "phys_mask e < 2 ^ 52" for e
    by (rule order_le_less_trans [OF word_and_le1 [of e "0x000FFFFFFFFFF000", folded phys_mask_def]]) simp
  with r t have "t < 2 ^ 52"
    by (cases js) (auto simp: pt_next_def Let_def split: option.splits if_splits)
  then have "unat t < 2 ^ 52" by (simp add: word_less_nat_alt)
  then show ?thesis by (simp add: low_frame_def apic_virt_def)
qed

lemma vmm_map_page_cr3: "cr3 (vmm_map_page h v p f s) = cr3 s"
proof -
  have e: "cr3 (snd (ensure_table h' e f' s)) = cr3 s" for h' e f' s
    by (auto simp: ensure_table_def pmm_alloc_def Let_def)
  have e': "ensure_table h' e f' s = (t, s') \<Longrightarrow> cr3 s' = cr3 s" for h' e f' s s' t
    using e [of h' e f' s] by simp
  show ?thesis by (auto simp: vmm_map_page_def Let_def dest!: e' split: prod.split)
qed

definition small_tables :: "pmm_state \<Rightarrow> u64 list \<Rightarrow> bool" where
  "small_tables s ps \<longleftrightarrow> pt_inv s ps \<and> pmm_hhdm s = 0 \<and> cr3 s = 0x1000 \<and> (\<forall>w. large_free s w)"

lemma map_pool_ok:
  assumes "small_tables s ps" "3 \<le> length ps" "k < 3"
  shows "\<exists>n \<le> 3. small_tables (map_pool k s) (drop n ps)
     \<and> (\<forall>w. vmm_virt_to_phys 0 w (map_pool k s) = (if vpage w = vpage (0xFFFFFFFF80300000 + 4096 * of_nat k)
          then 0x2000 + 4096 * of_nat k + (w AND 0xFFF) else vmm_virt_to_phys 0 w s))"
proof -
  let ?v = "0xFFFFFFFF80300000 + 4096 * of_nat k :: u64" and ?p = "0x2000 + 4096 * of_nat k :: u64"
  have "k = 0 \<or> k = 1 \<or> k = 2" using assms(3) by auto
  then have p: "page_aligned ?p" "?p < 2 ^ 52" by (auto simp: page_aligned_def)
  have s: "pt_inv s ps" "0 = pmm_hhdm s" "large_free s w" "cr3 (map_pool k s) = 0x1000" for w
    using assms(1) by (simp_all add: small_tables_def map_pool_def vmm_map_page_cr3)
  note ok = vmm_map_page_ok [OF s(1,2) assms(2) s(3) p, of 3 ?v, folded map_pool_def]
  obtain n where "n \<le> 3" "pt_inv (map_pool k s) (drop n ps)" "pmm_hhdm (map_pool k s) = 0"
    "\<And>w. large_free s w \<Longrightarrow> large_free (map_pool k s) w"
    "\<And>w. vmm_virt_to_phys 0 w (map_pool k s) = (if vpage w = vpage ?v
       then ?p + (w AND 0xFFF) else vmm_virt_to_phys 0 w s)"
    by (rule ok) (use s(3) in simp_all)
  with s show ?thesis by (auto simp: small_tables_def intro!: exI [of _ n])
qed

lemma heap_machine_small: "small_tables heap_machine (rev many_frames)"
  using heap_machine_inv fold_push_frame [of 0 many_frames "pmm_boot_state\<lparr>cr3 := 0x1000\<rparr>"]
  by (simp add: small_tables_def heap_machine_def pmm_boot_state_def)

text \<open>Frames that are still free are not page tables.\<close>

lemma free_frames_pool:
  assumes "small_tables s ps" "set qs \<subseteq> set ps" "distinct qs"
  shows "pool_inv 0 (page_down (cr3 s)) qs (mem s)"
proof -
  have c: "page_down (cr3 s) = 0x1000" "pmm_hhdm s = 0"
    using assms(1) by (simp_all add: small_tables_def page_down_def)
  have q: "page_aligned q \<and> q \<noteq> 0 \<and> q < 2 ^ 52" if "q \<in> set qs" for q
    using assms(1,2) that by (auto simp: small_tables_def pt_inv_def pmm_inv_def frame_list_def)
  then have "low_frame 0 q" if "q \<in> set qs" for q
    using that table_low [of q _ "[]"] by simp
  moreover have "low_frame 0 t" if "pt_table (mem s) 0 0x1000 js = Some t" for js t
    using that by (rule table_low [rotated 2]) (simp_all add: page_aligned_def)
  moreover have tree: "\<forall>js t. pt_path js \<longrightarrow> pt_table (mem s) 0 0x1000 js = Some t \<longrightarrow> t \<notin> set ps"
    "pt_tree (mem s) 0 0x1000"
    using assms(1) c by (simp_all add: small_tables_def pt_inv_def)
  moreover have "not_table (mem s) 0 0x1000 q" if "q \<in> set qs" for q
    using assms(2) that tree(1) unfolding not_table_def by blast
  ultimately show ?thesis
    using assms(3) q unfolding pool_inv_def c by blast
qed

lemma apic_machine_ready:
  "pool_ready 0 apic_example apic_machine [0x2000, 0x3000, 0x4000]" "large_free apic_machine v"
  "pmm_hhdm apic_machine = 0"
proof -
  let ?ps = "rev many_frames" and ?v = "\<lambda>k. 0xFFFFFFFF80300000 + 4096 * of_nat k :: u64"
  have len: "length ?ps = 1024" by (simp add: many_frames_def)
  have k: "1 < (3::nat)" "2 < (3::nat)" by simp_all
  define s1 where "s1 = map_pool 0 heap_machine"
  define s2 where "s2 = map_pool 1 s1"
  have s3: "apic_machine = map_pool 2 s2" by (simp add: apic_machine_def s1_def s2_def)
  obtain n1 where n1: "n1 \<le> 3" "small_tables s1 (drop n1 ?ps)"
    "\<forall>w. vmm_virt_to_phys 0 w s1 = (if vpage w = vpage (?v 0) then 0x2000 + 4096 * of_nat 0 + (w AND 0xFFF)
       else vmm_virt_to_phys 0 w heap_machine)"
    using map_pool_ok [OF heap_machine_small, of 0] len unfolding s1_def by fastforce
  then have "3 \<le> length (drop n1 ?ps)" using len by simp
  from map_pool_ok [OF n1(2) this k(1)] obtain n2 where n2: "n2 \<le> 3" "small_tables s2 (drop n2 (drop n1 ?ps))"
    "\<forall>w. vmm_virt_to_phys 0 w s2 = (if vpage w = vpage (?v 1) then 0x2000 + 4096 * of_nat 1 + (w AND 0xFFF)
       else vmm_virt_to_phys 0 w s1)"
    unfolding s2_def by blast
  then have "3 \<le> length (drop n2 (drop n1 ?ps))" using len n1(1) by simp
  from map_pool_ok [OF n2(2) this k(2)] obtain n3 where
    n3: "n3 \<le> 3" "small_tables apic_machine (drop n3 (drop n2 (drop n1 ?ps)))"
    "\<forall>w. vmm_virt_to_phys 0 w apic_machine = (if vpage w = vpage (?v 2) then 0x2000 + 4096 * of_nat 2 + (w AND 0xFFF)
       else vmm_virt_to_phys 0 w s2)"
    unfolding s3 by blast
  show "large_free apic_machine v" "pmm_hhdm apic_machine = 0" using n3(2) by (simp_all add: small_tables_def)
  have "map (\<lambda>k. vmm_virt_to_phys 0 (?v k) apic_machine) [0 ..< 3] = [0x2000, 0x3000, 0x4000]"
    by (simp add: n3(3) n2(3) n1(3) vpage_def upt_rec)
  moreover obtain xs where xs: "?ps = xs @ [0x4000, 0x3000, 0x2000]" "length xs = 1021"
  proof
    let ?f = "\<lambda>k. of_nat (4096 * (k + 2)) :: u64"
    have "[0 ..< 1024] = [0 ..< 3] @ [3 ..< 1024::nat]" using upt_add_eq_append [of 0 3 1021] by (simp only: numeral_plus_numeral add_num_simps zero_le)
    moreover have "map ?f [0 ..< 3] = [0x2000, 0x3000, 0x4000]" by (simp add: upt_rec)
    ultimately have mf: "many_frames = [0x2000, 0x3000, 0x4000] @ map ?f [3 ..< 1024]"
      by (simp only: many_frames_def map_append)
    show "?ps = rev (map ?f [3 ..< 1024]) @ [0x4000, 0x3000, 0x2000]"
      unfolding mf rev_append by (rule arg_cong [where f = "(@) _"]) simp
    show "length (rev (map ?f [3 ..< 1024])) = 1021" by (simp only: length_rev length_map length_upt)
  qed
  then have "set [0x2000, 0x3000, 0x4000] \<subseteq> set (drop n3 (drop n2 (drop n1 ?ps)))"
    using n1(1) n2(1) n3(1) by (simp add: xs(2))
  from free_frames_pool [OF n3(2) this]
  have "pool_inv 0 (page_down (cr3 apic_machine)) [0x2000, 0x3000, 0x4000] (mem apic_machine)" by simp
  ultimately show "pool_ready 0 apic_example apic_machine [0x2000, 0x3000, 0x4000]"
    by (simp add: pool_ready_def apic_example_def)
qed

theorem apic_init_maps_witness:
  "\<exists>a' s'. apic_init 0xFEE00900 0 0 apic_example apic_machine = Some (a', s')
     \<and> vmm_virt_to_phys 0 (apic_virt + 0x350) s' = 0xFEE00350"
proof -
  have "e AND 0x80 = 0" if "aent 0 apic_machine [PML4_I v] (PDPT_I v) = Some e
      \<or> aent 0 apic_machine [PDPT_I v, PML4_I v] (PD_I v) = Some e" for e v
    using that apic_machine_ready(2) [of v] apic_machine_ready(3) by (auto simp: large_free_def)
  then obtain a' s' where r: "apic_init 0xFEE00900 0 0 apic_example apic_machine = Some (a', s')"
    "\<forall>w. vmm_virt_to_phys 0 w s' = (if vpage w = vpage apic_virt then apic_base 0xFEE00900 0 + (w AND 0xFFF)
          else vmm_virt_to_phys 0 w apic_machine)"
    using apic_init_maps [OF apic_machine_ready(1), of "0xFEE00900" 0] by auto
  moreover have "vpage (apic_virt + 0x350) = vpage apic_virt" "(apic_virt + 0x350) AND 0xFFF = 0x350"
    "apic_base 0xFEE00900 0 = 0xFEE00000" by (simp_all add: vpage_def apic_virt_def apic_base_def)
  ultimately show ?thesis by auto
qed

end
