(* ===== verification/Fb.thy ===== *)
theory Fb
  imports Heap_Client Serial "HOL-Library.Signed_Division"
begin

text \<open>
  \<open>src/kernel/fb.c\<close>: the framebuffer console. The state is the static variables of the file; the
  pixels are 32-bit cells of memory from \<open>fb_ptr\<close> on, row \<open>y\<close> starting at cell \<open>y * (fb_pitch / 4)\<close>.
  The drawing operations only touch the console's variables and memory, so they are functions on
  \<open>fb_state \<times> memory\<close>; \<open>fb_init\<close> maps the pages of the framebuffer and works on the whole machine.

  The lemmas show that no operation writes outside the mapped area, that the cursor always designates
  a character cell that lies entirely on the screen, what clearing leaves behind, and that
  \<open>fb_init\<close> maps every page of the framebuffer. The glyph table of the source is never filled, so
  every character is drawn as a blank cell.
\<close>

section \<open>State\<close>

record fb_state =
  fb_ptr :: u64
  fb_width :: u64
  fb_height :: u64
  fb_pitch :: u64
  fb_bpp :: u16
  cursor_x :: int
  cursor_y :: int
  fg_color :: u32
  bg_color :: u32

definition fb_static :: fb_state where
  "fb_static = \<lparr>fb_ptr = 0, fb_width = 0, fb_height = 0, fb_pitch = 0, fb_bpp = 0,
     cursor_x = 0, cursor_y = 0, fg_color = 0xFFFFFF, bg_color = 0\<rparr>"

definition fb_char_width :: int where
  "fb_char_width = 8"

definition fb_char_height :: int where
  "fb_char_height = 16"

text \<open>\<open>static uint8_t font8x16[256][16]\<close> has no initialiser and no assignment.\<close>

definition font8x16 :: "u8 \<Rightarrow> nat \<Rightarrow> u8" where
  "font8x16 c row = 0"

section \<open>Operations\<close>

definition fb_virt :: u64 where
  "fb_virt = 0xFFFFFFFF82000000"

text \<open>The mapping loop ends unless \<open>off\<close> wraps around below its bound.\<close>

partial_function (option) fb_map_loop ::
  "u64 \<Rightarrow> u64 \<Rightarrow> u64 \<Rightarrow> u64 \<Rightarrow> pmm_state \<Rightarrow> pmm_state option" where
  "fb_map_loop hhdm fb_phys bound off s =
     (if off < bound
      then fb_map_loop hhdm fb_phys bound (off + 0x1000)
             (vmm_map_page hhdm (fb_virt + off) (fb_phys + off) 0x23 s)
      else Some s)"

definition fb_init :: "u64 \<Rightarrow> u64 \<Rightarrow> u64 \<Rightarrow> u64 \<Rightarrow> u64 \<Rightarrow> u16 \<Rightarrow>
    fb_state \<Rightarrow> pmm_state \<Rightarrow> (fb_state \<times> pmm_state) option" where
  "fb_init hhdm fb_phys width height pitch bpp f s =
     map_option (Pair (f\<lparr>fb_ptr := fb_virt, fb_width := width, fb_height := height,
         fb_pitch := pitch, fb_bpp := bpp\<rparr>))
       (fb_map_loop hhdm fb_phys (height * pitch) 0 s)"

text \<open>\<open>&fb_ptr[y * (fb_pitch / 4) + x]\<close>.\<close>

definition pixel_addr :: "fb_state \<Rightarrow> u64 \<Rightarrow> u64 \<Rightarrow> u64" where
  "pixel_addr f x y = fb_ptr f + 4 * (y * (fb_pitch f div 4) + x)"

definition draw_pixel :: "fb_state \<Rightarrow> int \<Rightarrow> int \<Rightarrow> u32 \<Rightarrow> memory \<Rightarrow> memory" where
  "draw_pixel f x y color m =
     (if x < 0 \<or> word_of_int x \<ge> fb_width f \<or> y < 0 \<or> word_of_int y \<ge> fb_height f then m
      else store32 m (pixel_addr f (word_of_int x) (word_of_int y)) color)"

definition clear_row :: "fb_state \<Rightarrow> u32 \<Rightarrow> nat \<Rightarrow> memory \<Rightarrow> memory" where
  "clear_row f color y m =
     fold (\<lambda>x m. store32 m (pixel_addr f (of_nat x) (of_nat y)) color) [0 ..< unat (fb_width f)] m"

definition fb_clear :: "u32 \<Rightarrow> fb_state \<times> memory \<Rightarrow> fb_state \<times> memory" where
  "fb_clear color = (\<lambda>(f, m).
     (f\<lparr>cursor_x := 0, cursor_y := 0\<rparr>, fold (clear_row f color) [0 ..< unat (fb_height f)] m))"

definition draw_char :: "fb_state \<Rightarrow> int \<Rightarrow> int \<Rightarrow> u8 \<Rightarrow> u32 \<Rightarrow> u32 \<Rightarrow> memory \<Rightarrow> memory" where
  "draw_char f x y c fg bg m =
     fold (\<lambda>row. fold (\<lambda>col.
         draw_pixel f (x + int col) (y + int row)
           (if font8x16 c row AND drop_bit col 0x80 \<noteq> 0 then fg else bg))
       [0 ..< nat fb_char_width]) [0 ..< nat fb_char_height] m"

text \<open>The two tests after the cursor has moved. The cursor is a C \<open>int\<close>; the invariant below keeps it
  below \<open>2 ^ 31\<close>, so its arithmetic never overflows and is that of \<open>int\<close>.\<close>

definition fb_wrap :: "fb_state \<times> memory \<Rightarrow> fb_state \<times> memory" where
  "fb_wrap = (\<lambda>(f, m).
     let f1 = (if word_of_int (cursor_x f) + word_of_int fb_char_width > fb_width f
               then f\<lparr>cursor_x := 0, cursor_y := cursor_y f + fb_char_height\<rparr> else f)
     in if word_of_int (cursor_y f1) + word_of_int fb_char_height > fb_height f1
        then fb_clear (bg_color f1) (f1, m) else (f1, m))"

definition fb_putchar :: "u8 \<Rightarrow> fb_state \<times> memory \<Rightarrow> fb_state \<times> memory" where
  "fb_putchar c = (\<lambda>(f, m). fb_wrap
     (if c = 10 then (f\<lparr>cursor_x := 0, cursor_y := cursor_y f + fb_char_height\<rparr>, m)
      else if c = 13 then (f\<lparr>cursor_x := 0\<rparr>, m)
      else if c = 9 then
        (f\<lparr>cursor_x := (cursor_x f sdiv (fb_char_width * 4) + 1) * (fb_char_width * 4)\<rparr>, m)
      else (f\<lparr>cursor_x := cursor_x f + fb_char_width\<rparr>,
            draw_char f (cursor_x f) (cursor_y f) c (fg_color f) (bg_color f) m)))"

fun fb_puts :: "u8 list \<Rightarrow> fb_state \<times> memory \<Rightarrow> fb_state \<times> memory" where
  "fb_puts [] s = s"
| "fb_puts (c # str) s = (if c = 0 then s else fb_puts str (fb_putchar c s))"

definition fb_puts_color :: "u8 list \<Rightarrow> u32 \<Rightarrow> u32 \<Rightarrow> fb_state \<times> memory \<Rightarrow> fb_state \<times> memory" where
  "fb_puts_color str fg bg = (\<lambda>(f, m).
     let (f1, m1) = fb_puts str (f\<lparr>fg_color := fg, bg_color := bg\<rparr>, m)
     in (f1\<lparr>fg_color := fg_color f, bg_color := bg_color f\<rparr>, m1))"

definition fb_put_hex :: "u64 \<Rightarrow> fb_state \<times> memory \<Rightarrow> fb_state \<times> memory" where
  "fb_put_hex value s = fb_puts (hex_buf value) s"

definition fb_put_dec :: "u64 \<Rightarrow> fb_state \<times> memory \<Rightarrow> fb_state \<times> memory" where
  "fb_put_dec value s = (if value = 0 then fb_putchar 48 s else fb_puts (dec_buf value) s)"

text \<open>The console interface: the framebuffer never blocks, and a line feed is one byte.\<close>

interpretation fbcon: console "\<lambda>c s. Some (fb_putchar c s)" "\<lambda>str s. Some (fb_puts str s)" "\<lambda>c. [c]"
  by unfold_locales auto

lemma send_total: "send (\<lambda>c s. Some (f c s)) str s = Some (fold f str s)"
  by (induction str arbitrary: s) simp_all

lemma fb_puts_fold: "0 \<notin> set str \<Longrightarrow> fb_puts (str @ 0 # rest) s = fold fb_putchar str s"
  using fbcon.puts_text [of str rest s] by (simp add: send_total)

lemma fb_put_hex_fold: "fb_put_hex v s = fold fb_putchar (48 # 120 # hex_digits v) s"
  using fbcon.puts_hex [of v s] by (simp only: send_total option.inject fb_put_hex_def)

lemma fb_put_dec_fold: "fb_put_dec v s = fold fb_putchar (dec_text v) s"
  using fbcon.puts_dec [of v s] by (simp add: send_total fb_put_dec_def dec_text_def)

section \<open>Pixels\<close>

text \<open>A screen that holds a character cell, whose rows fit into the pitch and whose bytes fit into the
  address space.\<close>

definition fb_geometry :: "fb_state \<Rightarrow> bool" where
  "fb_geometry f \<longleftrightarrow> 8 \<le> unat (fb_width f) \<and> unat (fb_width f) < 2 ^ 30
     \<and> 16 \<le> unat (fb_height f) \<and> unat (fb_height f) < 2 ^ 30
     \<and> 4 * unat (fb_width f) \<le> unat (fb_pitch f)
     \<and> unat (fb_height f) * unat (fb_pitch f) < 2 ^ 64"

definition cursor_ok :: "fb_state \<Rightarrow> bool" where
  "cursor_ok f \<longleftrightarrow> 0 \<le> cursor_x f \<and> cursor_x f + fb_char_width \<le> uint (fb_width f)
     \<and> 0 \<le> cursor_y f \<and> cursor_y f + fb_char_height \<le> uint (fb_height f)"

definition fb_area :: "fb_state \<Rightarrow> nat" where
  "fb_area f = unat (fb_height f) * unat (fb_pitch f)"

definition screen :: "fb_state \<Rightarrow> memory \<Rightarrow> nat \<Rightarrow> nat \<Rightarrow> u32" where
  "screen f m x y = load32 m (pixel_addr f (of_nat x) (of_nat y))"

abbreviation on_screen :: "fb_state \<Rightarrow> nat \<Rightarrow> nat \<Rightarrow> bool" where
  "on_screen f x y \<equiv> x < unat (fb_width f) \<and> y < unat (fb_height f)"

definition pixel_index :: "fb_state \<Rightarrow> nat \<Rightarrow> nat \<Rightarrow> nat" where
  "pixel_index f x y = y * (unat (fb_pitch f) div 4) + x"

lemma pixel_index_bound:
  assumes "fb_geometry f" "on_screen f x y"
  shows "4 * pixel_index f x y + 4 \<le> fb_area f"
proof -
  let ?p = "unat (fb_pitch f)"
  have "4 * pixel_index f x y + 4 \<le> y * (4 * (?p div 4)) + 4 * unat (fb_width f)"
    using assms(2) by (simp add: pixel_index_def)
  also have "\<dots> \<le> y * ?p + ?p"
    using assms(1) by (intro add_mono mult_le_mono) (auto simp: fb_geometry_def)
  also have "\<dots> = (y + 1) * ?p" by simp
  also have "\<dots> \<le> unat (fb_height f) * ?p" using assms(2) by (intro mult_le_mono1) simp
  finally show ?thesis by (simp add: fb_area_def)
qed

lemma pixel_index_inj:
  assumes "fb_geometry f" "on_screen f x y" "on_screen f x' y'" "pixel_index f x y = pixel_index f x' y'"
  shows "x = x' \<and> y = y'"
proof -
  let ?q = "unat (fb_pitch f) div 4"
  have "x < ?q" "x' < ?q" using assms(1-3) by (auto simp: fb_geometry_def)
  then have "(y * ?q + x) div ?q = y" "(y' * ?q + x') div ?q = y'" by simp_all
  with assms(4) show ?thesis by (simp add: pixel_index_def)
qed

lemma pixel_addr_index: "pixel_addr f (of_nat x) (of_nat y) = fb_ptr f + of_nat (4 * pixel_index f x y)"
proof -
  have "of_nat (unat (fb_pitch f) div 4) = fb_pitch f div 4"
    by (simp add: word_unat_eq_iff unat_div unat_of_nat_u64 [OF le_less_trans [OF div_le_dividend unat_u64_less(1)]])
  then show ?thesis by (simp add: pixel_addr_def pixel_index_def)
qed

lemma offset_apart:
  assumes "a + n \<le> b \<or> b + k \<le> a" "a + n < 2 ^ 64" "b + k < 2 ^ 64" "0 < n" "0 < k"
  shows "apart ((p::u64) + of_nat a) n (p + of_nat b) k"
proof -
  have "unat (of_nat a :: u64) = a" "unat (of_nat b :: u64) = b"
    using assms by (auto intro!: unat_of_nat_u64)
  moreover have "p + of_nat b - (p + of_nat a) = of_nat b - of_nat a"
    "p + of_nat a - (p + of_nat b) = of_nat a - of_nat b" by simp_all
  ultimately show ?thesis using assms by (auto simp: apart_def unat_sub_if')
qed

lemma screen_store:
  assumes "fb_geometry f" "on_screen f x y" "on_screen f x' y'"
  shows "screen f (store32 m (pixel_addr f (of_nat x) (of_nat y)) color) x' y'
     = (if x' = x \<and> y' = y then color else screen f m x' y')"
proof (cases "x' = x \<and> y' = y")
  case True
  then show ?thesis by (simp add: screen_def)
next
  case False
  then have "pixel_index f x y \<noteq> pixel_index f x' y'" using pixel_index_inj [OF assms] by blast
  moreover have "4 * pixel_index f x y + 4 < 2 ^ 64" "4 * pixel_index f x' y' + 4 < 2 ^ 64"
    using pixel_index_bound [OF assms(1)] assms(1-3) by (force simp: fb_geometry_def fb_area_def)+
  ultimately have "apart (pixel_addr f (of_nat x) (of_nat y)) 4 (pixel_addr f (of_nat x') (of_nat y')) 4"
    unfolding pixel_addr_index by (intro offset_apart) auto
  with False show ?thesis by (auto simp: screen_def load32_store32_apart)
qed

lemma store_inside:
  assumes "fb_geometry f" "on_screen f x y" "outside (fb_ptr f) (fb_area f) a"
  shows "store32 m (pixel_addr f (of_nat x) (of_nat y)) color a = m a"
proof -
  have "outside (fb_ptr f + of_nat (4 * pixel_index f x y)) 4 a"
    using pixel_index_bound [OF assms(1,2)] assms(1)
    by (intro outside_sub [OF assms(3)]) (simp_all add: fb_geometry_def fb_area_def)
  then show ?thesis by (simp add: pixel_addr_index store32_outside)
qed

text \<open>A painting step sets the pixels of a region to a colour and writes nowhere else.\<close>

definition paints :: "fb_state \<Rightarrow> (nat \<Rightarrow> nat \<Rightarrow> bool) \<Rightarrow> u32 \<Rightarrow> memory \<Rightarrow> memory \<Rightarrow> bool" where
  "paints f R color m m' \<longleftrightarrow>
     (\<forall>x y. on_screen f x y \<longrightarrow> screen f m' x y = (if R x y then color else screen f m x y))
     \<and> (\<forall>a. outside (fb_ptr f) (fb_area f) a \<longrightarrow> m' a = m a)"

lemma paints_refl: "(\<And>x y. on_screen f x y \<Longrightarrow> \<not> R x y) \<Longrightarrow> paints f R color m m"
  by (simp add: paints_def)

lemma paints_trans:
  "paints f R color m m' \<Longrightarrow> paints f R' color m' m'' \<Longrightarrow> paints f (\<lambda>x y. R x y \<or> R' x y) color m m''"
  by (auto simp: paints_def)

lemma paints_cong:
  "paints f R color m m' \<Longrightarrow> (\<And>x y. on_screen f x y \<Longrightarrow> R x y = R' x y) \<Longrightarrow> paints f R' color m m'"
  by (auto simp: paints_def)

lemma paints_fold:
  assumes "\<And>i m. i \<in> set is \<Longrightarrow> paints f (R i) color m (g i m)"
  shows "paints f (\<lambda>x y. \<exists>i \<in> set is. R i x y) color m (fold g is m)"
  using assms
proof (induction "is" arbitrary: m)
  case Nil
  then show ?case by (simp add: paints_refl)
next
  case (Cons i "is")
  have "paints f (R i) color m (g i m)"
    "paints f (\<lambda>x y. \<exists>i \<in> set is. R i x y) color (g i m) (fold g is (g i m))"
    using Cons by simp_all
  from paints_trans [OF this] show ?case by simp
qed

lemma paints_pixel:
  "fb_geometry f \<Longrightarrow> on_screen f x y \<Longrightarrow>
     paints f (\<lambda>x' y'. x' = x \<and> y' = y) color m (store32 m (pixel_addr f (of_nat x) (of_nat y)) color)"
  by (simp add: paints_def screen_store store_inside)

lemma paints_draw_pixel:
  assumes "fb_geometry f" "x < 2 ^ 31" "y < 2 ^ 31"
  shows "paints f (\<lambda>x' y'. int x' = x \<and> int y' = y) color m (draw_pixel f x y color m)"
proof (cases "x < 0 \<or> y < 0")
  case True
  then show ?thesis by (auto simp: draw_pixel_def intro: paints_refl)
next
  case False
  then obtain i j where ij: "x = int i" "y = int j" by (metis nonneg_int_cases linorder_not_less)
  with assms have lt: "i < 2 ^ 64" "j < 2 ^ 64" by simp_all
  have w: "word_of_int x = (of_nat i :: u64)" "word_of_int y = (of_nat j :: u64)" by (simp_all add: ij)
  have c: "of_nat i \<ge> fb_width f \<longleftrightarrow> unat (fb_width f) \<le> i" "of_nat j \<ge> fb_height f \<longleftrightarrow> unat (fb_height f) \<le> j"
    using lt by (simp_all add: word_le_nat_alt unat_of_nat_u64)
  show ?thesis
  proof (cases "on_screen f i j")
    case True
    have e: "(\<lambda>x' y'. int x' = x \<and> int y' = y) = (\<lambda>x' y'. x' = i \<and> y' = j)" by (simp add: ij)
    from True paints_pixel [OF assms(1) True, of color m] show ?thesis
      using False unfolding e by (simp add: draw_pixel_def w c)
  next
    case out: False
    with False have "draw_pixel f x y color m = m" by (auto simp: draw_pixel_def w c)
    with out show ?thesis by (auto simp: ij intro: paints_refl)
  qed
qed

lemma paints_draw_char:
  assumes "fb_geometry f" "0 \<le> x" "0 \<le> y" "x < 2 ^ 30" "y < 2 ^ 30"
  shows "paints f (\<lambda>x' y'. x \<le> int x' \<and> int x' < x + 8 \<and> y \<le> int y' \<and> int y' < y + 16) bg m
     (draw_char f x y c fg bg m)"
proof -
  have px: "paints f (\<lambda>x' y'. int x' = x + int col \<and> int y' = y + int row) bg m
      (draw_pixel f (x + int col) (y + int row) bg m)"
    if "row < 16" "col < 8" for row col m
    using assms that by (intro paints_draw_pixel) simp_all
  let ?row = "\<lambda>row. fold (\<lambda>col. draw_pixel f (x + int col) (y + int row) bg) [0 ..< 8]"
  have row: "paints f (\<lambda>x' y'. \<exists>col \<in> set [0 ..< 8]. int x' = x + int col \<and> int y' = y + int row) bg m
      (?row row m)" if "row < 16" for row m
    by (rule paints_fold, rule px) (use that in simp_all)
  have "paints f (\<lambda>x' y'. \<exists>row \<in> set [0 ..< 16]. \<exists>col \<in> set [0 ..< 8].
      int x' = x + int col \<and> int y' = y + int row) bg m (fold ?row [0 ..< 16] m)"
    by (rule paints_fold, rule row) simp
  moreover have "draw_char f x y c fg bg m = fold ?row [0 ..< 16] m"
    by (simp add: draw_char_def font8x16_def fb_char_width_def fb_char_height_def)
  moreover have "(\<exists>row \<in> set [0 ..< 16]. \<exists>col \<in> set [0 ..< 8]. int x' = x + int col \<and> int y' = y + int row)
      \<longleftrightarrow> x \<le> int x' \<and> int x' < x + 8 \<and> y \<le> int y' \<and> int y' < y + 16" (is "?L \<longleftrightarrow> ?R") for x' y'
  proof
    assume ?R
    then show ?L
      by (intro bexI [of _ "nat (int y' - y)"] bexI [of _ "nat (int x' - x)"]) auto
  qed auto
  ultimately show ?thesis by (simp only:)
qed

lemma paints_clear_row:
  assumes "fb_geometry f" "y < unat (fb_height f)"
  shows "paints f (\<lambda>x' y'. y' = y) color m (clear_row f color y m)"
proof -
  have "paints f (\<lambda>x' y'. \<exists>x \<in> set [0 ..< unat (fb_width f)]. x' = x \<and> y' = y) color m (clear_row f color y m)"
    unfolding clear_row_def by (rule paints_fold, rule paints_pixel [OF assms(1)]) (use assms(2) in simp)
  then show ?thesis by (rule paints_cong) simp
qed

lemma paints_clear:
  assumes "fb_geometry f"
  shows "paints f (\<lambda>_ _. True) color m (snd (fb_clear color (f, m)))"
proof -
  have "paints f (\<lambda>x' y'. \<exists>y \<in> set [0 ..< unat (fb_height f)]. y' = y) color m
      (fold (clear_row f color) [0 ..< unat (fb_height f)] m)"
    by (rule paints_fold, rule paints_clear_row [OF assms]) simp
  then show ?thesis unfolding fb_clear_def by (simp, elim paints_cong) simp
qed

text \<open>Painting depends on the geometry only, not on the cursor.\<close>

lemma paints_cursor [simp]:
  "paints (f\<lparr>cursor_x := i\<rparr>) = paints f" "paints (f\<lparr>cursor_y := i\<rparr>) = paints f"
  "paints (f\<lparr>fg_color := c\<rparr>) = paints f" "paints (f\<lparr>bg_color := c\<rparr>) = paints f"
  by (simp_all add: paints_def fun_eq_iff screen_def pixel_addr_def fb_area_def)

section \<open>The console as a terminal\<close>

text \<open>The specification of the cursor: where it goes, and whether the screen is cleared.\<close>

definition term_step :: "u8 \<Rightarrow> int \<times> int \<Rightarrow> int \<times> int" where
  "term_step c = (\<lambda>(x, y).
     if c = 10 then (0, y + 16) else if c = 13 then (0, y)
     else if c = 9 then ((x div 32 + 1) * 32, y) else (x + 8, y))"

definition term_wrap :: "int \<Rightarrow> int \<times> int \<Rightarrow> int \<times> int" where
  "term_wrap w = (\<lambda>(x, y). if x + 8 > w then (0, y + 16) else (x, y))"

definition term_full :: "u8 \<Rightarrow> int \<Rightarrow> int \<Rightarrow> int \<times> int \<Rightarrow> bool" where
  "term_full c w h p \<longleftrightarrow> snd (term_wrap w (term_step c p)) + 16 > h"

definition term_next :: "u8 \<Rightarrow> int \<Rightarrow> int \<Rightarrow> int \<times> int \<Rightarrow> int \<times> int" where
  "term_next c w h p = (if term_full c w h p then (0, 0) else term_wrap w (term_step c p))"

definition cursor :: "fb_state \<Rightarrow> int \<times> int" where
  "cursor f = (cursor_x f, cursor_y f)"

text \<open>The region a character paints: the whole screen when it is cleared, its cell when the character
  is drawn, nothing otherwise.\<close>

definition term_region :: "u8 \<Rightarrow> int \<Rightarrow> int \<Rightarrow> int \<times> int \<Rightarrow> nat \<Rightarrow> nat \<Rightarrow> bool" where
  "term_region c w h p x y \<longleftrightarrow> term_full c w h p
     \<or> c \<notin> {9, 10, 13} \<and> fst p \<le> int x \<and> int x < fst p + 8 \<and> snd p \<le> int y \<and> int y < snd p + 16"

abbreviation fb_w :: "fb_state \<Rightarrow> int" where
  "fb_w f \<equiv> uint (fb_width f)"

abbreviation fb_h :: "fb_state \<Rightarrow> int" where
  "fb_h f \<equiv> uint (fb_height f)"

lemma u64_exceeds:
  assumes "0 \<le> i" "i < 2 ^ 62" "0 \<le> j" "j < 2 ^ 62"
  shows "word_of_int i + word_of_int j > (w::u64) \<longleftrightarrow> i + j > uint w"
proof -
  obtain n where n: "i + j = int n" using assms by (metis add_nonneg_nonneg nonneg_int_cases)
  then have "n < 2 ^ 64" using assms by simp
  then have "unat (of_nat n :: u64) = n" by (rule unat_of_nat_u64)
  moreover have "word_of_int i + word_of_int j = (of_nat n :: u64)"
    by (metis n of_int_add of_int_of_nat_eq)
  ultimately show ?thesis by (simp add: word_less_nat_alt n) (metis nat_less_as_int uint_nat)
qed

lemma fb_wrap_refines:
  assumes "fb_geometry f" "0 \<le> cursor_x f" "cursor_x f < 2 ^ 31" "0 \<le> cursor_y f" "cursor_y f < 2 ^ 31"
  defines "q \<equiv> term_wrap (fb_w f) (cursor f)"
  shows "\<exists>m'. fb_wrap (f, m) =
      (if snd q + 16 > fb_h f then f\<lparr>cursor_x := 0, cursor_y := 0\<rparr>
       else f\<lparr>cursor_x := fst q, cursor_y := snd q\<rparr>, m')
    \<and> paints f (\<lambda>x y. snd q + 16 > fb_h f) (bg_color f) m m'"
proof -
  define f1 where "f1 = f\<lparr>cursor_x := fst q, cursor_y := snd q\<rparr>"
  have g1: "fb_geometry f1" using assms(1) by (simp add: f1_def fb_geometry_def)
  have "(if word_of_int (cursor_x f) + word_of_int fb_char_width > fb_width f
      then f\<lparr>cursor_x := 0, cursor_y := cursor_y f + fb_char_height\<rparr> else f) = f1"
    using assms(2,3) by (subst u64_exceeds)
      (simp_all add: fb_char_width_def fb_char_height_def f1_def q_def term_wrap_def cursor_def)
  moreover have "word_of_int (cursor_y f1) + word_of_int fb_char_height > fb_height f1
      \<longleftrightarrow> snd q + 16 > fb_h f"
    using assms(4,5) by (subst u64_exceeds)
      (simp_all add: fb_char_height_def f1_def q_def term_wrap_def cursor_def)
  ultimately have w: "fb_wrap (f, m) = (if snd q + 16 > fb_h f then fb_clear (bg_color f) (f1, m) else (f1, m))"
    by (simp add: fb_wrap_def Let_def) (simp add: f1_def)
  show ?thesis
  proof (cases "snd q + 16 > fb_h f")
    case True
    have "paints f (\<lambda>_ _. True) (bg_color f) m (snd (fb_clear (bg_color f) (f1, m)))"
      using paints_clear [OF g1, of "bg_color f" m] by (simp add: f1_def)
    moreover have "fb_clear (bg_color f) (f1, m) =
        (f\<lparr>cursor_x := 0, cursor_y := 0\<rparr>, snd (fb_clear (bg_color f) (f1, m)))"
      by (simp add: fb_clear_def f1_def)
    ultimately show ?thesis using True w by auto
  next
    case False
    then show ?thesis using w by (auto simp: f1_def intro: paints_refl)
  qed
qed

lemma term_next_ok:
  assumes "fb_geometry f" "cursor_ok f" "q = term_next c (fb_w f) (fb_h f) (cursor f)"
  shows "cursor_ok (f\<lparr>cursor_x := fst q, cursor_y := snd q\<rparr>)"
proof -
  have "8 \<le> fb_w f" "16 \<le> fb_h f"
    using assms(1) by (simp_all add: fb_geometry_def nat_le_eq_zle le_nat_iff unsigned_of_nat flip: nat_uint_eq)
  moreover have "0 \<le> cursor_x f div 32" using assms(2) by (simp add: cursor_ok_def pos_imp_zdiv_nonneg_iff)
  ultimately show ?thesis
    using assms(2,3)
    by (auto simp: cursor_ok_def term_next_def term_full_def term_wrap_def term_step_def cursor_def
        fb_char_width_def fb_char_height_def split: if_splits)
qed

lemma fb_putchar_paints:
  fixes c :: u8
  assumes "fb_geometry f" "cursor_ok f"
  defines "q \<equiv> term_next c (fb_w f) (fb_h f) (cursor f)"
  shows "\<exists>m'. fb_putchar c (f, m) = (f\<lparr>cursor_x := fst q, cursor_y := snd q\<rparr>, m')
     \<and> cursor_ok (f\<lparr>cursor_x := fst q, cursor_y := snd q\<rparr>)
     \<and> paints f (term_region c (fb_w f) (fb_h f) (cursor f)) (bg_color f) m m'"
proof -
  define f1 where "f1 = f\<lparr>cursor_x := fst (term_step c (cursor f)), cursor_y := snd (term_step c (cursor f))\<rparr>"
  define m1 where "m1 = (if c \<in> {9, 10, 13} then m
      else draw_char f (cursor_x f) (cursor_y f) c (fg_color f) (bg_color f) m)"
  have "fb_w f < 2 ^ 30" "fb_h f < 2 ^ 30"
    using assms(1) by (simp_all add: fb_geometry_def nat_less_iff flip: nat_uint_eq)
  then have lt: "0 \<le> cursor_x f" "cursor_x f < 2 ^ 30" "0 \<le> cursor_y f" "cursor_y f < 2 ^ 30"
    using assms(2) by (simp_all add: cursor_ok_def fb_char_width_def fb_char_height_def)
  then have "cursor_x f sdiv 32 = cursor_x f div 32" by (auto simp: signed_divide_int_def sgn_if)
  then have put: "fb_putchar c (f, m) = fb_wrap (f1, m1)"
    by (auto simp: fb_putchar_def f1_def m1_def term_step_def cursor_def fb_char_width_def fb_char_height_def)
  have p1: "paints f (\<lambda>x y. c \<notin> {9, 10, 13} \<and> cursor_x f \<le> int x \<and> int x < cursor_x f + 8
      \<and> cursor_y f \<le> int y \<and> int y < cursor_y f + 16) (bg_color f) m m1"
    using paints_draw_char [OF assms(1), of "cursor_x f" "cursor_y f" "bg_color f" m c "fg_color f"] lt
    by (auto simp: m1_def intro: paints_refl)
  have g1: "fb_geometry f1" using assms(1) by (simp add: f1_def fb_geometry_def)
  have "0 \<le> cursor_x f1" "cursor_x f1 < 2 ^ 31" "0 \<le> cursor_y f1" "cursor_y f1 < 2 ^ 31"
    using lt by (auto simp: f1_def term_step_def cursor_def)
  from fb_wrap_refines [OF g1 this, of m1] obtain m' where
    m': "fb_wrap (f1, m1) = (f\<lparr>cursor_x := fst q, cursor_y := snd q\<rparr>, m')"
    "paints f (\<lambda>x y. term_full c (fb_w f) (fb_h f) (cursor f)) (bg_color f) m1 m'"
    by (auto simp: f1_def q_def term_next_def term_full_def cursor_def split: if_splits)
  have "paints f (term_region c (fb_w f) (fb_h f) (cursor f)) (bg_color f) m m'"
    by (rule paints_cong [OF paints_trans [OF p1 m'(2)]]) (auto simp: term_region_def cursor_def)
  with put m'(1) term_next_ok [OF assms(1,2), of q c] show ?thesis by (auto simp: q_def)
qed

text \<open>The terminal: a cursor and the colours of the pixels.\<close>

definition term_putc :: "int \<Rightarrow> int \<Rightarrow> u32 \<Rightarrow> u8 \<Rightarrow>
    (int \<times> int) \<times> (nat \<Rightarrow> nat \<Rightarrow> u32) \<Rightarrow> (int \<times> int) \<times> (nat \<Rightarrow> nat \<Rightarrow> u32)" where
  "term_putc w h bg c = (\<lambda>(p, scr).
     (term_next c w h p, \<lambda>x y. if term_region c w h p x y then bg else scr x y))"

lemma term_putc_cong:
  assumes "\<And>x y. D x y \<Longrightarrow> scr x y = scr' x y" "D x y"
  shows "fst (fold (term_putc w h bg) str (p, scr)) = fst (fold (term_putc w h bg) str (p, scr'))
     \<and> snd (fold (term_putc w h bg) str (p, scr)) x y = snd (fold (term_putc w h bg) str (p, scr')) x y"
  using assms(1)
proof (induction str arbitrary: p scr scr')
  case Nil
  with assms(2) show ?case by simp
next
  case (Cons c str)
  have "(if term_region c w h p x y then bg else scr x y) = (if term_region c w h p x y then bg else scr' x y)"
    if "D x y" for x y
    using Cons.prems [OF that] by simp
  from Cons.IH [OF this] show ?case by (simp add: term_putc_def)
qed

text \<open>What printing does to the console, as a relation between the states before and after.\<close>

definition prints :: "u8 list \<Rightarrow> fb_state \<times> memory \<Rightarrow> fb_state \<times> memory \<Rightarrow> bool" where
  "prints str = (\<lambda>(f, m) (f', m').
     let t = fold (term_putc (fb_w f) (fb_h f) (bg_color f)) str (cursor f, screen f m)
     in f' = f\<lparr>cursor_x := fst (fst t), cursor_y := snd (fst t)\<rparr> \<and> cursor_ok f'
        \<and> (\<forall>x y. on_screen f x y \<longrightarrow> screen f m' x y = snd t x y)
        \<and> (\<forall>a. outside (fb_ptr f) (fb_area f) a \<longrightarrow> m' a = m a))"

lemma screen_cursor [simp]:
  "screen (f\<lparr>cursor_x := i\<rparr>) = screen f" "screen (f\<lparr>cursor_y := i\<rparr>) = screen f"
  "screen (f\<lparr>fg_color := c\<rparr>) = screen f" "screen (f\<lparr>bg_color := c\<rparr>) = screen f"
  by (simp_all add: fun_eq_iff screen_def pixel_addr_def)

lemma fb_fold_prints:
  assumes "fb_geometry f" "cursor_ok f"
  shows "prints str (f, m) (fold fb_putchar str (f, m))"
  using assms
proof (induction str arbitrary: f m)
  case Nil
  then show ?case by (simp add: prints_def cursor_def)
next
  case (Cons c str)
  define q where "q = term_next c (fb_w f) (fb_h f) (cursor f)"
  define f1 where "f1 = f\<lparr>cursor_x := fst q, cursor_y := snd q\<rparr>"
  obtain m1 where m1: "fb_putchar c (f, m) = (f1, m1)" "cursor_ok f1"
    "paints f (term_region c (fb_w f) (fb_h f) (cursor f)) (bg_color f) m m1"
    using fb_putchar_paints [OF Cons.prems, of c m] by (auto simp: q_def f1_def)
  have "fb_geometry f1" using Cons.prems(1) by (simp add: f1_def fb_geometry_def)
  from Cons.IH [OF this m1(2), of m1] have IH: "prints str (f1, m1) (fold fb_putchar str (f1, m1))" .
  obtain f2 m2 where r: "fold fb_putchar str (f1, m1) = (f2, m2)" by force
  let ?T = "fold (term_putc (fb_w f) (fb_h f) (bg_color f)) str"
  let ?scr = "\<lambda>x y. if term_region c (fb_w f) (fb_h f) (cursor f) x y then bg_color f else screen f m x y"
  have "screen f m1 x y = ?scr x y" if "on_screen f x y" for x y
    using m1(3) that by (simp add: paints_def)
  then have T: "fst (?T (q, screen f m1)) = fst (?T (q, ?scr))
      \<and> snd (?T (q, screen f m1)) x y = snd (?T (q, ?scr)) x y" if "on_screen f x y" for x y
    using that by (rule term_putc_cong [where D = "on_screen f"])
  have "0 < unat (fb_width f)" "0 < unat (fb_height f)" using Cons.prems(1) by (simp_all add: fb_geometry_def)
  then have T0: "fst (?T (q, screen f m1)) = fst (?T (q, ?scr))" using T [of 0 0] by simp
  have step: "term_putc (fb_w f) (fb_h f) (bg_color f) c (cursor f, screen f m) = (q, ?scr)"
    by (simp add: term_putc_def q_def)
  have out: "m1 a = m a" if "outside (fb_ptr f) (fb_area f) a" for a
    using m1(3) that by (simp add: paints_def)
  have "cursor f1 = q" by (simp add: cursor_def f1_def)
  moreover have "fb_area f1 = fb_area f" by (simp add: f1_def fb_area_def)
  ultimately show ?case
    using IH T T0 out unfolding prints_def Let_def split_conv fold_simps(2) o_apply m1(1) r step
    by (simp add: f1_def, elim conjE, simp)
qed

text \<open>Every text printer is a fold of \<open>fb_putchar\<close>.\<close>

fun c_text :: "u8 list \<Rightarrow> u8 list" where
  "c_text [] = []"
| "c_text (c # str) = (if c = 0 then [] else c # c_text str)"

lemma fb_puts_text: "fb_puts str s = fold fb_putchar (c_text str) s"
  by (induction str s rule: fb_puts.induct) simp_all

section \<open>Properties\<close>

text \<open>C17: on a screen that holds a character cell, with the cursor on a cell of the screen, printing a
  string with \<open>fb_puts_color\<close> refines the terminal character by character: the cursor moves as the
  terminal's (advance, tabulator, line feed, wrap, and the clearing of a full screen) and stays on a
  cell of the screen, the pixels are those of the terminal in the background colour given, the two
  colours are restored, no other variable changes and no byte outside the framebuffer is written.\<close>

theorem fb_puts_color_refines:
  assumes "fb_geometry f" "cursor_ok f"
  shows "\<exists>f' m'. fb_puts_color str fg bg (f, m) = (f', m')
     \<and> fg_color f' = fg_color f \<and> bg_color f' = bg_color f
     \<and> prints (c_text str) (f\<lparr>fg_color := fg, bg_color := bg\<rparr>, m) (f'\<lparr>fg_color := fg, bg_color := bg\<rparr>, m')"
proof -
  let ?f = "f\<lparr>fg_color := fg, bg_color := bg\<rparr>"
  have "fb_geometry ?f" "cursor_ok ?f" using assms by (simp_all add: fb_geometry_def cursor_ok_def)
  from fb_fold_prints [OF this, of "c_text str" m]
  have p: "prints (c_text str) (?f, m) (fb_puts str (?f, m))" by (simp add: fb_puts_text)
  obtain f1 m1 where r: "fb_puts str (?f, m) = (f1, m1)" by force
  with p obtain i j where "f1 = ?f\<lparr>cursor_x := i, cursor_y := j\<rparr>" by (auto simp: prints_def Let_def)
  then have f1: "f1\<lparr>fg_color := a, bg_color := b, fg_color := fg, bg_color := bg\<rparr> = f1" for a b
    by (cases f) simp
  show ?thesis
    by (rule exI [of _ "f1\<lparr>fg_color := fg_color f, bg_color := bg_color f\<rparr>"], rule exI [of _ m1])
      (use p r f1 in \<open>simp add: fb_puts_color_def\<close>)
qed

text \<open>Characters other than tabulator, line feed and carriage return cannot be told apart on the screen.\<close>

lemma fb_glyphs_blank:
  "c \<notin> {9, 10, 13} \<Longrightarrow> d \<notin> {9, 10, 13} \<Longrightarrow> fb_putchar c s = fb_putchar d s"
  by (cases s) (simp add: fb_putchar_def draw_char_def font8x16_def)

lemma pages_Suc:
  assumes "(0::nat) < d"
  shows "(d + 4095) div 4096 = Suc ((d - 4096 + 4095) div 4096)"
proof (cases "d \<le> 4096")
  case True
  with assms have "d + 4095 = 4096 + (d - 1)" "d - 1 < 4096" by simp_all
  with True show ?thesis by simp
next
  case False
  then have "d + 4095 = 4096 + (d - 4096 + 4095)" by simp
  then show ?thesis by (metis div_add_self1 add_Suc_right add.right_neutral One_nat_def add.commute zero_neq_numeral)
qed

lemma fb_map_loop_returns:
  assumes "unat off + 4096 * k < 2 ^ 64" "unat bound \<le> unat off + 4096 * k"
  shows "fb_map_loop h p bound off s
     = Some (fold (\<lambda>i s. vmm_map_page h (fb_virt + (off + of_nat i * 0x1000)) (p + (off + of_nat i * 0x1000)) 0x23 s)
         [0 ..< (unat bound - unat off + 4095) div 4096] s)"
  using assms
proof (induction k arbitrary: off s)
  case 0
  then show ?case by (simp add: fb_map_loop.simps [of h p bound off s] word_less_nat_alt)
next
  case (Suc k)
  show ?case
  proof (cases "off < bound")
    case False
    then show ?thesis by (simp add: fb_map_loop.simps [of h p bound off s] word_less_nat_alt)
  next
    case True
    have u: "unat (off + 0x1000) = unat off + 4096"
      using Suc.prems by (simp add: unat_word_ariths)
    let ?g = "\<lambda>off i s. vmm_map_page h (fb_virt + (off + of_nat i * 0x1000)) (p + (off + of_nat i * 0x1000)) 0x23 s"
    have "(unat bound - unat off + 4095) div 4096 = Suc ((unat bound - unat (off + 0x1000) + 4095) div 4096)"
      using True pages_Suc [of "unat bound - unat off"] by (simp add: u word_less_nat_alt)
    then have n: "[0 ..< (unat bound - unat off + 4095) div 4096]
        = 0 # map Suc [0 ..< (unat bound - unat (off + 0x1000) + 4095) div 4096]"
      by (simp only: upt_rec [of 0 "Suc _"] map_Suc_upt zero_less_Suc if_True)
    have sh: "?g (off + 0x1000) = ?g off \<circ> Suc" by (simp add: fun_eq_iff algebra_simps)
    have "fb_map_loop h p bound off s = fb_map_loop h p bound (off + 0x1000) (?g off 0 s)"
      using True by (subst fb_map_loop.simps) simp
    also have "\<dots> = Some (fold (?g (off + 0x1000)) [0 ..< (unat bound - unat (off + 0x1000) + 4095) div 4096] (?g off 0 s))"
      using Suc.prems u by (intro Suc.IH) simp_all
    finally show ?thesis unfolding n sh by (simp add: fold_map)
  qed
qed

lemma fb_vpage:
  assumes "i < 0x7E000" "d < 4096"
  shows "vpage (fb_virt + of_nat (4096 * i + d)) = of_nat (0xFFFF82000 + i)"
    and "(fb_virt + of_nat (4096 * i + d)) AND 0xFFF = of_nat d"
proof -
  have "unat (of_nat (4096 * i + d) :: u64) = 4096 * i + d" "unat fb_virt = 0xFFFFFFFF82000000"
    using assms by (intro unat_of_nat_u64) (simp_all add: fb_virt_def)
  then have "unat (fb_virt + of_nat (4096 * i + d)) = 4096 * (65535 * 2 ^ 36 + (0xFFFF82000 + i)) + d"
    using assms by (simp add: unat_word_ariths del: of_nat_add of_nat_mult)
  from vpage_unat [OF this] assms
  show "vpage (fb_virt + of_nat (4096 * i + d)) = of_nat (0xFFFF82000 + i)"
    "(fb_virt + of_nat (4096 * i + d)) AND 0xFFF = of_nat d" by simp_all
qed

lemma page_number_inj:
  "i < 0x7E000 \<Longrightarrow> j < 0x7E000 \<Longrightarrow> (of_nat (0xFFFF82000 + i) :: u64) = of_nat (0xFFFF82000 + j) \<longleftrightarrow> i = j"
  by (subst word_unat_eq_iff, subst (1 2) unat_of_nat_u64) simp_all

definition fb_page :: "nat \<Rightarrow> u64" where
  "fb_page i = fb_virt + of_nat (4096 * i)"

lemma fb_page_vpage: "i < 0x7E000 \<Longrightarrow> vpage (fb_page i) = of_nat (0xFFFF82000 + i)"
  using fb_vpage(1) [of i 0] by (simp only: fb_page_def add_0_right zero_less_numeral simp_thms)

lemma frame_number:
  assumes "page_aligned p" "unat p + 4096 * i < 2 ^ 52"
  shows "page_aligned (p + of_nat (4096 * i))" "p + of_nat (4096 * i) < 2 ^ 52"
proof -
  have "unat (p + of_nat (4096 * i)) = unat p + 4096 * i"
    using assms(2) by (subst unat_add_of_nat) simp_all
  then show "page_aligned (p + of_nat (4096 * i))" "p + of_nat (4096 * i) < 2 ^ 52"
    using assms by (simp_all add: page_aligned_dvd word_less_nat_alt del: of_nat_mult)
qed

lemma fb_map_pages_ok:
  assumes "pt_inv s ps" "h = pmm_hhdm s" "3 * k \<le> length ps" "k \<le> 0x7E000"
    and "\<And>j. j < k \<Longrightarrow> large_free s (fb_page j)" "page_aligned p" "unat p + 4096 * k \<le> 2 ^ 52"
  shows "\<exists>s' n. fold (\<lambda>i s. vmm_map_page h (fb_page i) (p + of_nat (4096 * i)) 0x23 s) [0 ..< k] s = s'
     \<and> pt_inv s' (drop n ps) \<and> n \<le> 3 * k \<and> pmm_hhdm s' = h \<and> (\<forall>w. large_free s w \<longrightarrow> large_free s' w)
     \<and> (\<forall>i<k. \<forall>w. vpage w = vpage (fb_page i) \<longrightarrow>
          vmm_virt_to_phys h w s' = p + of_nat (4096 * i) + (w AND 0xFFF))
     \<and> (\<forall>w. (\<forall>i<k. vpage w \<noteq> vpage (fb_page i)) \<longrightarrow> vmm_virt_to_phys h w s' = vmm_virt_to_phys h w s)"
  using assms
proof (induction k)
  case 0
  then show ?case by (intro exI [of _ s] exI [of _ 0]) simp
next
  case (Suc k)
  let ?g = "\<lambda>i s. vmm_map_page h (fb_page i) (p + of_nat (4096 * i)) 0x23 s"
  have "\<exists>s' n. fold ?g [0 ..< k] s = s' \<and> pt_inv s' (drop n ps) \<and> n \<le> 3 * k \<and> pmm_hhdm s' = h
     \<and> (\<forall>w. large_free s w \<longrightarrow> large_free s' w)
     \<and> (\<forall>i<k. \<forall>w. vpage w = vpage (fb_page i) \<longrightarrow>
          vmm_virt_to_phys h w s' = p + of_nat (4096 * i) + (w AND 0xFFF))
     \<and> (\<forall>w. (\<forall>i<k. vpage w \<noteq> vpage (fb_page i)) \<longrightarrow> vmm_virt_to_phys h w s' = vmm_virt_to_phys h w s)"
    using Suc.prems by (intro Suc.IH) simp_all
  then obtain s1 n where s1: "fold ?g [0 ..< k] s = s1" "pt_inv s1 (drop n ps)" "n \<le> 3 * k"
    "pmm_hhdm s1 = h" "\<And>w. large_free s w \<Longrightarrow> large_free s1 w"
    "\<And>i w. i < k \<Longrightarrow> vpage w = vpage (fb_page i) \<Longrightarrow>
       vmm_virt_to_phys h w s1 = p + of_nat (4096 * i) + (w AND 0xFFF)"
    "\<And>w. (\<forall>i<k. vpage w \<noteq> vpage (fb_page i)) \<Longrightarrow> vmm_virt_to_phys h w s1 = vmm_virt_to_phys h w s"
    by blast
  have fr: "page_aligned (p + of_nat (4096 * k))" "p + of_nat (4096 * k) < 2 ^ 52"
    using frame_number [of p k] Suc.prems by simp_all
  have "3 \<le> length (drop n ps)" using s1(3) Suc.prems(3) by simp
  from vmm_map_page_ok [OF s1(2) _ this s1(5) [OF Suc.prems(5) [OF lessI]] fr, of h "0x23"] s1(4)
  obtain n' where n': "n' \<le> 3" "pt_inv (?g k s1) (drop n' (drop n ps))" "pmm_hhdm (?g k s1) = h"
    "\<And>w. large_free s1 w \<Longrightarrow> large_free (?g k s1) w"
    "\<And>w. vmm_virt_to_phys h w (?g k s1) = (if vpage w = vpage (fb_page k)
       then p + of_nat (4096 * k) + (w AND 0xFFF) else vmm_virt_to_phys h w s1)" by auto
  have ne: "vpage (fb_page i) \<noteq> vpage (fb_page k)" if "i < k" for i
  proof -
    have "i < 0x7E000" "k < 0x7E000" using that Suc.prems(4) by simp_all
    then show ?thesis using that page_number_inj [of i k] by (simp only: fb_page_vpage)
  qed
  show ?case
  proof (intro exI [of _ "?g k s1"] exI [of _ "n + n'"] conjI)
    show "fold ?g [0 ..< Suc k] s = ?g k s1" using s1(1) by simp
    show "pt_inv (?g k s1) (drop (n + n') ps)" using n'(2) by (simp add: add.commute)
  qed (use s1(3-) n' ne less_Suc_eq in auto)
qed

text \<open>C35: with three frames per page available for page tables and no large page in the way, \<open>fb_init\<close>
  returns, every byte of the framebuffer is then reached through the virtual window at
  \<open>0xFFFFFFFF82000000\<close>, the translation of every page outside the window is unchanged, the page tables
  stay well formed, and the console remembers the geometry it was given.\<close>

theorem fb_init_maps:
  assumes "pt_inv s ps" "k = (unat height * unat pitch + 4095) div 4096" "3 * k \<le> length ps" "k \<le> 0x7E000"
    and "\<And>j. j < k \<Longrightarrow> large_free s (fb_page j)" "page_aligned p" "unat p + 4096 * k \<le> 2 ^ 52"
  shows "\<exists>f' s' n. fb_init (pmm_hhdm s) p width height pitch bpp f s = Some (f', s')
     \<and> f' = f\<lparr>fb_ptr := fb_virt, fb_width := width, fb_height := height, fb_pitch := pitch, fb_bpp := bpp\<rparr>
     \<and> pt_inv s' (drop n ps) \<and> n \<le> 3 * k
     \<and> (\<forall>d < unat height * unat pitch. vmm_virt_to_phys (pmm_hhdm s) (fb_virt + of_nat d) s' = p + of_nat d)
     \<and> (\<forall>w. (\<forall>i<k. vpage w \<noteq> vpage (fb_page i)) \<longrightarrow>
          vmm_virt_to_phys (pmm_hhdm s) w s' = vmm_virt_to_phys (pmm_hhdm s) w s)"
proof -
  let ?h = "pmm_hhdm s" and ?b = "unat height * unat pitch"
  have b: "?b \<le> 4096 * k" "4096 * k < 2 ^ 52" using assms(2,4) by simp_all
  then have u: "unat (height * pitch) = ?b" by (simp add: unat_word_ariths)
  have "fb_map_loop ?h p (height * pitch) 0 s =
      Some (fold (\<lambda>i s. vmm_map_page ?h (fb_page i) (p + of_nat (4096 * i)) 0x23 s) [0 ..< k] s)"
    using fb_map_loop_returns [of 0 k "height * pitch" ?h p s] b u assms(2)
    by (simp add: fb_page_def mult.commute)
  moreover obtain s' n where s': "fold (\<lambda>i s. vmm_map_page ?h (fb_page i) (p + of_nat (4096 * i)) 0x23 s) [0 ..< k] s = s'"
    "pt_inv s' (drop n ps)" "n \<le> 3 * k"
    "\<And>i w. i < k \<Longrightarrow> vpage w = vpage (fb_page i) \<Longrightarrow>
       vmm_virt_to_phys ?h w s' = p + of_nat (4096 * i) + (w AND 0xFFF)"
    "\<And>w. (\<forall>i<k. vpage w \<noteq> vpage (fb_page i)) \<Longrightarrow> vmm_virt_to_phys ?h w s' = vmm_virt_to_phys ?h w s"
    using fb_map_pages_ok [OF assms(1) refl assms(3-)] by blast
  moreover have "vmm_virt_to_phys ?h (fb_virt + of_nat d) s' = p + of_nat d" if "d < ?b" for d
  proof -
    have i: "d div 4096 < k" "d div 4096 < 0x7E000" "d mod 4096 < 4096"
      using that b assms(4) by (simp_all add: div_less_iff_less_mult mult.commute)
    have d: "d = 4096 * (d div 4096) + d mod 4096" by simp
    have "vpage (fb_virt + of_nat d) = vpage (fb_page (d div 4096))"
      "(fb_virt + of_nat d) AND 0xFFF = of_nat (d mod 4096)"
      using fb_vpage [OF i(2,3)] fb_page_vpage [OF i(2)] by (simp_all only: d [symmetric])
    with s'(4) [OF i(1)] have "vmm_virt_to_phys ?h (fb_virt + of_nat d) s'
        = p + (of_nat (4096 * (d div 4096)) + of_nat (d mod 4096))" by (simp only: add.assoc)
    then show ?thesis by (simp only: of_nat_add [symmetric] d [symmetric])
  qed
  ultimately show ?thesis unfolding fb_init_def by (auto simp del: of_nat_mult)
qed

subsection \<open>Instances\<close>

text \<open>A screen of two by two character cells.\<close>

definition fb_example :: fb_state where
  "fb_example = fb_static\<lparr>fb_ptr := fb_virt, fb_width := 16, fb_height := 32, fb_pitch := 64, fb_bpp := 32\<rparr>"

theorem fb_puts_color_refines_witness:
  "\<exists>f' m'. fb_puts_color [65, 10, 66, 0] 0xFFFFFF 0x80 (fb_example, \<lambda>_. 0) = (f', m')
     \<and> cursor f' = (8, 16) \<and> bg_color f' = 0 \<and> screen fb_example m' 7 15 = 0x80
     \<and> screen fb_example m' 8 15 = screen fb_example (\<lambda>_. 0) 8 15"
proof -
  have g: "fb_geometry fb_example" "cursor_ok fb_example"
    by (simp_all add: fb_geometry_def cursor_ok_def fb_example_def fb_static_def fb_char_width_def
        fb_char_height_def)
  obtain f' m' where r: "fb_puts_color [65, 10, 66, 0] 0xFFFFFF 0x80 (fb_example, \<lambda>_. 0) = (f', m')"
    "bg_color f' = bg_color fb_example"
    "prints (c_text [65, 10, 66, 0]) (fb_example\<lparr>fg_color := 0xFFFFFF, bg_color := 0x80\<rparr>, \<lambda>_. 0)
      (f'\<lparr>fg_color := 0xFFFFFF, bg_color := 0x80\<rparr>, m')"
    using fb_puts_color_refines [OF g, of "[65, 10, 66, 0]" "0xFFFFFF" "0x80" "\<lambda>_. 0"] by blast
  have p: "cursor fb_example = (0, 0)" "fb_w fb_example = 16" "fb_h fb_example = 32" "bg_color fb_example = 0"
    by (simp_all add: cursor_def fb_example_def fb_static_def)
  have d: "unat (fb_width fb_example) = 16" "unat (fb_height fb_example) = 32"
    by (simp_all add: fb_example_def fb_static_def)
  have c: "cursor (fb_example\<lparr>fg_color := a, bg_color := b\<rparr>) = cursor fb_example" for a b
    by (simp add: cursor_def)
  note ev = term_putc_def term_next_def term_full_def term_wrap_def term_step_def term_region_def
  have "f'\<lparr>fg_color := 0xFFFFFF, bg_color := 0x80\<rparr>
      = fb_example\<lparr>fg_color := 0xFFFFFF, bg_color := 0x80, cursor_x := 8, cursor_y := 16\<rparr>"
    using r(3) unfolding prints_def by (simp add: p c ev)
  then have "cursor_x f' = 8" "cursor_y f' = 16"
    by (auto dest!: arg_cong [where f = cursor] simp: cursor_def)
  moreover have "screen fb_example m' 7 15 = 0x80" "screen fb_example m' 8 15 = screen fb_example (\<lambda>_. 0) 8 15"
    using r(3) unfolding prints_def by (simp_all add: p d c ev)
  ultimately show ?thesis using r(1,2) p(4) by (simp add: cursor_def)
qed

theorem fb_init_maps_witness:
  "\<exists>f' s'. fb_init (pmm_hhdm heap_machine) 0xE0000000 16 32 64 32 fb_static heap_machine = Some (f', s')
     \<and> vmm_virt_to_phys (pmm_hhdm heap_machine) (fb_virt + of_nat 77) s' = 0xE0000000 + of_nat 77"
proof -
  have "3 * 1 \<le> length (rev many_frames)" by (simp add: many_frames_def)
  from fb_init_maps [of heap_machine "rev many_frames" 1 32 64 "0xE0000000" 16 32 fb_static, OF _ _ this]
    heap_machine_inv
  show ?thesis by (auto simp: page_aligned_def dest!: spec [where x = 77])
qed

end
