(* ===== verification/Kmain.thy ===== *)
theory Kmain
  imports Scheduler Keyboard Timer Descriptors Apic Fb "HOL-Library.Monad_Syntax"
begin

text \<open>
  \<open>src/kernel/kmain.c\<close>: the requests to the boot loader, the C entry points of exceptions and
  interrupts, and the boot sequence, which puts the components together.

  \<^item> The kernel's state is a record with the state of every component.
  \<^item> What the boot loader answers, the addresses the linker assigns and the entry points in assembly are the
    fields of \<open>boot_env\<close>.
  \<^item> The assembly stub of an interrupt pushes the interrupted registers and passes a pointer to them: an
    event \<open>Irq regs frame\<close> stores the frame there and calls \<open>irq_handler\<close>. While \<open>kmain\<close> sleeps the other
    threads run as well: \<open>Thread_a\<close> and \<open>Thread_b\<close> are one round of their loops. A sleep takes the events of
    each of its halts; theorems hold for all of them.
  \<^item> \<open>None\<close> is a fault or a loop that never ends.
\<close>

section \<open>The boot protocol\<close>

record limine_hhdm_response =
  hr_revision :: u64
  hr_offset :: u64

record limine_framebuffer =
  lf_address :: u64
  lf_width :: u64
  lf_height :: u64
  lf_pitch :: u64
  lf_bpp :: u16
  lf_memory_model :: u8
  lf_red_mask_size :: u8
  lf_red_mask_shift :: u8
  lf_green_mask_size :: u8
  lf_green_mask_shift :: u8
  lf_blue_mask_size :: u8
  lf_blue_mask_shift :: u8
  lf_edid_size :: u64
  lf_edid :: u64
  lf_mode_count :: u64
  lf_modes :: u64

record limine_framebuffer_response =
  fr_revision :: u64
  framebuffer_count :: u64
  framebuffers :: "limine_framebuffer list"

record limine_memmap_response =
  mr_revision :: u64
  mr_entries :: "limine_memmap_entry list"

text \<open>The three requests have the same shape; the response pointer may be null.\<close>

record 'r limine_request =
  rq_id :: "u64 list"
  rq_revision :: u64
  rq_response :: "'r option"

definition LIMINE_COMMON_MAGIC :: "u64 list" where
  "LIMINE_COMMON_MAGIC = [0xc7b1dd30df4c8b88, 0x0a82e883a194f07b]"

definition LIMINE_HHDM_REQUEST_ID :: "u64 list" where
  "LIMINE_HHDM_REQUEST_ID = LIMINE_COMMON_MAGIC @ [0x48dcf1cb8ad2b852, 0x63984e959a98244b]"

definition LIMINE_FRAMEBUFFER_REQUEST_ID :: "u64 list" where
  "LIMINE_FRAMEBUFFER_REQUEST_ID = LIMINE_COMMON_MAGIC @ [0x9d5827dcd881dd75, 0xa3148604f6fab11b]"

definition LIMINE_MEMMAP_REQUEST_ID :: "u64 list" where
  "LIMINE_MEMMAP_REQUEST_ID = LIMINE_COMMON_MAGIC @ [0x67cf3d9d378a806f, 0xe304acdfc50c3c62]"

definition limine_requests_start :: "u64 list" where
  "limine_requests_start = [0xf6b8f4b39de7d1ae, 0xfab91a6940fcb9cf, 0x785c6ed015d3e316, 0x181e920a7852b9d9]"

text \<open>The array has four elements, the marker two.\<close>

definition limine_requests_end :: "u64 list" where
  "limine_requests_end = [0xadc0e0531bb10d03, 0x9572709f31764c62, 0, 0]"

definition limine_base_revision :: "u64 list" where
  "limine_base_revision = [0xf9562b2d5c95a6c8, 0x6a7b384944536bdc, 6]"

text \<open>The requests as they stand in the image; the boot loader fills in the responses.\<close>

definition hhdm_request :: "limine_hhdm_response option \<Rightarrow> limine_hhdm_response limine_request" where
  "hhdm_request response = \<lparr>rq_id = LIMINE_HHDM_REQUEST_ID, rq_revision = 0, rq_response = response\<rparr>"

definition memmap_request :: "limine_memmap_response option \<Rightarrow> limine_memmap_response limine_request" where
  "memmap_request response = \<lparr>rq_id = LIMINE_MEMMAP_REQUEST_ID, rq_revision = 0, rq_response = response\<rparr>"

definition fb_request :: "limine_framebuffer_response option \<Rightarrow> limine_framebuffer_response limine_request" where
  "fb_request response = \<lparr>rq_id = LIMINE_FRAMEBUFFER_REQUEST_ID, rq_revision = 0, rq_response = response\<rparr>"

record boot_env =
  hhdm_response :: "limine_hhdm_response option"
  memmap_response :: "limine_memmap_response option"
  fb_response :: "limine_framebuffer_response option"
  apic_msr_eax :: u32
  apic_msr_edx :: u32
  gdt_addr :: u64
  idt_addr :: u64
  isr_stub :: "nat \<Rightarrow> u64"
  irq_stub :: "nat \<Rightarrow> u64"
  kernel_start :: u64
  kernel_end :: u64
  thread_a_entry :: u64
  thread_b_entry :: u64

section \<open>The kernel's state\<close>

record kernel =
  mach :: pmm_state
  k_gdt :: gdt_state
  k_idt :: idt_state
  k_apic :: apic_state
  k_timer :: timer_state
  k_kb :: kb_state
  k_fb :: fb_state
  k_heap :: heap_state
  k_sched :: sched_state
  thread_a_count :: u64
  thread_b_count :: u64

text \<open>One round of the threads' loops.\<close>

definition thread_a :: "kernel \<Rightarrow> kernel" where
  "thread_a k = k\<lparr>thread_a_count := thread_a_count k + 1\<rparr>"

definition thread_b :: "kernel \<Rightarrow> kernel" where
  "thread_b k = k\<lparr>thread_b_count := thread_b_count k + 1\<rparr>"

section \<open>Exceptions\<close>

definition exception_names :: "string list" where
  "exception_names = [
    ''Division By Zero'', ''Debug'', ''Non-Maskable Interrupt'', ''Breakpoint'',
    ''Overflow'', ''Bound Range Exceeded'', ''Invalid Opcode'', ''Device Not Available'',
    ''Double Fault'', ''Coprocessor Segment Overrun'', ''Invalid TSS'',
    ''Segment Not Present'', ''Stack-Segment Fault'', ''General Protection Fault'',
    ''Page Fault'', ''Reserved'', ''x87 Floating-Point Exception'', ''Alignment Check'',
    ''Machine Check'', ''SIMD Floating-Point Exception'', ''Virtualization Exception'',
    ''Control Protection Exception'']"

definition isr_report :: "registers_t \<Rightarrow> 'a machine_scheme \<Rightarrow> 'a machine_scheme option" where
  "isr_report regs s =
     (if int_no regs < 22 then do {
         s \<leftarrow> serial_puts (10 # lit ''=== KERNEL PANIC ==='' @ 10 # lit ''Exception: '') s;
         s \<leftarrow> serial_puts (lit (exception_names ! unat (int_no regs))) s;
         s \<leftarrow> serial_puts (10 # lit ''Error: '') s;
         s \<leftarrow> serial_put_hex (error_code regs) s;
         s \<leftarrow> serial_puts (10 # lit ''RIP: '') s;
         s \<leftarrow> serial_put_hex (rip regs) s;
         serial_puts [10] s
       } else do {
         s \<leftarrow> serial_puts (10 # lit ''Unknown interrupt: '') s;
         s \<leftarrow> serial_put_dec (int_no regs) s;
         serial_puts [10] s
       })"

text \<open>\<open>rounds\<close> is how often the final loop has gone round.\<close>

definition isr_handler :: "u64 \<Rightarrow> nat \<Rightarrow> 'a machine_scheme \<Rightarrow> 'a machine_scheme option" where
  "isr_handler p rounds s =
     map_option (halt_round ^^ rounds) (isr_report (registers_at (mem s) p) s)"

section \<open>Interrupts\<close>

definition irq_handler :: "u64 \<Rightarrow> kernel \<Rightarrow> u64 \<times> kernel" where
  "irq_handler p k =
     (let n = int_no (registers_at (mem (mach k)) p);
          (new_rsp, k1) =
            (if n = 32 then
               let (r, sc) = scheduler_tick p (k_sched k)
               in (r, k\<lparr>k_timer := timer_handler (k_timer k), k_sched := sc\<rparr>)
             else if n = 33 then
               let (kb, m) = keyboard_handler (k_kb k) (mach k) in (0, k\<lparr>k_kb := kb, mach := m\<rparr>)
             else (0, k));
          k2 = (if n \<ge> 40 then k1\<lparr>mach := outb 0xA0 0x20 (mach k1)\<rparr> else k1)
      in (new_rsp, k2\<lparr>mach := outb 0x20 0x20 (mach k2)\<rparr>))"

text \<open>The fields of the interrupt frame in memory order.\<close>

definition frame_words :: "registers_t \<Rightarrow> u64 list" where
  "frame_words r =
     [r15 r, r14 r, r13 r, r12 r, r11 r, r10 r, r9 r, r8 r, rbp r, rdi r, rsi r, rdx r, rcx r, rbx r, rax r,
      int_no r, error_code r, rip r, cs r, rflags r, rsp r, ss r]"

primrec store_words :: "u64 list \<Rightarrow> u64 \<Rightarrow> memory \<Rightarrow> memory" where
  "store_words [] p m = m"
| "store_words (w # ws) p m = store_words ws (p + 8) (store64 m p w)"

datatype kevent = Irq u64 registers_t | Thread_a | Thread_b

fun handle :: "kevent \<Rightarrow> kernel \<Rightarrow> kernel" where
  "handle (Irq p frame) k =
     snd (irq_handler p (k\<lparr>mach := (mach k)\<lparr>mem := store_words (frame_words frame) p (mem (mach k))\<rparr>\<rparr>))"
| "handle Thread_a k = thread_a k"
| "handle Thread_b k = thread_b k"

section \<open>The boot sequence\<close>

definition kputs :: "u8 list \<Rightarrow> kernel \<Rightarrow> kernel option" where
  "kputs str k = map_option (\<lambda>m. k\<lparr>mach := m\<rparr>) (serial_puts str (mach k))"

definition kput_dec :: "u64 \<Rightarrow> kernel \<Rightarrow> kernel option" where
  "kput_dec v k = map_option (\<lambda>m. k\<lparr>mach := m\<rparr>) (serial_put_dec v (mach k))"

text \<open>\<open>timer_sleep\<close> in the running kernel: each halt handles the events of one batch.\<close>

definition kernel_sleep :: "u32 \<Rightarrow> kevent list list \<Rightarrow> kernel \<Rightarrow> kernel option" where
  "kernel_sleep ms batches k =
     (let target = timer_ticks (k_timer k) + sleep_ticks (timer_freq (k_timer k)) ms
      in map_option (\<lambda>k. k\<lparr>mach := cli (mach k)\<rparr>)
           (timer_wait (\<lambda>k. timer_ticks (k_timer k)) handle (\<lambda>k. k\<lparr>mach := hw_emit Hlt (mach k)\<rparr>) target batches
              (k\<lparr>mach := sti (mach k)\<rparr>)))"

text \<open>\<open>[BOOT] Initializing name... \<close>, the step, \<open>OK\<close>.\<close>

definition boot_step :: "string \<Rightarrow> (kernel \<Rightarrow> kernel option) \<Rightarrow> kernel \<Rightarrow> kernel option" where
  "boot_step name step k = do {
     k \<leftarrow> kputs (lit (''[BOOT] Initializing '' @ name @ ''... '')) k;
     k \<leftarrow> step k;
     kputs (lit ''OK'' @ [10]) k
   }"

definition banner :: "u8 list list" where
  "banner = [
     lit ''================================================================'' @ [10],
     lit ''                          SUIKA OS (64-bit)                    '' @ [10],
     lit ''                    Developer-Friendly OS                       '' @ [10],
     lit ''================================================================'' @ [10]]"

definition fb_start :: "u64 \<Rightarrow> limine_framebuffer \<Rightarrow> kernel \<Rightarrow> kernel option" where
  "fb_start hhdm fb k = do {
     (f, m) \<leftarrow> fb_init hhdm (lf_address fb - hhdm) (lf_width fb) (lf_height fb) (lf_pitch fb) (lf_bpp fb)
                 (k_fb k) (mach k);
     let (f, mm) = fold (\<lambda>line. fb_puts_color line 0xFFFFFF 0x000080) banner (fb_clear 0x000080 (f, mem m));
     Some (k\<lparr>k_fb := f, mach := m\<lparr>mem := mm\<rparr>\<rparr>)
   }"

definition boot_fb :: "boot_env \<Rightarrow> u64 \<Rightarrow> kernel \<Rightarrow> kernel option" where
  "boot_fb env hhdm k = do {
     k \<leftarrow> kputs (lit ''[BOOT] Initializing framebuffer... '') k;
     case rq_response (fb_request (fb_response env)) of
       Some r \<Rightarrow>
         if framebuffer_count r \<noteq> 0 then do {
           k \<leftarrow> fb_start hhdm (framebuffers r ! 0) k;
           kputs (lit ''OK'' @ [10]) k
         } else kputs (lit ''no framebuffer'' @ [10]) k
     | None \<Rightarrow> kputs (lit ''no framebuffer'' @ [10]) k
   }"

text \<open>The boot sequence up to \<open>All subsystems initialized\<close>, in three parts: the processor's tables, the local
  APIC, and everything after it.\<close>

definition boot_tables :: "boot_env \<Rightarrow> kernel \<Rightarrow> kernel option" where
  "boot_tables env k = do {
     k \<leftarrow> boot_step ''GDT'' (\<lambda>k.
            let (g, m) = gdt_init (gdt_addr env) (k_gdt k) (mach k) in Some (k\<lparr>k_gdt := g, mach := m\<rparr>)) k;
     boot_step ''IDT & PIC'' (\<lambda>k.
            let (d, m) = idt_init (isr_stub env) (irq_stub env) (idt_addr env) (k_idt k) (mach k)
            in Some (k\<lparr>k_idt := d, mach := m\<rparr>)) k
   }"

definition boot_apic :: "boot_env \<Rightarrow> u64 \<Rightarrow> kernel \<Rightarrow> kernel option" where
  "boot_apic env hhdm =
     boot_step ''APIC (LINT0)'' (\<lambda>k.
       map_option (\<lambda>(a, m). k\<lparr>k_apic := a, mach := m\<rparr>)
         (apic_init (apic_msr_eax env) (apic_msr_edx env) hhdm (k_apic k) (mach k)))"

definition boot_rest :: "boot_env \<Rightarrow> u64 \<Rightarrow> kernel \<Rightarrow> kernel option" where
  "boot_rest env hhdm k = do {
     k \<leftarrow> boot_step ''PIT (100 Hz)'' (\<lambda>k.
            map_option (\<lambda>(t, m). k\<lparr>k_timer := t, mach := m\<rparr>) (timer_init 100 (k_timer k) (mach k))) k;
     k \<leftarrow> boot_step ''PS/2 keyboard'' (\<lambda>k.
            map_option (\<lambda>(b, m). k\<lparr>k_kb := b, mach := m\<rparr>) (keyboard_init (k_kb k) (mach k))) k;
     k \<leftarrow> boot_step ''PMM'' (\<lambda>k.
            map_option (\<lambda>m. k\<lparr>mach := m\<rparr>)
              (pmm_init (kernel_start env) (kernel_end env)
                 (map_option mr_entries (rq_response (memmap_request (memmap_response env)))) hhdm (mach k))) k;
     k \<leftarrow> kputs (lit ''  Free frames: '') k;
     k \<leftarrow> kput_dec (pmm_get_free_count (mach k)) k;
     k \<leftarrow> kputs [10] k;
     k \<leftarrow> boot_step ''VMM'' (\<lambda>k. Some (k\<lparr>mach := vmm_init (mach k)\<rparr>)) k;
     k \<leftarrow> boot_fb env hhdm k;
     k \<leftarrow> boot_step ''heap'' (\<lambda>k.
            let (h, m) = heap_init hhdm (k_heap k) (mach k) in Some (k\<lparr>k_heap := h, mach := m\<rparr>)) k;
     k \<leftarrow> boot_step ''scheduler'' (\<lambda>k. Some (k\<lparr>k_sched := scheduler_init (k_sched k)\<rparr>)) k;
     kputs (lit ''[BOOT] All subsystems initialized'' @ [10, 10]) k
   }"

definition kernel_boot :: "boot_env \<Rightarrow> kernel \<Rightarrow> kernel option" where
  "kernel_boot env k = do {
     k \<leftarrow> kputs (10 # lit ''=== Suika OS (64-bit) booting via Limine ==='' @ [10]) (k\<lparr>mach := serial_init (mach k)\<rparr>);
     hhdm \<leftarrow> map_option hr_offset (rq_response (hhdm_request (hhdm_response env)));
     k \<leftarrow> boot_tables env k;
     k \<leftarrow> boot_apic env hhdm k;
     boot_rest env hhdm k
   }"

definition create_thread :: "string \<Rightarrow> u64 \<Rightarrow> kernel \<Rightarrow> kernel" where
  "create_thread name entry k =
     (let (_, sc, m) = task_create (lit name) entry (k_sched k) (mach k) in k\<lparr>k_sched := sc, mach := m\<rparr>)"

definition kmain_round :: "kevent list list \<Rightarrow> kernel \<Rightarrow> kernel option" where
  "kmain_round batches k = do {
     k \<leftarrow> kernel_sleep 2000 batches k;
     k \<leftarrow> kputs (lit ''[init] a='') k;
     k \<leftarrow> kput_dec (thread_a_count k) k;
     k \<leftarrow> kputs (lit '' b='') k;
     k \<leftarrow> kput_dec (thread_b_count k) k;
     kputs [10] k
   }"

primrec kmain_rounds :: "kevent list list list \<Rightarrow> kernel \<Rightarrow> kernel option" where
  "kmain_rounds [] k = Some k"
| "kmain_rounds (batches # rest) k = do { k \<leftarrow> kmain_round batches k; kmain_rounds rest k }"

text \<open>The state after as many rounds of the final loop as \<open>rounds\<close> has elements; \<open>first\<close> are the events
  of the first sleep.\<close>

definition kmain :: "boot_env \<Rightarrow> kevent list list \<Rightarrow> kevent list list list \<Rightarrow> kernel \<Rightarrow> kernel option" where
  "kmain env first rounds k = do {
     k \<leftarrow> kernel_boot env k;
     k \<leftarrow> kputs (lit ''[TEST] Waiting 1 second... '') k;
     k \<leftarrow> kernel_sleep 1000 first k;
     k \<leftarrow> kputs (lit ''done'' @ [10]) k;
     k \<leftarrow> kputs (lit ''[KERNEL] Creating threads...'' @ [10]) k;
     let k = create_thread ''thread-a'' (thread_a_entry env) k;
     let k = create_thread ''thread-b'' (thread_b_entry env) k;
     k \<leftarrow> kputs (lit ''[KERNEL] Threads created, running'' @ [10]) k;
     kmain_rounds rounds k
   }"

section \<open>Interrupt frames\<close>

lemma store_words_outside:
  assumes "outside p (8 * length ws) x" "8 * length ws < 2 ^ 64"
  shows "store_words ws p m x = m x"
  using assms
proof (induction ws arbitrary: p m)
  case (Cons w ws)
  have "outside (p + of_nat 0) 8 x" "outside (p + of_nat 8) (8 * length ws) x"
    by (rule outside_sub [OF Cons.prems(1)]; use Cons.prems(2) in simp)+
  with Cons.IH [of "p + 8" "store64 m p w"] Cons.prems(2) show ?case by (simp add: store64_outside)
qed simp

lemma load_store_words:
  assumes "i < length ws" "8 * length ws < 2 ^ 64"
  shows "load64 (store_words ws p m) (p + of_nat (8 * i)) = ws ! i"
  using assms
proof (induction ws arbitrary: p m i)
  case (Cons w ws)
  show ?case
  proof (cases i)
    case 0
    have "unat (8 :: u64) = 8" "unat (- 8 :: u64) = 2 ^ 64 - 8" by simp_all
    then have "apart (p + 8) (8 * length ws) p 8" using Cons.prems(2) by (simp add: apart_def)
    then have "load64 (store_words ws (p + 8) (store64 m p w)) p = load64 (store64 m p w) p"
      unfolding load64_def using Cons.prems(2)
      by (intro rd_cong store_words_outside) (auto intro: apart_outside)
    with 0 show ?thesis by simp
  next
    case (Suc j)
    have "p + of_nat (8 * i) = p + 8 + of_nat (8 * j)" by (simp add: Suc)
    with Suc Cons.IH [of j "p + 8" "store64 m p w"] Cons.prems show ?thesis by (simp only: store_words.simps) simp
  qed
qed simp

lemma registers_at_words: "frame_words (registers_at m p) = map (\<lambda>i. load64 m (p + of_nat (8 * i))) [0 ..< 22]"
  by (simp add: frame_words_def registers_at_def upt_rec)

lemma frame_words_inj: "frame_words r = frame_words r' \<Longrightarrow> r = r'"
  by (cases r; cases r') (simp add: frame_words_def)

lemma length_frame_words [simp]: "length (frame_words r) = 22"
  by (simp add: frame_words_def)

lemma registers_at_pushed [simp]: "registers_at (store_words (frame_words r) p m) p = r"
  by (rule frame_words_inj)
    (auto simp: registers_at_words list_eq_iff_nth_eq load_store_words simp del: of_nat_mult)

lemma registers_at_cong:
  assumes "\<And>i. i < 176 \<Longrightarrow> m' (p + of_nat i) = m (p + of_nat i)"
  shows "registers_at m' p = registers_at m p"
proof (rule frame_words_inj)
  have "load64 m' (p + of_nat (8 * i)) = load64 m (p + of_nat (8 * i))" if "i < 22" for i
    unfolding load64_def
  proof (rule rd_cong)
    fix j :: nat
    assume "j < 8"
    with that assms [of "8 * i + j"] show "m' (p + of_nat (8 * i) + of_nat j) = m (p + of_nat (8 * i) + of_nat j)"
      by (simp add: add.assoc)
  qed
  then show "frame_words (registers_at m' p) = frame_words (registers_at m p)"
    by (simp add: registers_at_words del: of_nat_mult)
qed

lemma registers_at_apart:
  assumes "apart q 176 p 176"
  shows "registers_at (store_words (frame_words f) q m) p = registers_at m p"
  by (rule registers_at_cong) (use assms in \<open>auto intro!: store_words_outside apart_outside\<close>)

section \<open>Sequences of events\<close>

primrec irq_no :: "kevent \<Rightarrow> u64 option" where
  "irq_no (Irq p frame) = Some (int_no frame)"
| "irq_no Thread_a = None"
| "irq_no Thread_b = None"

definition irqs :: "kevent list \<Rightarrow> u64 list" where
  "irqs es = List.map_filter irq_no es"

fun timer_frames :: "kevent list \<Rightarrow> u64 list" where
  "timer_frames [] = []"
| "timer_frames (Irq p frame # es) = (if int_no frame = 32 then p # timer_frames es else timer_frames es)"
| "timer_frames (e # es) = timer_frames es"

text \<open>What acknowledges interrupt \<open>n\<close>: the slave controller only for its own lines, the master always.\<close>

definition ack :: "u64 \<Rightarrow> hw_event list" where
  "ack n = (if n \<ge> 40 then [Outb 0xA0 0x20] else []) @ [Outb 0x20 0x20]"

definition scan_bytes :: "nat \<Rightarrow> kernel \<Rightarrow> u8 list" where
  "scan_bytes n k = map (\<lambda>i. port_in (mach k) 0x60 (port_rd (mach k) 0x60 + i)) [0 ..< n]"

lemma scan_bytes_0 [simp]: "scan_bytes 0 k = []"
  by (simp add: scan_bytes_def)

lemma scan_bytes_Suc:
  "scan_bytes (Suc n) k
     = port_in (mach k) 0x60 (port_rd (mach k) 0x60)
       # map (\<lambda>i. port_in (mach k) 0x60 (Suc (port_rd (mach k) 0x60) + i)) [0 ..< n]"
  by (simp add: scan_bytes_def upt_conv_Cons map_Suc_upt [symmetric] del: upt_Suc)

lemma irqs_simps [simp]:
  "irqs [] = []" "irqs (Irq p frame # es) = int_no frame # irqs es"
  "irqs (Thread_a # es) = irqs es" "irqs (Thread_b # es) = irqs es"
  by (simp_all add: irqs_def List.map_filter_simps)

lemma handle_irq:
  assumes "k' = handle (Irq p frame) k"
  shows "k_sched k' = (if int_no frame = 32 then snd (scheduler_tick p (k_sched k)) else k_sched k)"
    and "k_timer k' = (if int_no frame = 32 then timer_handler (k_timer k) else k_timer k)"
    and "k_kb k' = (if int_no frame = 33 then kb_scancode (port_in (mach k) 0x60 (port_rd (mach k) 0x60)) (k_kb k)
           else k_kb k)"
    and "port_in (mach k') = port_in (mach k)"
    and "port_rd (mach k') 0x60 = (if int_no frame = 33 then Suc (port_rd (mach k) 0x60) else port_rd (mach k) 0x60)"
    and "hw_log (mach k') = hw_log (mach k) @ ack (int_no frame)"
    and "mem (mach k') = store_words (frame_words frame) p (mem (mach k))"
    and "thread_a_count k' = thread_a_count k" "thread_b_count k' = thread_b_count k"
  unfolding assms
  by (auto simp: irq_handler_def keyboard_handler_def inb_def ack_def split_beta Let_def)

lemma handle_thread [simp]:
  "k_sched (thread_a k) = k_sched k" "k_timer (thread_a k) = k_timer k" "k_kb (thread_a k) = k_kb k"
  "mach (thread_a k) = mach k" "thread_a_count (thread_a k) = thread_a_count k + 1"
  "thread_b_count (thread_a k) = thread_b_count k"
  "k_sched (thread_b k) = k_sched k" "k_timer (thread_b k) = k_timer k" "k_kb (thread_b k) = k_kb k"
  "mach (thread_b k) = mach k" "thread_b_count (thread_b k) = thread_b_count k + 1"
  "thread_a_count (thread_b k) = thread_a_count k"
  by (simp_all add: thread_a_def thread_b_def)

lemma run_sched: "k_sched (fold handle es k) = ticks (timer_frames es) (k_sched k)"
proof (induction es arbitrary: k)
  case (Cons e es)
  then show ?case by (cases e) (simp_all add: handle_irq [OF refl] del: handle.simps(1))
qed (simp add: ticks_def)

lemma run_timer:
  "timer_ticks (k_timer (fold handle es k)) = timer_ticks (k_timer k) + of_nat (length (timer_frames es))
     \<and> timer_freq (k_timer (fold handle es k)) = timer_freq (k_timer k)"
proof (induction es arbitrary: k)
  case (Cons e es)
  then show ?case by (cases e) (simp_all add: handle_irq [OF refl] timer_handler_def del: handle.simps(1))
qed simp

lemma scan_bytes_after:
  "scan_bytes n (handle (Irq p frame) k)
     = (if int_no frame = 33 then tl (scan_bytes (Suc n) k) else scan_bytes n k)"
  "scan_bytes n (thread_a k) = scan_bytes n k" "scan_bytes n (thread_b k) = scan_bytes n k"
  unfolding scan_bytes_Suc by (simp_all add: scan_bytes_def handle_irq [OF refl] del: handle.simps(1))

lemma run_kb:
  "k_kb (fold handle es k) = fold kb_scancode (scan_bytes (length (filter ((=) 33) (irqs es))) k) (k_kb k)"
proof (induction es arbitrary: k)
  case (Cons e es)
  then show ?case
    by (cases e) (simp_all add: handle_irq(3) [OF refl] scan_bytes_after scan_bytes_Suc del: handle.simps(1))
qed simp

lemma run_log: "hw_log (mach (fold handle es k)) = hw_log (mach k) @ concat (map ack (irqs es))"
proof (induction es arbitrary: k)
  case (Cons e es)
  then show ?case by (cases e) (simp_all add: handle_irq [OF refl] del: handle.simps(1))
qed simp

lemma run_threads:
  "thread_a_count (fold handle es k) = thread_a_count k + of_nat (length (filter ((=) Thread_a) es))
     \<and> thread_b_count (fold handle es k) = thread_b_count k + of_nat (length (filter ((=) Thread_b) es))"
proof (induction es arbitrary: k)
  case (Cons e es)
  then show ?case by (cases e) (simp_all add: handle_irq [OF refl] del: handle.simps(1))
qed simp

lemma run_registers:
  assumes "\<forall>q g. Irq q g \<in> set es \<longrightarrow> apart q 176 p 176"
  shows "registers_at (mem (mach (fold handle es k))) p = registers_at (mem (mach k)) p"
  using assms
proof (induction es arbitrary: k)
  case (Cons e es)
  have "registers_at (mem (mach (handle e k))) p = registers_at (mem (mach k)) p"
    using Cons.prems by (cases e) (simp_all add: handle_irq(7) [OF refl] registers_at_apart del: handle.simps(1))
  moreover have "\<forall>q g. Irq q g \<in> set es \<longrightarrow> apart q 176 p 176" using Cons.prems by simp
  ultimately show ?case using Cons.IH by simp
qed simp

section \<open>Properties of interrupts\<close>

text \<open>C11: whatever interrupts arrive and however the threads run in between, the kernel as a whole does
  what its components do: the scheduler sees exactly the timer interrupts, with their frames, in order;
  the tick counter counts them; the keyboard driver decodes the bytes its interrupts read, one each, in
  order; the threads' counters count their rounds; and every interrupt is acknowledged once, at the
  slave controller first if it is one of its lines, with no other port written.\<close>

theorem kernel_run_refines:
  "k_sched (fold handle es k) = ticks (timer_frames es) (k_sched k)
   \<and> timer_ticks (k_timer (fold handle es k)) = timer_ticks (k_timer k) + of_nat (length (timer_frames es))
   \<and> k_kb (fold handle es k) = fold kb_scancode (scan_bytes (length (filter ((=) 33) (irqs es))) k) (k_kb k)
   \<and> thread_a_count (fold handle es k) = thread_a_count k + of_nat (length (filter ((=) Thread_a) es))
   \<and> thread_b_count (fold handle es k) = thread_b_count k + of_nat (length (filter ((=) Thread_b) es))
   \<and> hw_log (mach (fold handle es k)) = hw_log (mach k) @ concat (map ack (irqs es))"
  using run_sched run_timer run_kb run_threads run_log by blast

lemma timer_frames_Cons:
  "timer_frames (e # es) = (case e of Irq p frame \<Rightarrow> if int_no frame = 32 then [p] else [] | _ \<Rightarrow> []) @ timer_frames es"
  by (cases e) simp_all

lemma take_timer_frames: "\<exists>i \<le> length es. take j (timer_frames es) = timer_frames (take i es)"
proof (induction es arbitrary: j)
  case (Cons e es)
  show ?case
  proof (cases "j = 0")
    case True
    then show ?thesis by (intro exI [of _ 0]) simp
  next
    case False
    let ?n = "length (case e of Irq p frame \<Rightarrow> if int_no frame = 32 then [p] else [] | _ \<Rightarrow> [])"
    from Cons.IH [of "j - ?n"] obtain i where "i \<le> length es"
      "take (j - ?n) (timer_frames es) = timer_frames (take i es)" by blast
    with False show ?thesis
      by (intro exI [of _ "Suc i"]) (auto simp: timer_frames_Cons take_append split: kevent.splits)
  qed
qed simp

text \<open>C4: a context switch is transparent to the interrupted task. When the timer interrupts task \<open>c\<close> with
  the registers \<open>f\<close> pushed at \<open>p\<close> and another task is chosen, then after any events during which \<open>c\<close> does not
  run, and whose frames lie elsewhere, the timer interrupt that makes \<open>c\<close> current again returns \<open>p\<close>, and
  the registers to be popped there are exactly \<open>f\<close>.\<close>

theorem context_switch_transparent:
  fixes k :: kernel and es :: "kevent list" and p :: u64 and f :: registers_t
  defines "k1 \<equiv> \<lambda>i. fold handle (take i es) (handle (Irq p f) k)"
  assumes "sched_inv (k_sched k)" "current_task (k_sched k) = c" "int_no f = 32"
    and "\<forall>i \<le> length es. current_task (k_sched (k1 i)) \<noteq> c"
    and "\<forall>q g. Irq q g \<in> set (es @ [Irq p' f']) \<longrightarrow> apart q 176 p 176" "int_no f' = 32"
    and "irq_handler p' (k1 (length es)\<lparr>mach := (mach (k1 (length es)))
           \<lparr>mem := store_words (frame_words f') p' (mem (mach (k1 (length es))))\<rparr>\<rparr>) = (r, k2)"
    and "current_task (k_sched k2) = c"
  shows "r = p \<and> registers_at (mem (mach k2)) r = f"
proof -
  let ?k = "handle (Irq p f) k" and ?rs = "timer_frames es" and ?k1 = "fold handle es (handle (Irq p f) k)"
  have sched: "k_sched (k1 i) = ticks (p # timer_frames (take i es)) (k_sched k)" for i
    using run_sched [of "Irq p f # take i es" k] assms(4) unfolding k1_def by (simp del: handle.simps(1))
  have k1: "k1 (length es) = ?k1" by (simp add: k1_def)
  have k2: "r = fst (scheduler_tick p' (k_sched ?k1))" "k_sched k2 = snd (scheduler_tick p' (k_sched ?k1))"
    using assms(7,8) unfolding k1 by (auto simp: irq_handler_def split_beta Let_def)
  have "current_task (ticks (p # take j ?rs) (k_sched k)) \<noteq> c" for j
    using take_timer_frames [of es j] assms(5) sched by auto
  moreover have s1: "k_sched ?k1 = ticks (p # ?rs) (k_sched k)" using sched [of "length es"] by (simp add: k1)
  ultimately have "r = p"
    using resume_rsp [OF assms(2) assms(3) [symmetric], of ?rs p p'] assms(9) k2 by simp
  moreover have "handle (Irq p' f') ?k1 = k2" using assms(8) unfolding k1 by simp
  then have "registers_at (mem (mach k2)) p = registers_at (mem (mach ?k)) p"
    using run_registers [OF assms(6), of ?k] by (simp del: handle.simps(1))
  moreover have "registers_at (mem (mach ?k)) p = f" by (simp add: handle_irq(7) [OF refl] del: handle.simps(1))
  ultimately show ?thesis by simp
qed

section \<open>Exceptions are reported\<close>

text \<open>\<open>outputs f out\<close>: on a live device \<open>f\<close> returns and does nothing but send \<open>out\<close>.\<close>

definition outputs :: "('a machine_scheme \<Rightarrow> 'a machine_scheme option) \<Rightarrow> u8 list \<Rightarrow> bool" where
  "outputs f out \<longleftrightarrow> (\<forall>s. serial_live s \<longrightarrow> (\<exists>s'. f s = Some s' \<and> sent out s s'))"

lemma outputs_puts: "no_nul str \<Longrightarrow> outputs (serial_puts str) (crlf_text str)"
  by (simp add: outputs_def serial_puts_sent)

lemma outputs_hex: "outputs (serial_put_hex v) (48 # 120 # hex_digits v)"
  unfolding outputs_def using serial_put_hex_sent by blast

lemma outputs_dec: "outputs (serial_put_dec v) (dec_text v)"
  unfolding outputs_def using serial_put_dec_sent by blast

lemma outputs_bind:
  assumes "outputs f a" "outputs g b"
  shows "outputs (\<lambda>s. Option.bind (f s) g) (a @ b)"
  unfolding outputs_def
proof (intro allI impI)
  fix s :: "'a machine_scheme"
  assume live: "serial_live s"
  with assms(1) obtain s1 where s1: "f s = Some s1" "sent a s s1" by (auto simp: outputs_def)
  with assms(2) sent_live [OF s1(2) live] obtain s2 where "g s1 = Some s2" "sent b s1 s2"
    by (auto simp: outputs_def)
  with s1 sent_trans show "\<exists>s'. Option.bind (f s) g = Some s' \<and> sent (a @ b) s s'" by fastforce
qed

definition exception_text :: "registers_t \<Rightarrow> u8 list" where
  "exception_text r =
     (if int_no r < 22 then
        crlf_text (10 # lit ''=== KERNEL PANIC ==='' @ 10 # lit ''Exception: '' @ lit (exception_names ! unat (int_no r))
          @ 10 # lit ''Error: '') @ 48 # 120 # hex_digits (error_code r)
        @ crlf_text (10 # lit ''RIP: '') @ 48 # 120 # hex_digits (rip r) @ crlf_text [10]
      else crlf_text (10 # lit ''Unknown interrupt: '') @ dec_text (int_no r) @ crlf_text [10])"

lemma exception_names_text: "n < 22 \<Longrightarrow> no_nul (lit (exception_names ! n))"
proof -
  have "list_all (\<lambda>name. no_nul (lit name)) exception_names" "length exception_names = 22"
    by (simp_all add: exception_names_def no_nul_def lit_def)
  then show "n < 22 \<Longrightarrow> ?thesis" by (simp add: list_all_length)
qed

lemma isr_report_outputs: "outputs (isr_report r) (exception_text r)"
proof -
  have n: "no_nul (10 # lit ''=== KERNEL PANIC ==='' @ 10 # lit ''Exception: '')" "no_nul (10 # lit ''Error: '')"
    "no_nul (10 # lit ''RIP: '')" "no_nul [10]" "no_nul (10 # lit ''Unknown interrupt: '')"
    by (simp_all add: no_nul_def lit_def)
  show ?thesis
  proof (cases "int_no r < 22")
    case True
    then have "unat (int_no r) < 22" by (simp add: word_less_nat_alt)
    note name = exception_names_text [OF this]
    have "outputs (isr_report r) (crlf_text (10 # lit ''=== KERNEL PANIC ==='' @ 10 # lit ''Exception: '')
        @ crlf_text (lit (exception_names ! unat (int_no r))) @ crlf_text (10 # lit ''Error: '')
        @ (48 # 120 # hex_digits (error_code r)) @ crlf_text (10 # lit ''RIP: '') @ (48 # 120 # hex_digits (rip r))
        @ crlf_text [10])"
      unfolding isr_report_def if_P [OF True] by (intro outputs_bind outputs_puts outputs_hex n name)
    with True show ?thesis by (simp add: exception_text_def)
  next
    case False
    have "outputs (isr_report r) (crlf_text (10 # lit ''Unknown interrupt: '') @ dec_text (int_no r) @ crlf_text [10])"
      unfolding isr_report_def if_not_P [OF False] by (intro outputs_bind outputs_puts outputs_dec n)
    with False show ?thesis by (simp add: exception_text_def)
  qed
qed

text \<open>C39: an exception is reported and stops the machine. On a live device \<open>isr_handler\<close> prints the name of
  the exception with its error code and the address of the faulting instruction, or the number of an
  interrupt that has no name, as exactly these bytes; then it does nothing but halt with interrupts
  disabled, for as many rounds as are looked at.\<close>

theorem isr_handler_reports:
  fixes s :: "'a machine_scheme"
  assumes "serial_live s"
  shows "\<exists>s'. isr_handler p rounds s = Some s' \<and> mem s' = mem s \<and> (0 < rounds \<longrightarrow> \<not> if_flag s')
     \<and> hw_log s' = hw_log s @ map (Outb SERIAL_COM1) (exception_text (registers_at (mem s) p))
         @ concat (replicate rounds [Cli, Hlt])"
proof -
  let ?r = "registers_at (mem s) p"
  obtain s1 where "isr_report ?r s = Some s1" "sent (exception_text ?r) s s1"
    using isr_report_outputs [of ?r] assms unfolding outputs_def by blast
  with halt_rounds [of rounds s1] show ?thesis by (auto simp: isr_handler_def sent_def)
qed

section \<open>What the boot steps leave alone\<close>

text \<open>A step is quiet if it sends nothing over the serial line and leaves the interrupt flag.\<close>

abbreviation wire :: "'a machine_scheme \<Rightarrow> u8 list" where
  "wire s \<equiv> port_writes SERIAL_COM1 (hw_log s)"

definition quietly :: "'a machine_scheme \<Rightarrow> 'a machine_scheme \<Rightarrow> bool" where
  "quietly s s' \<longleftrightarrow> port_in s' = port_in s \<and> if_flag s' = if_flag s \<and> wire s' = wire s"

lemma quietly_refl: "quietly s s"
  by (simp add: quietly_def)

lemma quietly_trans: "quietly s t \<Longrightarrow> quietly t u \<Longrightarrow> quietly s u"
  by (simp add: quietly_def)

lemma quietly_mem: "quietly s (s\<lparr>mem := m\<rparr>)"
  by (simp add: quietly_def)

lemma quietly_ensure_table: "quietly s (snd (ensure_table h e fl s))"
  by (auto simp: ensure_table_def pmm_alloc_def quietly_def Let_def split: prod.splits if_splits)

lemma quietly_vmm_map_page: "quietly s (vmm_map_page h v p fl s)"
proof -
  obtain a s1 where 1: "ensure_table h (cell h (page_down (get_cr3 s)) (PML4_I v)) 3 s = (a, s1)" by fastforce
  obtain b s2 where 2: "ensure_table h (cell h a (PDPT_I v)) 3 s1 = (b, s2)" by fastforce
  obtain c s3 where 3: "ensure_table h (cell h b (PD_I v)) 3 s2 = (c, s3)" by fastforce
  have q: "quietly s s1" "quietly s1 s2" "quietly s2 s3"
    using quietly_ensure_table [of s] quietly_ensure_table [of s1] quietly_ensure_table [of s2]
    by (metis 1 2 3 snd_conv)+
  moreover have "quietly s3 (do_invlpg v (s3\<lparr>mem := m\<rparr>))" for m by (simp add: quietly_def do_invlpg_def)
  ultimately have "quietly s s1" "quietly s s2" "quietly s s3" "\<And>m. quietly s (do_invlpg v (s3\<lparr>mem := m\<rparr>))"
    using quietly_trans by metis+
  then show ?thesis by (simp only: vmm_map_page_def Let_def 1 2 3 prod.case split: if_split) simp
qed

lemma quietly_fold: "(\<And>i s. quietly s (f i s)) \<Longrightarrow> quietly s (fold f is s)"
  by (induction "is" arbitrary: s) (auto intro: quietly_refl quietly_trans)

lemma quietly_heap_map: "quietly s (snd (heap_map_pages h i n s))"
proof (induction n arbitrary: i s)
  case (Suc n)
  obtain p s1 where p: "pmm_alloc s = (p, s1)" by fastforce
  then have "quietly s s1" by (auto simp: pmm_alloc_def quietly_def Let_def split: if_splits)
  with p show ?case
    by (auto intro!: quietly_trans [OF _ quietly_trans [OF quietly_vmm_map_page Suc.IH]])
qed (simp add: quietly_refl)

lemma quietly_heap_init: "quietly s (snd (heap_init hh h s))"
  using quietly_heap_map [of s hh 0 HEAP_PAGES]
  by (auto simp: heap_init_def Let_def quietly_def split: prod.splits)

lemma quietly_task_create: "quietly s (snd (snd (task_create name entry sc s)))"
  by (auto simp: task_create_def pmm_alloc_def quietly_def Let_def split: prod.splits if_splits)

lemma fb_init_returns:
  assumes "unat hgt * unat pitch + 4096 \<le> 2 ^ 64"
  shows "\<exists>s'. fb_init h p w hgt pitch bpp f s =
      Some (f\<lparr>fb_ptr := fb_virt, fb_width := w, fb_height := hgt, fb_pitch := pitch, fb_bpp := bpp\<rparr>, s')
    \<and> quietly s s'"
proof -
  have u: "unat (hgt * pitch) = unat hgt * unat pitch" using assms by (simp add: unat_word_ariths)
  define n where "n = (unat (hgt * pitch) + 4095) div 4096"
  have "n * 4096 \<le> unat (hgt * pitch) + 4095" unfolding n_def by simp
  then have "4096 * n < 2 ^ 64" using assms u by simp
  moreover have "unat (hgt * pitch) \<le> 4096 * n" unfolding n_def by linarith
  ultimately have "fb_map_loop h p (hgt * pitch) 0 s = Some (fold (\<lambda>i s. vmm_map_page h (fb_virt + (0 + of_nat i * 0x1000))
      (p + (0 + of_nat i * 0x1000)) 0x23 s) [0 ..< (unat (hgt * pitch) - unat (0 :: u64) + 4095) div 4096] s)"
    by (intro fb_map_loop_returns [of 0 n]) simp_all
  then show ?thesis by (auto simp: fb_init_def intro!: quietly_fold quietly_vmm_map_page)
qed

lemma kb_drain_returns:
  assumes "port_in s 0x64 (port_rd s 0x64 + d) AND 1 = 0"
  shows "\<exists>f. kb_drain s = Some (s\<lparr>port_rd := f\<rparr>)"
  using assms
proof (induction d arbitrary: s)
  case 0
  then show ?case by (subst kb_drain.simps) (auto simp: inb_def)
next
  case (Suc d)
  let ?s = "s\<lparr>port_rd := (port_rd s)(0x64 := Suc (port_rd s 0x64), 0x60 := Suc (port_rd s 0x60))\<rparr>"
  from Suc.prems have "port_in ?s 0x64 (port_rd ?s 0x64 + d) AND 1 = 0" by simp
  from Suc.IH [OF this] show ?case
    by (cases "port_in s 0x64 (port_rd s 0x64) AND 1 = 0") (subst kb_drain.simps, auto simp: inb_def fun_upd_twist)+
qed

text \<open>\<open>apic_init\<close> returns on a live device whatever the page tables look like; what it sends is nothing or one of
  its five messages.\<close>

definition apic_messages :: "u8 list set" where
  "apic_messages = insert [] ((\<lambda>msg. crlf_text (lit msg @ [10])) `
     {''[APIC] failed: no pool for PDPT'', ''[APIC] failed: no pool for PD'', ''[APIC] failed: PDPT 1GB page conflict'',
      ''[APIC] failed: no pool for PT'', ''[APIC] failed: no pool to split 2MB''})"

definition apic_ran :: "'a machine_scheme \<Rightarrow> (apic_state \<times> 'a machine_scheme) option \<Rightarrow> bool" where
  "apic_ran s r \<longleftrightarrow> (\<exists>a m f l msg. r = Some (a, s\<lparr>mem := m, port_rd := f, hw_log := l\<rparr>)
     \<and> msg \<in> apic_messages \<and> port_writes SERIAL_COM1 l = wire s @ msg)"

lemma apic_ranI:
  "msg \<in> apic_messages \<Longrightarrow> port_writes SERIAL_COM1 l = wire s @ msg
     \<Longrightarrow> s' = s\<lparr>mem := m, port_rd := f, hw_log := l\<rparr> \<Longrightarrow> apic_ran s (Some (a, s'))"
  unfolding apic_ran_def by blast

lemma pool_table_form: "\<exists>ok a' m. pool_table h e a s = (ok, a', s\<lparr>mem := m\<rparr>)"
proof -
  have "s = s\<lparr>mem := mem s\<rparr>" by simp
  then show ?thesis unfolding pool_table_def Let_def split_beta by (metis (full_types))
qed

lemma split_page_form: "\<exists>ok a' m. split_page h e a s = (ok, a', s\<lparr>mem := m\<rparr>)"
proof -
  have "s = s\<lparr>mem := mem s\<rparr>" by simp
  then show ?thesis unfolding split_page_def Let_def split_beta by (metis (full_types))
qed

lemma port_writes_sent: "port_writes SERIAL_COM1 (map (Outb SERIAL_COM1) out) = out"
  by (induction out) simp_all

lemma apic_fail_ran:
  assumes "serial_live s" "crlf_text (lit msg @ [10]) \<in> apic_messages" "no_nul (lit msg)"
  shows "apic_ran s (apic_fail msg a (s\<lparr>mem := m\<rparr>))"
proof -
  have "serial_live (s\<lparr>mem := m\<rparr>)" "no_nul (lit msg @ [10])" using assms(1,3) by (simp_all add: serial_live_def no_nul_def)
  from serial_puts_sent [OF this] obtain s' where
    s': "serial_puts (lit msg @ [10]) (s\<lparr>mem := m\<rparr>) = Some s'" "sent (crlf_text (lit msg @ [10])) (s\<lparr>mem := m\<rparr>) s'" by blast
  then obtain f where "s' = s\<lparr>mem := m, port_rd := f,
      hw_log := hw_log s @ map (Outb SERIAL_COM1) (crlf_text (lit msg @ [10]))\<rparr>"
    by (auto simp: sent_def)
  then have "apic_ran s (Some (a, s'))"
    by (rule apic_ranI [OF assms(2), rotated]) (simp only: port_writes_append port_writes_sent)
  with s'(1) show ?thesis by (simp add: apic_fail_def)
qed

lemma apic_init_returns:
  fixes s :: "'a machine_scheme"
  assumes live: "serial_live s"
  shows "apic_ran s (apic_init eax edx h a s)"
proof -
  have nn: "no_nul (lit ''[APIC] failed: no pool for PDPT'')" "no_nul (lit ''[APIC] failed: no pool for PD'')"
    "no_nul (lit ''[APIC] failed: PDPT 1GB page conflict'')" "no_nul (lit ''[APIC] failed: no pool for PT'')"
    "no_nul (lit ''[APIC] failed: no pool to split 2MB'')"
    by (simp_all add: no_nul_def lit_def)
  have fail: "apic_ran s (apic_fail ''[APIC] failed: no pool for PDPT'' a (s\<lparr>mem := m\<rparr>))"
    "apic_ran s (apic_fail ''[APIC] failed: no pool for PD'' a (s\<lparr>mem := m\<rparr>))"
    "apic_ran s (apic_fail ''[APIC] failed: PDPT 1GB page conflict'' a (s\<lparr>mem := m\<rparr>))"
    "apic_ran s (apic_fail ''[APIC] failed: no pool for PT'' a (s\<lparr>mem := m\<rparr>))"
    "apic_ran s (apic_fail ''[APIC] failed: no pool to split 2MB'' a (s\<lparr>mem := m\<rparr>))" for a m
    by (intro apic_fail_ran live nn, simp add: apic_messages_def)+
  have ok: "apic_ran s (Some (a, s\<lparr>hw_log := hw_log s @ [Load_cr3 c], mem := m\<rparr>))" for a m c
    by (rule apic_ranI [where msg = "[]" and l = "hw_log s @ [Load_cr3 c]" and f = "port_rd s" and m = m]) (simp_all add: apic_messages_def)
  have id: "(True, a, s) = (True, a, s\<lparr>mem := mem s\<rparr>)" for a and s :: "'a machine_scheme" by simp
  define p4 where "p4 = h + page_down (cr3 s) + 8 * (drop_bit 39 apic_virt AND 0x1FF)"
  obtain ok1 a1 m1 where 1: "(if load64 (mem s) p4 AND 1 = 0 then pool_table h p4 a s else (True, a, s))
      = (ok1, a1, s\<lparr>mem := m1\<rparr>)"
    using pool_table_form id by metis
  define p3 where "p3 = h + phys_mask (load64 m1 p4) + 8 * (drop_bit 30 apic_virt AND 0x1FF)"
  obtain ok2 a2 m2 where 2: "(if load64 m1 p3 AND 1 = 0 then pool_table h p3 a1 (s\<lparr>mem := m1\<rparr>) else (True, a1, s\<lparr>mem := m1\<rparr>))
      = (ok2, a2, s\<lparr>mem := m2\<rparr>)"
    using pool_table_form [of h p3 a1 "s\<lparr>mem := m1\<rparr>"] by (cases "load64 m1 p3 AND 1 = 0") auto
  define p2 where "p2 = h + phys_mask (load64 m2 p3) + 8 * (drop_bit 21 apic_virt AND 0x1FF)"
  obtain ok3 a3 m3 where 3: "(if load64 m2 p2 AND 1 = 0 then pool_table h p2 a2 (s\<lparr>mem := m2\<rparr>)
      else if load64 m2 p2 AND 0x80 \<noteq> 0 then split_page h p2 a2 (s\<lparr>mem := m2\<rparr>) else (True, a2, s\<lparr>mem := m2\<rparr>))
      = (ok3, a3, s\<lparr>mem := m3\<rparr>)"
    using pool_table_form [of h p2 a2 "s\<lparr>mem := m2\<rparr>"] split_page_form [of h p2 a2 "s\<lparr>mem := m2\<rparr>"]
    by (cases "load64 m2 p2 AND 1 = 0"; cases "load64 m2 p2 AND 0x80 = 0") auto
  have m: "mem (s\<lparr>mem := m\<rparr>) = m" for m by simp
  show ?thesis
    unfolding apic_init_def Let_def p4_def [symmetric] 1 prod.case m p3_def [symmetric] 2 p2_def [symmetric] 3
    by (simp add: fail ok flush_tlb_def hw_emit_def)
qed

section \<open>Booting\<close>

text \<open>The transmitter and the keyboard controller keep becoming ready.\<close>

definition devices_live :: "'a machine_scheme \<Rightarrow> bool" where
  "devices_live s \<longleftrightarrow> serial_live s \<and> (\<forall>n. \<exists>i \<ge> n. port_in s 0x64 i AND 1 = 0)"

text \<open>\<open>boots P f out Q\<close>: from a state with \<open>P\<close> and live devices, \<open>f\<close> returns a state with \<open>Q\<close>, and \<open>out\<close> goes over
  the serial line.\<close>

definition boots :: "(kernel \<Rightarrow> bool) \<Rightarrow> (kernel \<Rightarrow> kernel option) \<Rightarrow> u8 list \<Rightarrow> (kernel \<Rightarrow> bool) \<Rightarrow> bool" where
  "boots P f out Q \<longleftrightarrow> (\<forall>k. devices_live (mach k) \<longrightarrow> P k \<longrightarrow>
     (\<exists>k'. f k = Some k' \<and> devices_live (mach k') \<and> wire (mach k') = wire (mach k) @ out \<and> Q k'))"

definition stable :: "(kernel \<Rightarrow> bool) \<Rightarrow> bool" where
  "stable P \<longleftrightarrow> (\<forall>k f l. P (k\<lparr>mach := (mach k)\<lparr>port_rd := f, hw_log := l\<rparr>\<rparr>) = P k)"

lemma boots_bind: "boots P f a Q \<Longrightarrow> boots Q g b R \<Longrightarrow> boots P (\<lambda>k. Option.bind (f k) g) (a @ b) R"
  unfolding boots_def by fastforce

lemma boots_sent:
  assumes "\<And>k. serial_live (mach k) \<Longrightarrow> P k \<Longrightarrow> \<exists>m. f k = Some (k\<lparr>mach := m\<rparr>) \<and> sent out (mach k) m" "stable P"
  shows "boots P f out P"
  unfolding boots_def
proof (intro allI impI)
  fix k
  assume k: "devices_live (mach k)" "P k"
  then obtain m where m: "f k = Some (k\<lparr>mach := m\<rparr>)" "sent out (mach k) m"
    using assms(1) by (auto simp: devices_live_def)
  then obtain g where g: "m = (mach k)\<lparr>port_rd := g, hw_log := hw_log (mach k) @ map (Outb SERIAL_COM1) out\<rparr>"
    by (auto simp: sent_def)
  have "P (k\<lparr>mach := m\<rparr>)" using assms(2) k(2) unfolding g stable_def by blast
  moreover have "devices_live m" using k(1) by (simp add: g devices_live_def serial_live_def)
  ultimately show "\<exists>k'. f k = Some k' \<and> devices_live (mach k') \<and> wire (mach k') = wire (mach k) @ out \<and> P k'"
    using m(1) by (intro exI [of _ "k\<lparr>mach := m\<rparr>"]) (simp add: g port_writes_sent)
qed

lemma boots_kputs: "no_nul str \<Longrightarrow> stable P \<Longrightarrow> boots P (kputs str) (crlf_text str) P"
  by (rule boots_sent) (use serial_puts_sent in \<open>fastforce simp: kputs_def\<close>)

lemma boots_dec:
  "stable P \<Longrightarrow> (\<And>k. P k \<Longrightarrow> v k = c) \<Longrightarrow> boots P (\<lambda>k. kput_dec (v k) k) (dec_text c) P"
  by (rule boots_sent) (use serial_put_dec_sent in \<open>fastforce simp: kput_dec_def\<close>)

lemma boots_quiet:
  assumes "\<And>k. devices_live (mach k) \<Longrightarrow> P k \<Longrightarrow> \<exists>k'. f k = Some k' \<and> port_in (mach k') = port_in (mach k)
    \<and> wire (mach k') = wire (mach k) \<and> Q k'"
  shows "boots P f [] Q"
  unfolding boots_def
proof (intro allI impI)
  fix k
  assume k: "devices_live (mach k)" "P k"
  with assms obtain k' where "f k = Some k'" "port_in (mach k') = port_in (mach k)" "wire (mach k') = wire (mach k)" "Q k'"
    by blast
  with k show "\<exists>k'. f k = Some k' \<and> devices_live (mach k') \<and> wire (mach k') = wire (mach k) @ [] \<and> Q k'"
    by (auto simp: devices_live_def serial_live_def)
qed

definition step_text :: "string \<Rightarrow> u8 list" where
  "step_text name = crlf_text (lit (''[BOOT] Initializing '' @ name @ ''... '') @ lit ''OK'' @ [10])"

lemma boots_step:
  assumes "boots P step [] Q" "stable P" "stable Q" "no_nul (lit name)"
  shows "boots P (boot_step name step) (step_text name) Q"
proof -
  have n: "no_nul (lit (''[BOOT] Initializing '' @ name @ ''... ''))" "no_nul (lit ''OK'' @ [10])"
    using assms(4) by (simp_all add: no_nul_def lit_def)
  have "boots P (boot_step name step)
      (crlf_text (lit (''[BOOT] Initializing '' @ name @ ''... '')) @ [] @ crlf_text (lit ''OK'' @ [10])) Q"
    unfolding boot_step_def
    by (rule boots_bind [OF boots_kputs [OF n(1) assms(2)] boots_bind [OF assms(1) boots_kputs [OF n(2) assms(3)]]])
  then show ?thesis by (simp add: step_text_def)
qed

text \<open>What holds between the steps.\<close>

definition blank :: "kernel \<Rightarrow> bool" where
  "blank k \<longleftrightarrow> length (tasks (k_sched k)) = 64 \<and> length (kb_buffer (k_kb k)) = 256
     \<and> free_count (mach k) = 0 \<and> free_list_head (mach k) = 0"

definition timer_up :: "kernel \<Rightarrow> bool" where
  "timer_up k \<longleftrightarrow> if_flag (mach k) \<and> timer_freq (k_timer k) = 100 \<and> timer_ticks (k_timer k) = 0"

definition keyboard_up :: "kernel \<Rightarrow> bool" where
  "keyboard_up k \<longleftrightarrow> timer_up k \<and> kb_inv (k_kb k) \<and> kb_head (k_kb k) = kb_tail (k_kb k)"

definition memory_up :: "u64 \<Rightarrow> kernel \<Rightarrow> bool" where
  "memory_up n k \<longleftrightarrow> keyboard_up k \<and> free_count (mach k) = n \<and> length (tasks (k_sched k)) = 64"

definition drivers_up :: "kernel \<Rightarrow> bool" where
  "drivers_up k \<longleftrightarrow> keyboard_up k \<and> length (tasks (k_sched k)) = 64"

definition kernel_up :: "kernel \<Rightarrow> bool" where
  "kernel_up k \<longleftrightarrow> keyboard_up k \<and> sched_inv (k_sched k) \<and> current_task (k_sched k) = 0"

lemmas up_defs = blank_def timer_up_def keyboard_up_def memory_up_def drivers_up_def kernel_up_def

lemma stable_up:
  "stable blank" "stable (\<lambda>k. blank k \<and> if_flag (mach k))" "stable (\<lambda>k. blank k \<and> timer_up k)"
  "stable (\<lambda>k. blank k \<and> keyboard_up k)" "stable (memory_up n)" "stable drivers_up" "stable kernel_up"
  by (simp_all add: stable_def up_defs)

lemma pmm_io [simp]:
  "free_count (hw_emit e m) = free_count m" "free_list_head (hw_emit e m) = free_list_head m"
  "free_count (outb p v m) = free_count m" "free_list_head (outb p v m) = free_list_head m"
  "free_count (pic_remap m) = free_count m" "free_list_head (pic_remap m) = free_list_head m"
  by (simp_all add: hw_emit_def outb_def pic_remap_def io_wait_def Let_def)

lemma boots_gdt:
  "boots blank (\<lambda>k. let (g, m) = gdt_init a (k_gdt k) (mach k) in Some (k\<lparr>k_gdt := g, mach := m\<rparr>)) [] blank"
  by (rule boots_quiet) (simp add: gdt_init_def gdt_flush_def blank_def Let_def)

lemma pic_remap_quiet: "quietly s (pic_remap s)"
  by (simp add: quietly_def pic_remap_def io_wait_def SERIAL_COM1_def Let_def)

lemma boots_idt:
  "boots blank (\<lambda>k. let (d, m) = idt_init isr irq a (k_idt k) (mach k) in Some (k\<lparr>k_idt := d, mach := m\<rparr>)) []
     (\<lambda>k. blank k \<and> if_flag (mach k))"
  using pic_remap_quiet
  by (intro boots_quiet) (auto simp: idt_init_def sti_def blank_def quietly_def Let_def)

lemma boots_timer:
  "boots (\<lambda>k. blank k \<and> if_flag (mach k))
     (\<lambda>k. map_option (\<lambda>(t, m). k\<lparr>k_timer := t, mach := m\<rparr>) (timer_init 100 (k_timer k) (mach k))) []
     (\<lambda>k. blank k \<and> timer_up k)"
  by (rule boots_quiet) (simp add: timer_init_def up_defs SERIAL_COM1_def Let_def)

lemma boots_keyboard:
  "boots (\<lambda>k. blank k \<and> timer_up k)
     (\<lambda>k. map_option (\<lambda>(b, m). k\<lparr>k_kb := b, mach := m\<rparr>) (keyboard_init (k_kb k) (mach k))) []
     (\<lambda>k. blank k \<and> keyboard_up k)"
proof (rule boots_quiet)
  fix k
  assume k: "devices_live (mach k)" "blank k \<and> timer_up k"
  then obtain i where "port_rd (mach k) 0x64 \<le> i" "port_in (mach k) 0x64 i AND 1 = 0" by (auto simp: devices_live_def)
  then obtain d where "port_in (mach k) 0x64 (port_rd (mach k) 0x64 + d) AND 1 = 0" by (metis le_Suc_ex)
  from kb_drain_returns [OF this] k(2) show
    "\<exists>k'. map_option (\<lambda>(b, m). k\<lparr>k_kb := b, mach := m\<rparr>) (keyboard_init (k_kb k) (mach k)) = Some k'
      \<and> port_in (mach k') = port_in (mach k) \<and> wire (mach k') = wire (mach k) \<and> blank k' \<and> keyboard_up k'"
    by (auto simp: keyboard_init_def up_defs kb_inv_def)
qed

text \<open>The answers of the boot loader that the boot sequence relies on: the direct map, a memory map that keeps
  the protocol's promises, and framebuffers that fit into the address space.\<close>

definition env_ok :: "boot_env \<Rightarrow> bool" where
  "env_ok env \<longleftrightarrow> hhdm_response env \<noteq> None
     \<and> (case memmap_response env of None \<Rightarrow> True
        | Some r \<Rightarrow> memmap_ok (kernel_start env) (kernel_end env) (mr_entries r))
     \<and> (case fb_response env of None \<Rightarrow> True
        | Some r \<Rightarrow> framebuffer_count r = 0 \<or> unat (lf_height (framebuffers r ! 0)) * unat (lf_pitch (framebuffers r ! 0)) + 4096 \<le> 2 ^ 64)"

definition usable_count :: "boot_env \<Rightarrow> u64" where
  "usable_count env =
     (case memmap_response env of None \<Rightarrow> 0 | Some r \<Rightarrow> of_nat (length (usable_pages (mr_entries r))))"

lemma pmm_init_boot:
  assumes "case mmr of None \<Rightarrow> True | Some es \<Rightarrow> memmap_ok ks ke es" "free_count s = 0" "free_list_head s = 0"
  shows "\<exists>s'. pmm_init ks ke mmr h s = Some s' \<and> quietly s s'
     \<and> free_count s' = (case mmr of None \<Rightarrow> 0 | Some es \<Rightarrow> of_nat (length (usable_pages es)))"
proof (cases mmr)
  case None
  then show ?thesis using assms by (simp add: pmm_init_def quietly_def)
next
  case (Some es)
  let ?s = "s\<lparr>pmm_hhdm := h\<rparr>" and ?ps = "usable_pages es"
  let ?s' = "fold (pmm_push h) ?ps ?s"
  have m: "memmap_ok ks ke es" using assms(1) Some by simp
  have "pmm_init ks ke mmr h s = Some ?s'" using m by (simp add: pmm_init_def pmm_add_entries_eq Some)
  moreover have "quietly ?s ?s'" by (rule quietly_fold) (simp add: pmm_push_def quietly_def)
  moreover have "free_count (fold (pmm_push h) ps s) = free_count s + of_nat (length ps)" for ps and s
    by (induction ps arbitrary: s) (simp_all add: pmm_push_def)
  ultimately show ?thesis using assms(2) Some by (simp add: quietly_def)
qed

lemma boots_pmm:
  assumes "env_ok env"
  shows "boots (\<lambda>k. blank k \<and> keyboard_up k)
     (\<lambda>k. map_option (\<lambda>m. k\<lparr>mach := m\<rparr>)
        (pmm_init (kernel_start env) (kernel_end env)
           (map_option mr_entries (rq_response (memmap_request (memmap_response env)))) h (mach k))) []
     (memory_up (usable_count env))"
proof (rule boots_quiet)
  fix k
  assume k: "blank k \<and> keyboard_up k"
  let ?mmr = "map_option mr_entries (rq_response (memmap_request (memmap_response env)))"
  have "case ?mmr of None \<Rightarrow> True | Some es \<Rightarrow> memmap_ok (kernel_start env) (kernel_end env) es"
    using assms by (auto simp: env_ok_def memmap_request_def split: option.splits)
  moreover have "(case ?mmr of None \<Rightarrow> 0 | Some es \<Rightarrow> of_nat (length (usable_pages es))) = usable_count env"
    by (simp add: usable_count_def memmap_request_def split: option.split)
  ultimately obtain s' where "pmm_init (kernel_start env) (kernel_end env) ?mmr h (mach k) = Some s'"
    "quietly (mach k) s'" "free_count s' = usable_count env"
    using pmm_init_boot [where mmr = ?mmr and s = "mach k" and h = h] k by (auto simp: blank_def)
  with k show "\<exists>k'. map_option (\<lambda>m. k\<lparr>mach := m\<rparr>) (pmm_init (kernel_start env) (kernel_end env) ?mmr h (mach k)) = Some k'
      \<and> port_in (mach k') = port_in (mach k) \<and> wire (mach k') = wire (mach k) \<and> memory_up (usable_count env) k'"
    by (auto simp: quietly_def up_defs)
qed

lemma boots_heap:
  "boots drivers_up (\<lambda>k. let (hp, m) = heap_init h (k_heap k) (mach k) in Some (k\<lparr>k_heap := hp, mach := m\<rparr>)) [] drivers_up"
proof (rule boots_quiet)
  fix k
  assume "drivers_up k"
  with quietly_heap_init [of "mach k" h "k_heap k"] show "\<exists>k'. (let (hp, m) = heap_init h (k_heap k) (mach k) in
      Some (k\<lparr>k_heap := hp, mach := m\<rparr>)) = Some k'
      \<and> port_in (mach k') = port_in (mach k) \<and> wire (mach k') = wire (mach k) \<and> drivers_up k'"
    by (simp add: split_beta quietly_def up_defs)
qed

lemma boots_scheduler:
  "boots drivers_up (\<lambda>k. Some (k\<lparr>k_sched := scheduler_init (k_sched k)\<rparr>)) [] kernel_up"
  by (rule boots_quiet) (simp add: up_defs scheduler_init_inv, simp add: scheduler_init_def Let_def)

definition has_fb :: "boot_env \<Rightarrow> bool" where
  "has_fb env \<longleftrightarrow> (case fb_response env of None \<Rightarrow> False | Some r \<Rightarrow> framebuffer_count r \<noteq> 0)"

definition fb_text :: "boot_env \<Rightarrow> u8 list" where
  "fb_text env = crlf_text (lit ''[BOOT] Initializing framebuffer... ''
     @ (if has_fb env then lit ''OK'' else lit ''no framebuffer'') @ [10])"

lemma boots_fb_start:
  assumes "unat (lf_height fb) * unat (lf_pitch fb) + 4096 \<le> 2 ^ 64"
  shows "boots drivers_up (fb_start h fb) [] drivers_up"
proof (rule boots_quiet)
  fix k
  assume "drivers_up k"
  with fb_init_returns [OF assms, of h "lf_address fb - h" "lf_width fb" "lf_bpp fb" "k_fb k" "mach k"]
  show "\<exists>k'. fb_start h fb k = Some k' \<and> port_in (mach k') = port_in (mach k) \<and> wire (mach k') = wire (mach k)
      \<and> drivers_up k'"
    by (auto simp: fb_start_def split_beta quietly_def up_defs)
qed

lemma boots_fb:
  assumes "env_ok env"
  shows "boots drivers_up (boot_fb env h) (fb_text env) drivers_up"
proof -
  have n: "no_nul (lit ''[BOOT] Initializing framebuffer... '')" "no_nul (lit ''OK'' @ [10])"
    "no_nul (lit ''no framebuffer'' @ [10])"
    by (simp_all add: no_nul_def lit_def)
  note put = boots_kputs [OF _ stable_up(6)]
  have r: "rq_response (fb_request (fb_response env)) = fb_response env" by (simp add: fb_request_def)
  show ?thesis
  proof (cases "has_fb env")
    case True
    then obtain r where r': "fb_response env = Some r" "framebuffer_count r \<noteq> 0"
      by (auto simp: has_fb_def split: option.splits)
    with assms have "unat (lf_height (framebuffers r ! 0)) * unat (lf_pitch (framebuffers r ! 0)) + 4096 \<le> 2 ^ 64"
      by (simp add: env_ok_def)
    note start = boots_fb_start [OF this, of h]
    have "boot_fb env h = (\<lambda>k. Option.bind (kputs (lit ''[BOOT] Initializing framebuffer... '') k) (\<lambda>k. Option.bind
        (fb_start h (framebuffers r ! 0) k) (kputs (lit ''OK'' @ [10]))))"
      by (simp add: boot_fb_def [abs_def] fb_request_def r')
    with boots_bind [OF put [OF n(1)] boots_bind [OF start put [OF n(2)]]] True show ?thesis
      by (simp add: fb_text_def)
  next
    case False
    then have "boot_fb env h = (\<lambda>k. Option.bind (kputs (lit ''[BOOT] Initializing framebuffer... '') k)
        (kputs (lit ''no framebuffer'' @ [10])))"
      by (auto simp: boot_fb_def [abs_def] r has_fb_def split: option.splits)
    with boots_bind [OF put [OF n(1)] put [OF n(3)]] False show ?thesis by (simp add: fb_text_def)
  qed
qed

lemma boots_weaken: "boots P f out Q \<Longrightarrow> (\<And>k. Q k \<Longrightarrow> Q' k) \<Longrightarrow> boots P f out Q'"
  unfolding boots_def by blast

lemma names_text:
  "no_nul (lit ''GDT'')" "no_nul (lit ''IDT & PIC'')" "no_nul (lit ''PIT (100 Hz)'')" "no_nul (lit ''PS/2 keyboard'')"
  "no_nul (lit ''PMM'')" "no_nul (lit ''VMM'')" "no_nul (lit ''heap'')" "no_nul (lit ''scheduler'')"
  "no_nul (lit ''  Free frames: '')" "no_nul [10]" "no_nul (lit ''[BOOT] All subsystems initialized'' @ [10, 10])"
  "no_nul (10 # lit ''=== Suika OS (64-bit) booting via Limine ==='' @ [10])"
  "no_nul (lit ''[BOOT] Initializing APIC (LINT0)... '')" "no_nul (lit ''OK'' @ [10])"
  by (simp_all add: no_nul_def lit_def)

lemma boots_tables:
  "boots blank (boot_tables env) (step_text ''GDT'' @ step_text ''IDT & PIC'') (\<lambda>k. blank k \<and> if_flag (mach k))"
  unfolding boot_tables_def
  by (rule boots_bind [OF boots_step [OF boots_gdt stable_up(1,1) names_text(1)]
      boots_step [OF boots_idt stable_up(1,2) names_text(2)]])

definition rest_text :: "boot_env \<Rightarrow> u8 list" where
  "rest_text env = step_text ''PIT (100 Hz)'' @ step_text ''PS/2 keyboard'' @ step_text ''PMM''
     @ crlf_text (lit ''  Free frames: '') @ dec_text (usable_count env) @ crlf_text [10]
     @ step_text ''VMM'' @ fb_text env @ step_text ''heap'' @ step_text ''scheduler''
     @ crlf_text (lit ''[BOOT] All subsystems initialized'' @ [10, 10])"

lemma boots_rest:
  assumes "env_ok env"
  shows "boots (\<lambda>k. blank k \<and> if_flag (mach k)) (boot_rest env h) (rest_text env) kernel_up"
proof -
  have free: "memory_up (usable_count env) k \<Longrightarrow> pmm_get_free_count (mach k) = usable_count env" for k
    by (simp add: memory_up_def pmm_get_free_count_def)
  have vmm: "boots (memory_up n) (\<lambda>k. Some (k\<lparr>mach := vmm_init (mach k)\<rparr>)) [] drivers_up" for n
    by (rule boots_quiet) (simp add: vmm_init_def up_defs)
  show ?thesis
    unfolding boot_rest_def rest_text_def
    by (rule boots_bind [OF boots_step [OF boots_timer stable_up(2,3) names_text(3)]
        boots_bind [OF boots_step [OF boots_keyboard stable_up(3,4) names_text(4)]
        boots_bind [OF boots_step [OF boots_pmm [OF assms] stable_up(4,5) names_text(5)]
        boots_bind [OF boots_kputs [OF names_text(9) stable_up(5)]
        boots_bind [OF boots_dec [OF stable_up(5) free]
        boots_bind [OF boots_kputs [OF names_text(10) stable_up(5)]
        boots_bind [OF boots_step [OF vmm stable_up(5,6) names_text(6)]
        boots_bind [OF boots_fb [OF assms]
        boots_bind [OF boots_step [OF boots_heap stable_up(6,6) names_text(7)]
        boots_bind [OF boots_step [OF boots_scheduler stable_up(6,7) names_text(8)]
        boots_kputs [OF names_text(11) stable_up(7)]]]]]]]]]]])
qed

lemma boot_apic_runs:
  assumes "devices_live (mach k)" "blank k \<and> if_flag (mach k)"
  shows "\<exists>k' msg. boot_apic env h k = Some k' \<and> msg \<in> apic_messages \<and> devices_live (mach k')
     \<and> blank k' \<and> if_flag (mach k')
     \<and> wire (mach k') = wire (mach k) @ crlf_text (lit ''[BOOT] Initializing APIC (LINT0)... '') @ msg @ crlf_text (lit ''OK'' @ [10])"
proof -
  note put = boots_kputs [OF _ stable_up(2)]
  from put [OF names_text(13)] assms obtain k1 where k1: "kputs (lit ''[BOOT] Initializing APIC (LINT0)... '') k = Some k1"
    "devices_live (mach k1)" "wire (mach k1) = wire (mach k) @ crlf_text (lit ''[BOOT] Initializing APIC (LINT0)... '')"
    "blank k1" "if_flag (mach k1)"
    unfolding boots_def by blast
  from k1(2) have "apic_ran (mach k1) (apic_init (apic_msr_eax env) (apic_msr_edx env) h (k_apic k1) (mach k1))"
    by (intro apic_init_returns) (simp add: devices_live_def)
  then obtain a m f l msg where a: "apic_init (apic_msr_eax env) (apic_msr_edx env) h (k_apic k1) (mach k1)
      = Some (a, (mach k1)\<lparr>mem := m, port_rd := f, hw_log := l\<rparr>)" "msg \<in> apic_messages"
      "port_writes SERIAL_COM1 l = wire (mach k1) @ msg"
    unfolding apic_ran_def by blast
  let ?k2 = "k1\<lparr>k_apic := a, mach := (mach k1)\<lparr>mem := m, port_rd := f, hw_log := l\<rparr>\<rparr>"
  have "devices_live (mach ?k2)" "blank ?k2 \<and> if_flag (mach ?k2)"
    using k1 by (simp_all add: devices_live_def serial_live_def blank_def)
  with put [OF names_text(14)] obtain k3 where k3: "kputs (lit ''OK'' @ [10]) ?k2 = Some k3"
    "devices_live (mach k3)" "wire (mach k3) = wire (mach ?k2) @ crlf_text (lit ''OK'' @ [10])"
    "blank k3" "if_flag (mach k3)"
    unfolding boots_def by blast
  have "boot_apic env h k = Some k3" using k1(1) a(1) k3(1) by (simp add: boot_apic_def boot_step_def)
  with a k1(3) k3 show ?thesis by (intro exI [of _ k3] exI [of _ msg]) simp
qed

text \<open>Everything the serial line receives from the entry of \<open>kmain\<close> on; the first byte is the divisor that
  \<open>serial_init\<close> writes.\<close>

definition boot_text :: "boot_env \<Rightarrow> u8 list \<Rightarrow> u8 list" where
  "boot_text env msg = 3 # crlf_text (10 # lit ''=== Suika OS (64-bit) booting via Limine ==='' @ [10])
     @ step_text ''GDT'' @ step_text ''IDT & PIC''
     @ crlf_text (lit ''[BOOT] Initializing APIC (LINT0)... '') @ msg @ crlf_text (lit ''OK'' @ [10])
     @ rest_text env"

lemma kernel_boot_runs:
  assumes "devices_live (mach k)" "blank k" "env_ok env"
  shows "\<exists>k' msg. kernel_boot env k = Some k' \<and> msg \<in> apic_messages \<and> devices_live (mach k')
     \<and> wire (mach k') = wire (mach k) @ boot_text env msg \<and> kernel_up k'"
proof -
  let ?k0 = "k\<lparr>mach := serial_init (mach k)\<rparr>"
  obtain h where h: "map_option hr_offset (rq_response (hhdm_request (hhdm_response env))) = Some h"
    using assms(3) by (auto simp: env_ok_def hhdm_request_def)
  have "devices_live (mach ?k0)" "blank ?k0" "wire (mach ?k0) = wire (mach k) @ [3]"
    using assms(1,2) by (auto simp: devices_live_def serial_live_def blank_def serial_init_def SERIAL_COM1_def Let_def)
  with boots_bind [OF boots_kputs [OF names_text(12) stable_up(1)] boots_tables] obtain k2 where k2:
    "Option.bind (kputs (10 # lit ''=== Suika OS (64-bit) booting via Limine ==='' @ [10]) ?k0) (boot_tables env) = Some k2"
    "devices_live (mach k2)" "blank k2 \<and> if_flag (mach k2)"
    "wire (mach k2) = wire (mach k) @ 3 # crlf_text (10 # lit ''=== Suika OS (64-bit) booting via Limine ==='' @ [10])
       @ step_text ''GDT'' @ step_text ''IDT & PIC''"
    unfolding boots_def by fastforce
  from boot_apic_runs [OF k2(2,3)] obtain k3 msg where k3: "boot_apic env h k2 = Some k3" "msg \<in> apic_messages"
    "devices_live (mach k3)" "blank k3 \<and> if_flag (mach k3)" "wire (mach k3) = wire (mach k2)
      @ crlf_text (lit ''[BOOT] Initializing APIC (LINT0)... '') @ msg @ crlf_text (lit ''OK'' @ [10])"
    by blast
  with boots_rest [OF assms(3)] obtain k4 where k4: "boot_rest env h k3 = Some k4" "devices_live (mach k4)"
    "wire (mach k4) = wire (mach k3) @ rest_text env" "kernel_up k4"
    unfolding boots_def by blast
  have "kernel_boot env k = Some k4"
    using k2(1) k3(1) k4(1) unfolding kernel_boot_def h by (auto simp: Option.bind_eq_Some_conv)
  with k2(4) k3(2,5) k4 show ?thesis by (intro exI [of _ k4] exI [of _ msg]) (simp add: boot_text_def)
qed

section \<open>Running\<close>

text \<open>The loop of \<open>timer_sleep\<close> in the kernel: the interrupts with number 32 are its ticks.\<close>

interpretation kernel_ticks: tick_source "\<lambda>k. timer_ticks (k_timer k)" handle
    "\<lambda>k. k\<lparr>mach := hw_emit Hlt (mach k)\<rparr>" "\<lambda>e. irq_no e = Some 32"
proof unfold_locales
  fix e k
  show "timer_ticks (k_timer (handle e k)) = timer_ticks (k_timer k) + (if irq_no e = Some 32 then 1 else 0)"
    by (cases e) (simp_all add: handle_irq(2) [OF refl] timer_handler_def del: handle.simps(1))
qed simp

definition running :: "kernel \<Rightarrow> bool" where
  "running k \<longleftrightarrow> timer_freq (k_timer k) = 100 \<and> sched_inv (k_sched k) \<and> kb_inv (k_kb k)"

lemma handle_running:
  assumes "running k"
  shows "running (handle e k)" "port_in (mach (handle e k)) = port_in (mach k)" "wire (mach (handle e k)) = wire (mach k)"
  using assms
  by (cases e; simp add: running_def handle_irq [OF refl] timer_handler_def tick_inv kb_scancode_inv ack_def
      SERIAL_COM1_def del: handle.simps(1))+

lemma kernel_sleep_runs:
  assumes "running k" "devices_live (mach k)"
    and "unat (timer_ticks (k_timer k)) + kernel_ticks.count (concat bs) < 2 ^ 64"
    and "unat ms \<le> 2000" "unat ms div 10 \<le> kernel_ticks.count (concat bs)"
  shows "\<exists>k'. kernel_sleep ms bs k = Some k' \<and> running k' \<and> devices_live (mach k') \<and> \<not> if_flag (mach k')
     \<and> wire (mach k') = wire (mach k)
     \<and> unat (timer_ticks (k_timer k')) \<le> unat (timer_ticks (k_timer k)) + kernel_ticks.count (concat bs)
     \<and> unat (timer_ticks (k_timer k)) + unat ms div 10 \<le> unat (timer_ticks (k_timer k'))"
proof -
  let ?t = "timer_ticks (k_timer k)" and ?n = "unat ms div 10" and ?k = "k\<lparr>mach := sti (mach k)\<rparr>"
  let ?target = "?t + sleep_ticks (timer_freq (k_timer k)) ms"
  have "unat (sleep_ticks 100 ms) = ?n" using assms(4) by (subst sleep_ticks_exact) simp_all
  moreover have "of_nat (unat (sleep_ticks 100 ms)) = sleep_ticks 100 ms" by simp
  ultimately have "sleep_ticks (timer_freq (k_timer k)) ms = of_nat ?n" using assms(1) by (simp add: running_def)
  then have target: "?target = timer_ticks (k_timer ?k) + of_nat ?n" by simp
  obtain k1 where k1: "timer_wait (\<lambda>k. timer_ticks (k_timer k)) handle (\<lambda>k. k\<lparr>mach := hw_emit Hlt (mach k)\<rparr>) ?target bs ?k = Some k1"
    using kernel_ticks.wait_returns [OF _ target assms(5)] assms(3) by auto
  from kernel_ticks.wait_ticks [OF k1] obtain m where m: "m \<le> kernel_ticks.count (concat bs)"
    "timer_ticks (k_timer k1) = ?t + of_nat m" by auto
  have um: "unat (timer_ticks (k_timer k1)) = unat ?t + m"
    unfolding m(2) using assms(3) m(1) by (subst unat_add_of_nat) simp_all
  have "unat ?target = unat ?t + ?n" unfolding target using assms(3,5) by (subst unat_add_of_nat) simp_all
  moreover have "?target \<le> timer_ticks (k_timer k1)" using kernel_ticks.wait_not_early [OF k1] .
  ultimately have low: "unat ?t + ?n \<le> unat (timer_ticks (k_timer k1))" by (simp add: word_le_nat_alt)
  have "running k1 \<and> port_in (mach k1) = port_in (mach k) \<and> wire (mach k1) = wire (mach k)"
    by (rule kernel_ticks.wait_invariant [OF _ _ k1])
      (use assms(1) in \<open>auto simp: handle_running, auto simp: running_def sti_def\<close>)
  moreover have "kernel_sleep ms bs k = Some (k1\<lparr>mach := cli (mach k1)\<rparr>)"
    using k1 by (simp add: kernel_sleep_def Let_def)
  ultimately show ?thesis
    using assms(2) um m(1) low
    by (auto simp: running_def devices_live_def serial_live_def cli_def)
qed

definition round_text :: "u64 \<Rightarrow> u64 \<Rightarrow> u8 list" where
  "round_text a b = crlf_text (lit ''[init] a='') @ dec_text a @ crlf_text (lit '' b='') @ dec_text b @ crlf_text [10]"

lemma stable_running: "stable running" "stable (\<lambda>k. running k \<and> thread_a_count k = a \<and> thread_b_count k = b
    \<and> timer_ticks (k_timer k) = t \<and> \<not> if_flag (mach k))"
  by (simp_all add: stable_def running_def)

lemma kmain_round_runs:
  assumes "running k" "devices_live (mach k)"
    and "unat (timer_ticks (k_timer k)) + kernel_ticks.count (concat bs) < 2 ^ 64"
    and "200 \<le> kernel_ticks.count (concat bs)"
  shows "\<exists>k'. kmain_round bs k = Some k' \<and> running k' \<and> devices_live (mach k') \<and> \<not> if_flag (mach k')
     \<and> wire (mach k') = wire (mach k) @ round_text (thread_a_count k') (thread_b_count k')
     \<and> unat (timer_ticks (k_timer k')) \<le> unat (timer_ticks (k_timer k)) + kernel_ticks.count (concat bs)"
proof -
  from kernel_sleep_runs [OF assms(1-3), of 2000] assms(4) obtain k1 where k1: "kernel_sleep 2000 bs k = Some k1"
    "running k1" "devices_live (mach k1)" "\<not> if_flag (mach k1)" "wire (mach k1) = wire (mach k)"
    "unat (timer_ticks (k_timer k1)) \<le> unat (timer_ticks (k_timer k)) + kernel_ticks.count (concat bs)"
    by auto
  let ?P = "\<lambda>k. running k \<and> thread_a_count k = thread_a_count k1 \<and> thread_b_count k = thread_b_count k1
    \<and> timer_ticks (k_timer k) = timer_ticks (k_timer k1) \<and> \<not> if_flag (mach k)"
  have n: "no_nul (lit ''[init] a='')" "no_nul (lit '' b='')" by (simp_all add: no_nul_def lit_def)
  note st = stable_running(2) [of "thread_a_count k1" "thread_b_count k1" "timer_ticks (k_timer k1)"]
  have a: "boots ?P (\<lambda>k. kput_dec (thread_a_count k) k) (dec_text (thread_a_count k1)) ?P"
    and b: "boots ?P (\<lambda>k. kput_dec (thread_b_count k) k) (dec_text (thread_b_count k1)) ?P"
    by (rule boots_dec [OF st], simp)+
  have "boots ?P (\<lambda>k. Option.bind (kputs (lit ''[init] a='') k) (\<lambda>k. Option.bind (kput_dec (thread_a_count k) k)
      (\<lambda>k. Option.bind (kputs (lit '' b='') k) (\<lambda>k. Option.bind (kput_dec (thread_b_count k) k) (kputs [10])))))
      (round_text (thread_a_count k1) (thread_b_count k1)) ?P"
    unfolding round_text_def
    by (rule boots_bind [OF boots_kputs [OF n(1) st] boots_bind [OF a boots_bind [OF boots_kputs [OF n(2) st]
      boots_bind [OF b boots_kputs [OF names_text(10) st]]]]])
  then obtain k2 where "Option.bind (kputs (lit ''[init] a='') k1) (\<lambda>k. Option.bind (kput_dec (thread_a_count k) k)
      (\<lambda>k. Option.bind (kputs (lit '' b='') k) (\<lambda>k. Option.bind (kput_dec (thread_b_count k) k) (kputs [10])))) = Some k2"
      "devices_live (mach k2)" "?P k2" "wire (mach k2) = wire (mach k1) @ round_text (thread_a_count k1) (thread_b_count k1)"
    using k1(2-4) unfolding boots_def by blast
  then show ?thesis using k1 by (simp add: kmain_round_def)
qed

lemma kmain_rounds_run:
  assumes "running k" "devices_live (mach k)"
    and "unat (timer_ticks (k_timer k)) + kernel_ticks.count (concat (concat rounds)) < 2 ^ 64"
    and "\<forall>bs \<in> set rounds. 200 \<le> kernel_ticks.count (concat bs)"
  shows "\<exists>k' counts. kmain_rounds rounds k = Some k' \<and> running k' \<and> length counts = length rounds
     \<and> wire (mach k') = wire (mach k) @ concat (map (\<lambda>(a, b). round_text a b) counts)"
  using assms
proof (induction rounds arbitrary: k)
  case (Cons bs rounds)
  have c: "kernel_ticks.count (concat (concat (bs # rounds))) = kernel_ticks.count (concat bs) + kernel_ticks.count (concat (concat rounds))"
    by (simp add: kernel_ticks.count_def)
  from kmain_round_runs [OF Cons.prems(1,2), of bs] Cons.prems(3,4) c obtain k1 where k1: "kmain_round bs k = Some k1"
    "running k1" "devices_live (mach k1)" "wire (mach k1) = wire (mach k) @ round_text (thread_a_count k1) (thread_b_count k1)"
    "unat (timer_ticks (k_timer k1)) \<le> unat (timer_ticks (k_timer k)) + kernel_ticks.count (concat bs)"
    by auto
  from Cons.IH [OF k1(2,3)] Cons.prems(3,4) c k1(5) obtain k' counts where "kmain_rounds rounds k1 = Some k'" "running k'"
    "length counts = length rounds" "wire (mach k') = wire (mach k1) @ concat (map (\<lambda>(a, b). round_text a b) counts)"
    by fastforce
  with k1 show ?case
    by (intro exI [of _ k'] exI [of _ "(thread_a_count k1, thread_b_count k1) # counts"]) simp
qed auto

lemma task_create_keeps_inv:
  assumes "sched_inv sc"
  shows "sched_inv (fst (snd (task_create name entry sc s)))"
proof -
  obtain p s1 where p: "pmm_alloc s = (p, s1)" by fastforce
  have len: "length (tasks sc) = 64" using assms by (simp add: sched_inv_def)
  then show ?thesis
  proof (cases rule: task_find_free_cases)
    case none
    with assms show ?thesis by (simp add: task_create_def)
  next
    case some
    show ?thesis
    proof (cases "p = 0")
      case True
      with p assms show ?thesis by (simp add: task_create_def Let_def)
    next
      case False
      then have "fst (snd (task_create name entry sc s))
          = created (task_find_free sc) name (pmm_hhdm s1 + p + 4096) sc"
        using p some by (simp add: task_create_def Let_def created_def pmm_get_hhdm_def max_def)
      with created_inv(1) [OF assms some(1-3)] show ?thesis by simp
    qed
  qed
qed

lemma create_thread_runs:
  assumes "running k" "devices_live (mach k)"
  shows "running (create_thread name entry k)" "devices_live (mach (create_thread name entry k))"
    "wire (mach (create_thread name entry k)) = wire (mach k)"
    "timer_ticks (k_timer (create_thread name entry k)) = timer_ticks (k_timer k)"
  using assms task_create_keeps_inv [of "k_sched k" "lit name" entry "mach k"]
    quietly_task_create [of "mach k" "lit name" entry "k_sched k"]
  by (auto simp: create_thread_def running_def quietly_def devices_live_def serial_live_def split_beta Let_def)

lemma kputs_runs:
  assumes "no_nul str" "running k" "devices_live (mach k)"
  shows "\<exists>k'. kputs str k = Some k' \<and> devices_live (mach k') \<and> wire (mach k') = wire (mach k) @ crlf_text str
      \<and> running k' \<and> timer_ticks (k_timer k') = timer_ticks (k_timer k)"
proof -
  have "stable (\<lambda>k'. running k' \<and> timer_ticks (k_timer k') = timer_ticks (k_timer k))"
    by (simp add: stable_def running_def)
  from boots_kputs [OF assms(1) this] assms(2,3) show ?thesis unfolding boots_def by blast
qed

text \<open>From the end of the boot sequence to the loop.\<close>

definition threads_text :: "u8 list" where
  "threads_text = crlf_text (lit ''[TEST] Waiting 1 second... '' @ lit ''done'' @ 10 # lit ''[KERNEL] Creating threads...''
     @ 10 # lit ''[KERNEL] Threads created, running'' @ [10])"

lemma kmain_threads_run:
  assumes "running k1" "devices_live (mach k1)" "timer_ticks (k_timer k1) = 0"
    and "100 \<le> kernel_ticks.count (concat first)" "kernel_ticks.count (concat first) < 2 ^ 64"
  shows "\<exists>k6. (do {
     k \<leftarrow> kputs (lit ''[TEST] Waiting 1 second... '') k1;
     k \<leftarrow> kernel_sleep 1000 first k;
     k \<leftarrow> kputs (lit ''done'' @ [10]) k;
     k \<leftarrow> kputs (lit ''[KERNEL] Creating threads...'' @ [10]) k;
     kputs (lit ''[KERNEL] Threads created, running'' @ [10])
       (create_thread ''thread-b'' b_entry (create_thread ''thread-a'' a_entry k)) }) = Some k6
   \<and> running k6 \<and> devices_live (mach k6) \<and> wire (mach k6) = wire (mach k1) @ threads_text
   \<and> unat (timer_ticks (k_timer k6)) \<le> kernel_ticks.count (concat first)"
proof -
  have n: "no_nul (lit ''[TEST] Waiting 1 second... '')" "no_nul (lit ''done'' @ [10])"
    "no_nul (lit ''[KERNEL] Creating threads...'' @ [10])" "no_nul (lit ''[KERNEL] Threads created, running'' @ [10])"
    by (simp_all add: no_nul_def lit_def)
  from kputs_runs [OF n(1) assms(1,2)] obtain k2 where k2: "kputs (lit ''[TEST] Waiting 1 second... '') k1 = Some k2"
    "devices_live (mach k2)" "wire (mach k2) = wire (mach k1) @ crlf_text (lit ''[TEST] Waiting 1 second... '')"
    "running k2" "timer_ticks (k_timer k2) = timer_ticks (k_timer k1)" by blast
  from kernel_sleep_runs [OF k2(4,2), of first 1000] assms(3-5) k2(5) obtain k3 where
    k3: "kernel_sleep 1000 first k2 = Some k3" "running k3" "devices_live (mach k3)" "wire (mach k3) = wire (mach k2)"
      "unat (timer_ticks (k_timer k3)) \<le> kernel_ticks.count (concat first)" by auto
  from kputs_runs [OF n(2) k3(2,3)] obtain k4 where k4: "kputs (lit ''done'' @ [10]) k3 = Some k4"
    "devices_live (mach k4)" "wire (mach k4) = wire (mach k3) @ crlf_text (lit ''done'' @ [10])"
    "running k4" "timer_ticks (k_timer k4) = timer_ticks (k_timer k3)" by blast
  from kputs_runs [OF n(3) k4(4,2)] obtain k5 where k5: "kputs (lit ''[KERNEL] Creating threads...'' @ [10]) k4 = Some k5"
    "devices_live (mach k5)" "wire (mach k5) = wire (mach k4) @ crlf_text (lit ''[KERNEL] Creating threads...'' @ [10])"
    "running k5" "timer_ticks (k_timer k5) = timer_ticks (k_timer k4)" by blast
  note ca = create_thread_runs [OF k5(4,2), of "''thread-a''" a_entry]
  note cb = create_thread_runs [OF ca(1,2), of "''thread-b''" b_entry]
  from kputs_runs [OF n(4) cb(1,2)] obtain k6 where "kputs (lit ''[KERNEL] Threads created, running'' @ [10])
      (create_thread ''thread-b'' b_entry (create_thread ''thread-a'' a_entry k5)) = Some k6"
    "devices_live (mach k6)" "wire (mach k6) = wire (mach k5) @ crlf_text (lit ''[KERNEL] Threads created, running'' @ [10])"
    "running k6" "timer_ticks (k_timer k6) = timer_ticks (k_timer k5)" using ca(3,4) cb(3,4) by auto
  with k2 k3 k4 k5 show ?thesis by (intro exI [of _ k6]) (simp add: threads_text_def)
qed


section \<open>Witnesses\<close>

definition kernel_example :: kernel where
  "kernel_example = \<lparr>mach = pmm_boot_state\<lparr>port_in := \<lambda>_ _. 0x20\<rparr>, k_gdt = gdt_blank, k_idt = idt_blank, k_apic = apic_example,
     k_timer = \<lparr>timer_ticks = 0, timer_freq = 0, pit_divisor = 0\<rparr>, k_kb = kb_boot, k_fb = fb_static,
     k_heap = \<lparr>heap_head = 0\<rparr>, k_sched = sched_boot, thread_a_count = 0, thread_b_count = 0\<rparr>"

definition env_example :: boot_env where
  "env_example = \<lparr>hhdm_response = Some \<lparr>hr_revision = 0, hr_offset = 0xffff800000000000\<rparr>,
     memmap_response = Some \<lparr>mr_revision = 0, mr_entries = memmap_example\<rparr>, fb_response = None, apic_msr_eax = 0xfee00900,
     apic_msr_edx = 0, gdt_addr = 0xffffffff80010000, idt_addr = 0xffffffff80011000, isr_stub = (\<lambda>i. 0xffffffff80001000 + of_nat i * 16),
     irq_stub = (\<lambda>i. 0xffffffff80002000 + of_nat i * 16), kernel_start = 0xffffffff80000000,
     kernel_end = 0xffffffff80020000, thread_a_entry = 0xffffffff80003000, thread_b_entry = 0xffffffff80003010\<rparr>"

definition tick_frame :: registers_t where
  "tick_frame = (initial_regs 0xffffffff80003000 0x9000)\<lparr>int_no := 32\<rparr>"

lemma tick_frame_no: "int_no tick_frame = 32"
  by (simp add: tick_frame_def)


theorem isr_handler_reports_witness:
  "\<exists>s'. isr_handler 0x7000 3 (mach kernel_example) = Some s' \<and> \<not> if_flag s'"
proof -
  have "serial_live (mach kernel_example)" by (auto simp: serial_live_def kernel_example_def)
  from isr_handler_reports [OF this, of "0x7000" 3] show ?thesis by auto
qed

definition switch_example :: kernel where
  "switch_example = kernel_example\<lparr>k_sched := sched_example\<rparr>"

theorem context_switch_transparent_witness:
  "\<exists>k2. irq_handler 0x200 ((handle (Irq 0x100 tick_frame) switch_example)\<lparr>mach :=
       (mach (handle (Irq 0x100 tick_frame) switch_example))\<lparr>mem := store_words (frame_words tick_frame) 0x200
          (mem (mach (handle (Irq 0x100 tick_frame) switch_example)))\<rparr>\<rparr>) = (0x100, k2)
     \<and> registers_at (mem (mach k2)) 0x100 = tick_frame"
proof -
  let ?k = "handle (Irq 0x100 tick_frame) switch_example"
  let ?k1 = "?k\<lparr>mach := (mach ?k)\<lparr>mem := store_words (frame_words tick_frame) 0x200 (mem (mach ?k))\<rparr>\<rparr>"
  obtain r k2 where r: "irq_handler 0x200 ?k1 = (r, k2)" by fastforce
  have s: "k_sched switch_example = sched_example" by (simp add: switch_example_def)
  have s1: "k_sched ?k = ticks [0x100] sched_example"
    by (simp add: handle_irq(1) [OF refl] tick_frame_no s ticks_def del: handle.simps(1))
  have "handle (Irq 0x200 tick_frame) ?k = k2" using r by simp
  then have "k_sched k2 = ticks [0x100, 0x200] sched_example"
    using handle_irq(1) [of k2 "0x200" tick_frame ?k] by (simp add: tick_frame_no s1 ticks_def del: handle.simps(1))
  then have "r = 0x100 \<and> registers_at (mem (mach k2)) r = tick_frame"
    using context_switch_transparent [of switch_example 0 tick_frame "[]" "0x100" "0x200" tick_frame r k2] r
      sched_example_facts(1) sched_example_run
    by (auto simp: s s1 tick_frame_no apart_def simp del: handle.simps(1))
  with r show ?thesis by blast
qed

end
