(* ===== verification/Limine_Util.thy ===== *)
theory Limine_Util
  imports Prelude
begin

text \<open>
  The helpers of the host tool \<open>limine/limine.c\<close>: argument lists, overflow checks, disk addresses in
  cylinders, heads and sectors, the partition types of the GPT, and byte order.

  The tool runs on hosts of either byte order; whether the host is big-endian is an argument.
  \<open>native big bs\<close> is what loading the bytes \<open>bs\<close> as an integer gives on such a host.
\<close>

section \<open>Arguments\<close>

text \<open>\<open>argv\<close> is the array of strings with the null pointer after the last argument.\<close>

type_synonym argv = "string option list"

definition remove_arg :: "nat \<Rightarrow> argv \<Rightarrow> nat \<Rightarrow> nat \<times> argv" where
  "remove_arg argc argv index =
     (let argv1 = fold (\<lambda>i v. v[i := v ! (i + 1)]) [index ..< argc - 1] argv;
          argc1 = argc - 1
      in (argc1, argv1[argc1 := None]))"

section \<open>Overflow checks\<close>

definition UINT64_MAX :: u64 where
  "UINT64_MAX = - 1"

definition mul_u64_overflow :: "u64 \<Rightarrow> u64 \<Rightarrow> bool \<times> u64" where
  "mul_u64_overflow a b = (a \<noteq> 0 \<and> b > UINT64_MAX div a, a * b)"

definition add_u64_overflow :: "u64 \<Rightarrow> u64 \<Rightarrow> bool \<times> u64" where
  "add_u64_overflow a b = (a > UINT64_MAX - b, a + b)"

section \<open>Partition tables\<close>

record gpt_table_header =
  gh_signature :: "u8 list"
  gh_revision :: u32
  gh_header_size :: u32
  gh_crc32 :: u32
  gh_reserved0 :: u32
  gh_my_lba :: u64
  gh_alternate_lba :: u64
  gh_first_usable_lba :: u64
  gh_last_usable_lba :: u64
  gh_disk_guid :: "u64 \<times> u64"
  gh_partition_entry_lba :: u64
  gh_number_of_partition_entries :: u32
  gh_size_of_partition_entry :: u32
  gh_partition_entry_array_crc32 :: u32

record gpt_entry =
  ge_partition_type_guid :: "u64 \<times> u64"
  ge_unique_partition_guid :: "u64 \<times> u64"
  ge_starting_lba :: u64
  ge_ending_lba :: u64
  ge_attributes :: u64
  ge_partition_name :: "u16 list"

record gpt2mbr_type_conv =
  gpt_type1 :: u64
  gpt_type2 :: u64
  mbr_type :: u8

definition gpt2mbr_type_conv_table :: "gpt2mbr_type_conv list" where
  "gpt2mbr_type_conv_table =
     [\<lparr>gpt_type1 = 0x11d2f81fc12a7328, gpt_type2 = 0x3bc93ec9a0004bba, mbr_type = 0xef\<rparr>,
      \<lparr>gpt_type1 = 0x4433b9e5ebd0a0a2, gpt_type2 = 0xc79926b7b668c087, mbr_type = 0x07\<rparr>,
      \<lparr>gpt_type1 = 0x11aa000048465300, gpt_type2 = 0xacec4365300011aa, mbr_type = 0xaf\<rparr>]"

fun gpt2mbr_search :: "gpt2mbr_type_conv list \<Rightarrow> u64 \<Rightarrow> u64 \<Rightarrow> int" where
  "gpt2mbr_search [] t1 t2 = - 1"
| "gpt2mbr_search (c # cs) t1 t2 =
     (if gpt_type1 c = t1 \<and> gpt_type2 c = t2 then uint (mbr_type c) else gpt2mbr_search cs t1 t2)"

definition gpt2mbr_type :: "u64 \<Rightarrow> u64 \<Rightarrow> int" where
  "gpt2mbr_type t1 t2 = gpt2mbr_search gpt2mbr_type_conv_table t1 t2"

text \<open>The three bytes \<open>chs[0]\<close>, \<open>chs[1]\<close>, \<open>chs[2]\<close>.\<close>

definition lba2chs :: "u64 \<Rightarrow> u8 \<times> u8 \<times> u8" where
  "lba2chs lba =
     (let cylinder = lba div (255 * 63)
      in if lba > 63 * 255 * 1024 \<or> cylinder \<ge> 1024 then (0xfe, 0xff, 0xff)
         else let head = (lba div 63) mod 255;
                  sector = lba mod 63 + 1
              in (ucast head,
                  ucast (drop_bit 2 cylinder AND 0xc0) OR ucast (sector AND 0x3f),
                  ucast cylinder))"

section \<open>Byte order\<close>

definition endswap16 :: "u16 \<Rightarrow> u16" where
  "endswap16 value = (drop_bit 8 value AND 0x00ff) OR (push_bit 8 value AND 0xff00)"

definition endswap32 :: "u32 \<Rightarrow> u32" where
  "endswap32 value = (drop_bit 24 value AND 0x000000ff) OR (drop_bit 8 value AND 0x0000ff00)
     OR (push_bit 8 value AND 0x00ff0000) OR (push_bit 24 value AND 0xff000000)"

definition endswap64 :: "u64 \<Rightarrow> u64" where
  "endswap64 value = (drop_bit 56 value AND 0x00000000000000ff) OR (drop_bit 40 value AND 0x000000000000ff00)
     OR (drop_bit 24 value AND 0x0000000000ff0000) OR (drop_bit 8 value AND 0x00000000ff000000)
     OR (push_bit 8 value AND 0x000000ff00000000) OR (push_bit 24 value AND 0x0000ff0000000000)
     OR (push_bit 40 value AND 0x00ff000000000000) OR (push_bit 56 value AND 0xff00000000000000)"

text \<open>The macro \<open>ENDSWAP\<close> at the three widths it is used with (at width 1 it is the identity).\<close>

definition ENDSWAP16 :: "bool \<Rightarrow> u16 \<Rightarrow> u16" where
  "ENDSWAP16 bigendian v = (if bigendian then endswap16 v else v)"

definition ENDSWAP32 :: "bool \<Rightarrow> u32 \<Rightarrow> u32" where
  "ENDSWAP32 bigendian v = (if bigendian then endswap32 v else v)"

definition ENDSWAP64 :: "bool \<Rightarrow> u64 \<Rightarrow> u64" where
  "ENDSWAP64 bigendian v = (if bigendian then endswap64 v else v)"

text \<open>The value of bytes in memory order.\<close>

primrec le_word :: "u8 list \<Rightarrow> 'a::len word" where
  "le_word [] = 0"
| "le_word (b # bs) = ucast b OR push_bit 8 (le_word bs)"

definition native :: "bool \<Rightarrow> u8 list \<Rightarrow> 'a::len word" where
  "native big bs = le_word (if big then rev bs else bs)"

primrec le_bytes :: "nat \<Rightarrow> 'a::len word \<Rightarrow> u8 list" where
  "le_bytes 0 v = []"
| "le_bytes (Suc n) v = ucast v # le_bytes n (drop_bit 8 v)"

definition native_bytes :: "bool \<Rightarrow> nat \<Rightarrow> 'a::len word \<Rightarrow> u8 list" where
  "native_bytes big n v = (if big then rev (le_bytes n v) else le_bytes n v)"

lemma length_le_bytes [simp]: "length (le_bytes n v) = n"
  by (induction n arbitrary: v) simp_all

lemma length_native_bytes [simp]: "length (native_bytes big n v) = n"
  by (simp add: native_bytes_def)

lemma le_bytes_ne [simp]: "le_bytes n v = [] \<longleftrightarrow> n = 0"
  by (cases n) simp_all

lemma native_bytes_ne [simp]: "native_bytes big n v = [] \<longleftrightarrow> n = 0"
  by (metis length_native_bytes length_0_conv)

lemma le_word_bytes: "8 * n = LENGTH('a::len) \<Longrightarrow> le_word (le_bytes n (v :: 'a word)) = v"
proof -
  have "le_word (le_bytes n v) = take_bit (8 * n) v" for n and v :: "'a word"
  proof (induction n arbitrary: v)
    case (Suc n)
    show ?case by (simp add: Suc) (rule bit_word_eqI, auto simp: bit_simps)
  qed simp
  then show "8 * n = LENGTH('a) \<Longrightarrow> le_word (le_bytes n v) = v" by (simp add: take_bit_word_eq_self)
qed

lemma native_native_bytes: "8 * n = LENGTH('a::len) \<Longrightarrow> native big (native_bytes big n (v :: 'a word)) = v"
  by (simp add: native_def native_bytes_def le_word_bytes)

section \<open>Properties\<close>

lemma remove_arg_shift:
  assumes "index \<le> n" "n < length argv"
  shows "fold (\<lambda>i v. v[i := v ! (i + 1)]) [index ..< n] argv
     = take index argv @ take (n - index) (drop (Suc index) argv) @ drop n argv"
  using assms
proof (induction n)
  case (Suc n)
  show ?case
  proof (cases "index = Suc n")
    case True
    then show ?thesis by simp
  next
    case False
    have n: "index \<le> n" "Suc n < length argv" using Suc.prems False by simp_all
    have "[index ..< Suc n] = [index ..< n] @ [n]" using n by simp
    moreover have "drop n argv = argv ! n # argv ! Suc n # drop (Suc (Suc n)) argv"
      using n by (metis Cons_nth_drop_Suc Suc_lessD)
    moreover have "drop (Suc n) argv = argv ! Suc n # drop (Suc (Suc n)) argv"
      using n by (metis Cons_nth_drop_Suc)
    moreover have "take (Suc n - index) (drop (Suc index) argv)
        = take (n - index) (drop (Suc index) argv) @ [argv ! Suc n]"
      using n by (simp add: Suc_diff_le take_Suc_conv_app_nth)
    ultimately show ?thesis using Suc.IH n by (auto simp: nth_append list_update_append)
  qed
qed simp

text \<open>\<open>remove_arg\<close> removes exactly the argument at the index: the arguments before it stay, those after
  it move down by one place, and the array is again terminated by the null pointer.\<close>

lemma remove_arg_correct:
  assumes "index < argc" "argc < length argv" "remove_arg argc argv index = (argc', argv')"
  shows "argc' = argc - 1" "take argc' argv' = take index argv @ drop (Suc index) (take argc argv)"
    "argv' ! argc' = None" "length argv' = length argv"
proof -
  have n: "index \<le> argc - 1" "argc - 1 < length argv" using assms by simp_all
  show c: "argc' = argc - 1" using assms(3) by (simp add: remove_arg_def Let_def)
  have "argv' = (fold (\<lambda>i v. v[i := v ! (i + 1)]) [index ..< argc - 1] argv)[argc - 1 := None]"
    using assms(3) by (auto simp: remove_arg_def Let_def)
  then have v: "argv' = (take index argv @ take (argc - 1 - index) (drop (Suc index) argv)
      @ drop (argc - 1) argv)[argc - 1 := None]" unfolding remove_arg_shift [OF n] .
  from v n show "argv' ! argc' = None" "length argv' = length argv" by (simp_all add: c)
  from v n assms(1,2) show "take argc' argv' = take index argv @ drop (Suc index) (take argc argv)"
    by (simp add: c drop_take)
qed

lemma mul_u64_overflow_exact:
  "mul_u64_overflow a b = (2 ^ 64 \<le> unat a * unat b, a * b)"
  "\<not> fst (mul_u64_overflow a b) \<Longrightarrow> unat (snd (mul_u64_overflow a b)) = unat a * unat b"
proof -
  have m: "unat UINT64_MAX = 2 ^ 64 - 1" by (simp add: UINT64_MAX_def unsigned_minus_1_eq_mask mask_eq_exp_minus_1)
  have "b > UINT64_MAX div a \<longleftrightarrow> 2 ^ 64 \<le> unat a * unat b" if "a \<noteq> 0"
  proof -
    have "0 < unat a" using that by (simp add: unat_gt_0)
    then have "(2 ^ 64 - 1) div unat a < unat b \<longleftrightarrow> 2 ^ 64 - 1 < unat b * unat a"
      by (rule div_less_iff_less_mult)
    then show ?thesis by (simp add: word_less_nat_alt unat_div m mult.commute) linarith
  qed
  then show e: "mul_u64_overflow a b = (2 ^ 64 \<le> unat a * unat b, a * b)"
    by (cases "a = 0") (simp_all add: mul_u64_overflow_def)
  show "unat (snd (mul_u64_overflow a b)) = unat a * unat b" if "\<not> fst (mul_u64_overflow a b)"
    using that by (simp add: e unat_word_ariths)
qed

lemma add_u64_overflow_exact:
  "add_u64_overflow a b = (2 ^ 64 \<le> unat a + unat b, a + b)"
  "\<not> fst (add_u64_overflow a b) \<Longrightarrow> unat (snd (add_u64_overflow a b)) = unat a + unat b"
proof -
  have "unat (UINT64_MAX - b) = 2 ^ 64 - 1 - unat b"
    using unat_u64_less(1) [of b] by (simp add: UINT64_MAX_def unat_sub_if' unsigned_minus_1_eq_mask mask_eq_exp_minus_1)
  then show e: "add_u64_overflow a b = (2 ^ 64 \<le> unat a + unat b, a + b)"
    using unat_u64_less(1) [of b] by (auto simp: add_u64_overflow_def word_less_nat_alt)
  show "unat (snd (add_u64_overflow a b)) = unat a + unat b" if "\<not> fst (add_u64_overflow a b)"
    using that by (simp add: e unat_word_ariths)
qed

subsection \<open>Byte order\<close>

lemma endswap16_bytes: "endswap16 (le_word [a, b]) = le_word [b, a]"
  by (rule u16_eqI) (simp add: endswap16_def bit_simps bit_beyond upt_rec)

lemma endswap32_bytes: "endswap32 (le_word [a, b, c, d]) = le_word [d, c, b, a]"
  by (rule u32_eqI) (simp add: endswap32_def bit_simps bit_beyond upt_rec)

lemma endswap64_bytes: "endswap64 (le_word [a, b, c, d, e, f, g, h]) = le_word [h, g, f, e, d, c, b, a]"
  by (rule u64_eqI) (simp add: endswap64_def upt64 bit_simps bit_beyond)

lemma list_of_length:
  "length bs = 2 \<Longrightarrow> \<exists>a b. bs = [a, b]"
  "length bs = 4 \<Longrightarrow> \<exists>a b c d. bs = [a, b, c, d]"
  "length bs = 8 \<Longrightarrow> \<exists>a b c d e f g h. bs = [a, b, c, d, e, f, g, h]"
  by (simp_all add: length_Suc_conv numeral_eq_Suc) blast+

lemma bytes_of_le_word: "8 * length bs = LENGTH('a::len) \<Longrightarrow> le_bytes (length bs) (le_word bs :: 'a word) = bs"
proof -
  have "le_bytes (length bs) (le_word bs :: 'a word) = bs" if "8 * length bs \<le> LENGTH('a)" for bs
    using that
  proof (induction bs)
    case (Cons b bs)
    have "ucast (ucast b OR push_bit 8 (le_word bs) :: 'a word) = b"
      by (rule bit_word_eqI) (use Cons.prems in \<open>auto simp: bit_simps\<close>)
    moreover have "le_bytes (length bs) (drop_bit 8 (ucast b OR push_bit 8 (le_word bs)) :: 'a word)
        = le_bytes (length bs) (le_word bs :: 'a word)"
    proof -
      have tb: "le_bytes n (v :: 'a word) = le_bytes n (take_bit (8 * n) v)" for n v
      proof (induction n arbitrary: v)
        case (Suc n)
        have "ucast (take_bit (8 * Suc n) v) = (ucast v :: u8)" by (rule bit_word_eqI) (auto simp: bit_simps)
        moreover have "le_bytes n (drop_bit 8 (take_bit (8 * Suc n) v)) = le_bytes n (drop_bit 8 v)"
          using Suc [of "drop_bit 8 v"] Suc [of "drop_bit 8 (take_bit (8 * Suc n) v)"]
          by (simp add: drop_bit_take_bit)
        ultimately show ?case by simp
      qed simp
      have "take_bit (8 * length bs) (drop_bit 8 (ucast b OR push_bit 8 (le_word bs)) :: 'a word)
          = take_bit (8 * length bs) (le_word bs)"
        by (rule bit_word_eqI) (use Cons.prems in \<open>auto simp: bit_simps bit_beyond\<close>)
      then show ?thesis using tb [of "length bs"] by metis
    qed
    ultimately show ?case using Cons by simp
  qed simp
  then show "8 * length bs = LENGTH('a) \<Longrightarrow> le_bytes (length bs) (le_word bs :: 'a word) = bs" by simp
qed

lemma le_bytes_word: "length bs = n \<Longrightarrow> 8 * n = LENGTH('a::len) \<Longrightarrow> le_bytes n (le_word bs :: 'a word) = bs"
  using bytes_of_le_word by blast

lemma endswap_loaded:
  "length bs = 2 \<Longrightarrow> ENDSWAP16 big (native big bs) = le_word bs"
  "length bs = 4 \<Longrightarrow> ENDSWAP32 big (native big bs) = le_word bs"
  "length bs = 8 \<Longrightarrow> ENDSWAP64 big (native big bs) = le_word bs"
  by (auto dest!: list_of_length simp del: le_word.simps simp: ENDSWAP16_def ENDSWAP32_def ENDSWAP64_def native_def
      endswap16_bytes endswap32_bytes endswap64_bytes)

lemma endswap_stored:
  "native_bytes big 2 (ENDSWAP16 big v) = le_bytes 2 v" "native_bytes big 4 (ENDSWAP32 big w) = le_bytes 4 w"
  "native_bytes big 8 (ENDSWAP64 big x) = le_bytes 8 x"
proof -
  have "rev (le_bytes 2 (endswap16 v)) = le_bytes 2 v"
  proof -
    obtain a b where ab: "le_bytes 2 v = [a, b]" using list_of_length(1) [of "le_bytes 2 v"] by auto
    moreover have "v = le_word (le_bytes 2 v)" by (rule le_word_bytes [symmetric]) simp
    ultimately have "endswap16 v = le_word [b, a]" by (metis endswap16_bytes)
    with ab show ?thesis using le_bytes_word [where 'a = 16, of "[b, a]" 2] by (simp del: le_word.simps)
  qed
  moreover have "rev (le_bytes 4 (endswap32 w)) = le_bytes 4 w"
  proof -
    obtain a b c d where ab: "le_bytes 4 w = [a, b, c, d]" using list_of_length(2) [of "le_bytes 4 w"] by auto
    moreover have "w = le_word (le_bytes 4 w)" by (rule le_word_bytes [symmetric]) simp
    ultimately have "endswap32 w = le_word [d, c, b, a]" by (metis endswap32_bytes)
    with ab show ?thesis using le_bytes_word [where 'a = 32, of "[d, c, b, a]" 4] by (simp del: le_word.simps)
  qed
  moreover have "rev (le_bytes 8 (endswap64 x)) = le_bytes 8 x"
  proof -
    obtain a b c d e f g h where ab: "le_bytes 8 x = [a, b, c, d, e, f, g, h]"
      using list_of_length(3) [of "le_bytes 8 x"] by auto
    moreover have "x = le_word (le_bytes 8 x)" by (rule le_word_bytes [symmetric]) simp
    ultimately have "endswap64 x = le_word [h, g, f, e, d, c, b, a]" by (metis endswap64_bytes)
    with ab show ?thesis using le_bytes_word [where 'a = 64, of "[h, g, f, e, d, c, b, a]" 8] by (simp del: le_word.simps)
  qed
  ultimately show "native_bytes big 2 (ENDSWAP16 big v) = le_bytes 2 v" "native_bytes big 4 (ENDSWAP32 big w) = le_bytes 4 w"
    "native_bytes big 8 (ENDSWAP64 big x) = le_bytes 8 x"
    by (simp_all add: ENDSWAP16_def ENDSWAP32_def ENDSWAP64_def native_bytes_def)
qed

text \<open>C36: \<open>ENDSWAP\<close> makes the on-disk structures little-endian on every host: swapping what a host of either
  byte order loads from two, four or eight bytes gives their little-endian value, and storing a
  swapped value writes its little-endian bytes.\<close>

theorem endswap_little_endian:
  "ENDSWAP16 big (native big [a, b]) = le_word [a, b] \<and> native_bytes big 2 (ENDSWAP16 big v) = le_bytes 2 v
   \<and> ENDSWAP32 big (native big [a, b, c, d]) = le_word [a, b, c, d]
   \<and> native_bytes big 4 (ENDSWAP32 big w) = le_bytes 4 w
   \<and> ENDSWAP64 big (native big [a, b, c, d, e, f, g, h]) = le_word [a, b, c, d, e, f, g, h]
   \<and> native_bytes big 8 (ENDSWAP64 big x) = le_bytes 8 x"
  by (simp del: le_word.simps add: endswap_loaded endswap_stored)

subsection \<open>Cylinders, heads and sectors\<close>

text \<open>The numbers that a CHS triple encodes: the cylinder has two bits in the byte of the sector.\<close>

definition chs_cylinder :: "u8 \<times> u8 \<times> u8 \<Rightarrow> u64" where
  "chs_cylinder = (\<lambda>(h, sc, c). ucast c OR push_bit 2 (ucast (sc AND 0xc0)))"

definition chs_sector :: "u8 \<times> u8 \<times> u8 \<Rightarrow> u64" where
  "chs_sector = (\<lambda>(h, sc, c). ucast (sc AND 0x3f))"

definition chs_head :: "u8 \<times> u8 \<times> u8 \<Rightarrow> u64" where
  "chs_head = (\<lambda>(h, sc, c). ucast h)"

lemma small_bits: "take_bit k x = x \<Longrightarrow> k \<le> n \<Longrightarrow> \<not> bit (x::u64) n"
  by (metis bit_take_bit_iff linorder_not_le)

lemma chs_fields:
  fixes head sector cyl :: u64
  assumes "head < 256" "sector < 64" "cyl < 1024"
  defines "t \<equiv> (ucast head :: u8, ucast (drop_bit 2 cyl AND 0xc0) OR ucast (sector AND 0x3f) :: u8, ucast cyl :: u8)"
  shows "chs_head t = head" "chs_sector t = sector" "chs_cylinder t = cyl"
proof -
  have "take_bit 8 head = head" "take_bit 6 sector = sector" "take_bit 10 cyl = cyl"
    using assms by (simp_all add: take_bit_eq_mod word_arith_nat_mod word_less_nat_alt)
  note b = small_bits [OF this(1)] and s = small_bits [OF this(2)] and c = small_bits [OF this(3)]
  show "chs_head t = head" unfolding t_def chs_head_def
    by (rule u64_eqI) (simp add: upt64 bit_simps b)
  show "chs_sector t = sector" unfolding t_def chs_sector_def
    by (rule u64_eqI) (simp add: upt64 bit_simps s)
  show "chs_cylinder t = cyl" unfolding t_def chs_cylinder_def
    by (rule u64_eqI) (simp add: upt64 bit_simps c s)
qed

text \<open>C37: \<open>lba2chs\<close> encodes every block address below 1024 cylinders so that it can be read back, with a head
  below 255 and a sector from 1 to 63; every larger address gets the standard value for addresses
  that do not fit.\<close>

theorem lba2chs_round_trip:
  "if unat lba < 1024 * 255 * 63
   then (let t = lba2chs lba in (unat (chs_cylinder t) * 255 + unat (chs_head t)) * 63 + unat (chs_sector t) = unat lba + 1
      \<and> unat (chs_head t) < 255 \<and> 1 \<le> unat (chs_sector t) \<and> unat (chs_sector t) \<le> 63)
   else lba2chs lba = (0xfe, 0xff, 0xff)"
proof -
  let ?n = "unat lba"
  define cyl head sector where "cyl = lba div (255 * 63)" and "head = (lba div 63) mod 255" and "sector = lba mod 63 + 1"
  have u: "unat cyl = ?n div 16065" "unat head = ?n div 63 mod 255" "unat sector = ?n mod 63 + 1"
  proof -
    show "unat cyl = ?n div 16065" by (simp add: cyl_def unat_div)
    show "unat head = ?n div 63 mod 255" by (simp add: head_def unat_div unat_mod)
    have "?n mod 63 < 63" by simp
    then show "unat sector = ?n mod 63 + 1" by (simp add: sector_def unat_word_ariths unat_mod)
  qed
  have big: "lba > 63 * 255 * 1024 \<or> cyl \<ge> 1024 \<longleftrightarrow> 1024 * 255 * 63 \<le> ?n"
    by (auto simp: word_less_nat_alt word_le_nat_alt u less_eq_div_iff_mult_less_eq)
  show ?thesis
  proof (cases "?n < 1024 * 255 * 63")
    case False
    then show ?thesis using big by (simp add: lba2chs_def cyl_def)
  next
    case True
    then have "cyl < 1024" "head < 256" "sector < 64"
      using big u by (auto simp: word_less_nat_alt less_Suc_eq_le)
    note f = chs_fields [OF this(2,3,1)]
    have l: "lba2chs lba = (ucast head, ucast (drop_bit 2 cyl AND 0xc0) OR ucast (sector AND 0x3f), ucast cyl)"
      using True big by (simp add: lba2chs_def cyl_def head_def sector_def Let_def)
    have "(?n div 16065 * 255 + ?n div 63 mod 255) * 63 + (?n mod 63 + 1) = ?n + 1"
    proof -
      have "?n div 16065 = ?n div 63 div 255" by (simp add: div_mult2_eq [symmetric])
      then have "?n div 16065 * 255 + ?n div 63 mod 255 = ?n div 63" by simp
      then show ?thesis by simp
    qed
    moreover have "?n mod 63 + 1 \<le> 63" using mod_less_divisor [of 63 ?n] by (simp add: Suc_le_eq)
    ultimately show ?thesis using True by (simp add: l f u)
  qed
qed

end
