(* ===== verification/Limine_Device.thy ===== *)
theory Limine_Device
  imports Limine_Util
begin

text \<open>
  The block device layer of \<open>limine/limine.c\<close>: a write-back cache of one block over a file or a disk,
  reads and writes of arbitrary ranges through it, and the record of overwritten data with which an
  installation is undone.

  The state holds the static variables of the program and the stream of the device. Every call of the C
  library that can fail (\<open>fseek\<close>, \<open>fread\<close>, \<open>fwrite\<close>, \<open>malloc\<close>, \<open>realloc\<close>, \<open>fopen\<close>) asks \<open>lib_ok\<close> whether
  its turn, counted by \<open>lib_n\<close>, succeeds; what the library promises of a successful call is in the
  definitions here, and a failed write leaves the contents of the device as they were. \<open>malloc\<close> numbers
  the objects it returns, \<open>freed\<close> lists the arguments of \<open>free\<close>. Diagnostic output is left out.
\<close>

section \<open>State\<close>

datatype cache_state_t = CACHE_CLEAN | CACHE_DIRTY

record uninstall_data_t =
  ud_data :: "u8 list"
  ud_ptr :: nat
  ud_loc :: u64
  ud_count :: u64

definition UNINSTALL_DATA_MAX :: nat where
  "UNINSTALL_DATA_MAX = 256"

record device_state =
  dev_data :: "u8 list"
  dev_pos :: nat
  lib_ok :: "nat \<Rightarrow> bool"
  lib_n :: nat
  long_max :: nat
  heap_next :: nat
  freed :: "nat list"
  cache_state :: cache_state_t
  cached_block :: u64
  cache :: "u8 list"
  block_size :: u64
  uninstalling :: bool
  uninstall_data :: "uninstall_data_t list"
  uninstall_data_rev :: "uninstall_data_t list"
  uninstall_data_i :: u64
  empty_lba :: nat

section \<open>The C library\<close>

definition lib_call :: "device_state \<Rightarrow> bool \<times> device_state" where
  "lib_call d = (lib_ok d (lib_n d), d\<lparr>lib_n := Suc (lib_n d)\<rparr>)"

text \<open>A negative offset (\<open>(long)pos\<close> with the top bit set) makes \<open>fseek\<close> fail.\<close>

definition fseek_set :: "u64 \<Rightarrow> device_state \<Rightarrow> bool \<times> device_state" where
  "fseek_set pos d =
     (let (ok, d1) = lib_call d
      in if ok \<and> unat pos < 2 ^ 63 then (True, d1\<lparr>dev_pos := unat pos\<rparr>) else (False, d1))"

definition fseek_cur :: "nat \<Rightarrow> device_state \<Rightarrow> bool \<times> device_state" where
  "fseek_cur off d =
     (let (ok, d1) = lib_call d in if ok then (True, d1\<lparr>dev_pos := dev_pos d1 + off\<rparr>) else (False, d1))"

definition rewind :: "device_state \<Rightarrow> device_state" where
  "rewind d = d\<lparr>dev_pos := 0\<rparr>"

text \<open>\<open>fread(buf, n, 1, device)\<close>: the bytes transferred, and whether the result is 1. At the end of the
  file the bytes that are left are transferred.\<close>

definition fread1 :: "nat \<Rightarrow> device_state \<Rightarrow> u8 list \<times> bool \<times> device_state" where
  "fread1 n d =
     (let (ok, d1) = lib_call d;
          bs = take n (drop (dev_pos d1) (dev_data d1))
      in if ok then (bs, n \<noteq> 0 \<and> length bs = n, d1\<lparr>dev_pos := dev_pos d1 + length bs\<rparr>)
         else ([], False, d1))"

definition overwrite :: "u8 list \<Rightarrow> nat \<Rightarrow> u8 list \<Rightarrow> u8 list" where
  "overwrite xs pos bs =
     (let ys = xs @ replicate (pos - length xs) 0 in take pos ys @ bs @ drop (pos + length bs) ys)"

definition fwrite1 :: "u8 list \<Rightarrow> device_state \<Rightarrow> bool \<times> device_state" where
  "fwrite1 bs d =
     (let (ok, d1) = lib_call d
      in if ok \<and> bs \<noteq> [] then (True, d1\<lparr>dev_data := overwrite (dev_data d1) (dev_pos d1) bs,
                                        dev_pos := dev_pos d1 + length bs\<rparr>)
         else (False, d1))"

definition malloc :: "device_state \<Rightarrow> nat option \<times> device_state" where
  "malloc d =
     (let (ok, d1) = lib_call d
      in if ok then (Some (heap_next d1), d1\<lparr>heap_next := Suc (heap_next d1)\<rparr>) else (None, d1))"

definition free :: "nat \<Rightarrow> device_state \<Rightarrow> device_state" where
  "free p d = (if p = 0 then d else d\<lparr>freed := freed d @ [p]\<rparr>)"

section \<open>Positioning\<close>

fun seek_jumps :: "nat \<Rightarrow> nat \<Rightarrow> device_state \<Rightarrow> bool \<times> device_state" where
  "seek_jumps 0 jump_size d = (True, d)"
| "seek_jumps (Suc jumps) jump_size d =
     (let (ok, d1) = fseek_cur jump_size d in if \<not> ok then (False, d1) else seek_jumps jumps jump_size d1)"

text \<open>The first case is \<open>sizeof(long) >= 8\<close>.\<close>

definition set_pos :: "u64 \<Rightarrow> device_state \<Rightarrow> bool \<times> device_state" where
  "set_pos pos d =
     (if long_max d \<ge> 2 ^ 63 - 1 then fseek_set pos d
      else let jump_size = long_max d div 2 + 1;
               last_jump = unat pos mod jump_size;
               jumps = unat pos div jump_size;
               (ok, d1) = seek_jumps jumps jump_size (rewind d)
           in if \<not> ok then (False, d1) else fseek_cur last_jump d1)"

section \<open>The cache\<close>

text \<open>\<open>overlay bs buf\<close>: the buffer after its first bytes have been replaced.\<close>

definition overlay :: "u8 list \<Rightarrow> u8 list \<Rightarrow> u8 list" where
  "overlay bs buf = bs @ drop (length bs) buf"

fun device_init_loop :: "nat list \<Rightarrow> device_state \<Rightarrow> bool \<times> device_state" where
  "device_init_loop [] d = (False, d)"
| "device_init_loop (guess # guesses) d =
     (let (ok, d1) = lib_call d
      in if \<not> ok then (False, d1)
         else let d2 = rewind (d1\<lparr>cache := take guess (cache d1 @ replicate guess 0)\<rparr>);
                  (bs, full, d3) = fread1 guess d2;
                  d4 = d3\<lparr>cache := overlay bs (cache d3)\<rparr>
              in if \<not> full then device_init_loop guesses d4
                 else (True, d4\<lparr>block_size := of_nat guess, cache_state := CACHE_CLEAN, cached_block := 0\<rparr>))"

definition device_init :: "device_state \<Rightarrow> bool \<times> device_state" where
  "device_init d = device_init_loop [512, 2048, 4096] d"

definition device_flush_cache :: "device_state \<Rightarrow> bool \<times> device_state" where
  "device_flush_cache d =
     (if cache_state d = CACHE_CLEAN then (True, d)
      else let (ok, d1) = set_pos (cached_block d * block_size d) d
           in if \<not> ok then (False, d1)
              else let (ok, d2) = fwrite1 (cache d1) d1
                   in if \<not> ok then (False, d2) else (True, d2\<lparr>cache_state := CACHE_CLEAN\<rparr>))"

definition device_cache_block :: "u64 \<Rightarrow> device_state \<Rightarrow> bool \<times> device_state" where
  "device_cache_block block d =
     (if cached_block d = block then (True, d)
      else let (ok, d1) = (if cache_state d = CACHE_DIRTY then device_flush_cache d else (True, d))
           in if \<not> ok then (False, d1)
              else let (ok, d2) = set_pos (block * block_size d1) d1
                   in if \<not> ok then (False, d2)
                      else let (bs, full, d3) = fread1 (unat (block_size d2)) d2;
                               d4 = d3\<lparr>cache := overlay bs (cache d3)\<rparr>
                           in if \<not> full then (False, d4) else (True, d4\<lparr>cached_block := block\<rparr>))"

section \<open>Ranges\<close>

text \<open>The part of the range that lies in the current block. A block size of 0 would be a division by zero
  in the code; here it is a failure.\<close>

definition chunk_at :: "u64 \<Rightarrow> nat \<Rightarrow> u64 \<Rightarrow> nat \<Rightarrow> nat" where
  "chunk_at loc count bsize progress =
     (let offset = unat ((loc + of_nat progress) mod bsize) in min (count - progress) (unat bsize - offset))"

lemma chunk_at_pos: "progress < count \<Longrightarrow> bsize \<noteq> 0 \<Longrightarrow> 0 < chunk_at loc count bsize progress"
  using word_mod_less_divisor [of bsize "loc + of_nat progress"]
  by (simp add: chunk_at_def word_less_nat_alt word_neq_0_conv)

function device_read_loop :: "u64 \<Rightarrow> nat \<Rightarrow> nat \<Rightarrow> u8 list \<Rightarrow> device_state \<Rightarrow> u8 list option \<times> device_state"
  where
  "device_read_loop loc count progress buf d =
     (if progress < count
      then if block_size d = 0 then (None, d)
      else let block = (loc + of_nat progress) div block_size d;
               (ok, d1) = device_cache_block block d
           in if \<not> ok then (None, d1)
              else let chunk = chunk_at loc count (block_size d) progress;
                       offset = unat ((loc + of_nat progress) mod block_size d)
                   in device_read_loop loc count (progress + chunk)
                        (buf @ take chunk (drop offset (cache d1))) d1
      else (Some buf, d))"
  by pat_completeness auto
termination
  by (relation "measure (\<lambda>(loc, count, progress, buf, d). count - progress)")
    (auto dest: chunk_at_pos intro!: diff_less_mono2)

declare device_read_loop.simps [simp del]

definition device_read :: "u64 \<Rightarrow> nat \<Rightarrow> device_state \<Rightarrow> u8 list option \<times> device_state" where
  "device_read loc count d = device_read_loop loc count 0 [] d"

function device_write_loop :: "u8 list \<Rightarrow> u64 \<Rightarrow> nat \<Rightarrow> device_state \<Rightarrow> bool \<times> device_state" where
  "device_write_loop buffer loc progress d =
     (if progress < length buffer
      then if block_size d = 0 then (False, d)
      else let block = (loc + of_nat progress) div block_size d;
               (ok, d1) = device_cache_block block d
           in if \<not> ok then (False, d1)
              else let chunk = chunk_at loc (length buffer) (block_size d) progress;
                       offset = unat ((loc + of_nat progress) mod block_size d);
                       d2 = d1\<lparr>cache := overwrite (cache d1) offset (take chunk (drop progress buffer)),
                               cache_state := CACHE_DIRTY\<rparr>
                   in device_write_loop buffer loc (progress + chunk) d2
      else (True, d))"
  by pat_completeness auto
termination
  by (relation "measure (\<lambda>(buffer, loc, progress, d). length buffer - progress)")
    (auto dest: chunk_at_pos intro!: diff_less_mono2)

declare device_write_loop.simps [simp del]

text \<open>The bytes about to be overwritten are saved in the next entry of \<open>uninstall_data\<close>, which counts only
  when the write has succeeded.\<close>

definition device_write :: "u8 list \<Rightarrow> u64 \<Rightarrow> device_state \<Rightarrow> bool \<times> device_state" where
  "device_write buffer loc d =
     (if uninstalling d then device_write_loop buffer loc 0 d
      else if unat (uninstall_data_i d) \<ge> UNINSTALL_DATA_MAX then (False, d)
      else let i = unat (uninstall_data_i d);
               (p, d1) = malloc d
           in (case p of
                 None \<Rightarrow> (False, d1\<lparr>uninstall_data := (uninstall_data d1)[i := (uninstall_data d1 ! i)\<lparr>ud_ptr := 0\<rparr>]\<rparr>)
               | Some ptr \<Rightarrow>
                   let d2 = d1\<lparr>uninstall_data := (uninstall_data d1)[i := (uninstall_data d1 ! i)\<lparr>ud_ptr := ptr\<rparr>]\<rparr>;
                       (old, d3) = device_read loc (length buffer) d2
                   in (case old of
                         None \<Rightarrow> (False, free ptr d3)
                       | Some bs \<Rightarrow>
                           let d4 = d3\<lparr>uninstall_data := (uninstall_data d3)[i := \<lparr>ud_data = bs, ud_ptr = ptr,
                                         ud_loc = loc, ud_count = of_nat (length buffer)\<rparr>]\<rparr>;
                               (ok, d5) = device_write_loop buffer loc 0 d4
                           in if \<not> ok then (False, free ptr d5)
                              else (True, d5\<lparr>uninstall_data_i := uninstall_data_i d5 + 1\<rparr>))))"

section \<open>The device behind the cache\<close>

lemma overwrite_in:
  assumes "pos + length bs \<le> length xs"
  shows "length (overwrite xs pos bs) = length xs"
    and "i < length xs \<Longrightarrow> overwrite xs pos bs ! i = (if pos \<le> i \<and> i < pos + length bs then bs ! (i - pos) else xs ! i)"
proof -
  have "pos - length xs = 0" using assms by simp
  then have e: "overwrite xs pos bs = take pos xs @ bs @ drop (pos + length bs) xs" by (simp add: overwrite_def)
  show "length (overwrite xs pos bs) = length xs" using assms by (simp add: e)
  show "i < length xs \<Longrightarrow> overwrite xs pos bs ! i = (if pos \<le> i \<and> i < pos + length bs then bs ! (i - pos) else xs ! i)"
    using assms by (auto simp: e nth_append)
qed

lemma overwrite_same: "pos + n \<le> length xs \<Longrightarrow> overwrite xs pos (take n (drop pos xs)) = xs"
  by (rule nth_equalityI) (auto simp: overwrite_in)

text \<open>Writing a range inside a block that was cut out, and putting the block back.\<close>

lemma overwrite_block:
  assumes "p + n \<le> length xs" "length ys = n" "off + length bs \<le> n"
  shows "overwrite xs p (overwrite ys off bs) = overwrite (overwrite xs p ys) (p + off) bs"
proof -
  have l: "length (overwrite ys off bs) = n" "length (overwrite xs p ys) = length xs"
    using assms by (simp_all add: overwrite_in)
  show ?thesis
  proof (rule nth_equalityI)
    show "length (overwrite xs p (overwrite ys off bs)) = length (overwrite (overwrite xs p ys) (p + off) bs)"
      using assms l by (simp add: overwrite_in(1))
    fix i assume "i < length (overwrite xs p (overwrite ys off bs))"
    then have "i < length xs" using assms l by (simp add: overwrite_in(1))
    then show "overwrite xs p (overwrite ys off bs) ! i = overwrite (overwrite xs p ys) (p + off) bs ! i"
      using assms l by (auto simp: overwrite_in)
  qed
qed

lemma overwrite_chunks:
  assumes "p + length bs \<le> length xs" "n \<le> length bs"
  shows "overwrite (overwrite xs p (take n bs)) (p + n) (drop n bs) = overwrite xs p bs"
  by (rule nth_equalityI) (use assms in \<open>auto simp: overwrite_in min_def\<close>)

lemma overwrite_twice:
  assumes "p + length bs \<le> length xs" "length cs = length bs"
  shows "overwrite (overwrite xs p bs) p cs = overwrite xs p cs"
  by (rule nth_equalityI) (use assms in \<open>auto simp: overwrite_in\<close>)

text \<open>All further library calls succeed.\<close>

definition all_ok :: "device_state \<Rightarrow> bool" where
  "all_ok d \<longleftrightarrow> (\<forall>k \<ge> lib_n d. lib_ok d k)"

abbreviation bsize :: "device_state \<Rightarrow> nat" where
  "bsize d \<equiv> unat (block_size d)"

definition cached_at :: "device_state \<Rightarrow> nat" where
  "cached_at d = unat (cached_block d) * bsize d"

definition dev_ok :: "device_state \<Rightarrow> bool" where
  "dev_ok d \<longleftrightarrow> 1 < bsize d \<and> length (cache d) = bsize d \<and> length (dev_data d) < 2 ^ 63
     \<and> (cached_block d = - 1 \<and> cache_state d = CACHE_CLEAN
        \<or> cached_at d + bsize d \<le> length (dev_data d)
          \<and> (cache_state d = CACHE_CLEAN \<longrightarrow> cache d = take (bsize d) (drop (cached_at d) (dev_data d))))"

text \<open>The contents of the device as the program sees them: the file with the dirty block in place.\<close>

definition view :: "device_state \<Rightarrow> u8 list" where
  "view d = (if cache_state d = CACHE_DIRTY then overwrite (dev_data d) (cached_at d) (cache d) else dev_data d)"

text \<open>What no transfer changes.\<close>

definition dev_frame :: "device_state \<Rightarrow> device_state \<Rightarrow> bool" where
  "dev_frame d d' \<longleftrightarrow> (\<exists>x p n c b k. d' = d\<lparr>dev_data := x, dev_pos := p, lib_n := n, cache_state := c,
      cached_block := b, cache := k\<rparr> \<and> length x = length (dev_data d) \<and> lib_n d \<le> n)"

lemma dev_frame_refl: "dev_frame d d"
  unfolding dev_frame_def
  by (rule exI [of _ "dev_data d"], rule exI [of _ "dev_pos d"], rule exI [of _ "lib_n d"],
      rule exI [of _ "cache_state d"], rule exI [of _ "cached_block d"], rule exI [of _ "cache d"]) simp

lemma dev_frame_trans: "dev_frame d d' \<Longrightarrow> dev_frame d' d'' \<Longrightarrow> dev_frame d d''"
  by (fastforce simp: dev_frame_def)

lemma dev_frame_simps:
  assumes "dev_frame d d'"
  shows "block_size d' = block_size d" "uninstalling d' = uninstalling d" "uninstall_data d' = uninstall_data d"
    "uninstall_data_rev d' = uninstall_data_rev d" "uninstall_data_i d' = uninstall_data_i d"
    "heap_next d' = heap_next d" "freed d' = freed d" "length (dev_data d') = length (dev_data d)"
    "all_ok d \<Longrightarrow> all_ok d'" "long_max d' = long_max d" "empty_lba d' = empty_lba d"
  using assms by (auto simp: dev_frame_def all_ok_def)

lemma seek_jumps_ok:
  "all_ok d \<Longrightarrow> \<exists>n. seek_jumps k j d = (True, d\<lparr>dev_pos := dev_pos d + k * j, lib_n := n\<rparr>) \<and> lib_n d \<le> n"
proof (induction k arbitrary: d)
  case 0
  then show ?case by (auto intro: exI [of _ "lib_n d"])
next
  case (Suc k)
  let ?d = "d\<lparr>lib_n := Suc (lib_n d), dev_pos := dev_pos d + j\<rparr>"
  have "all_ok ?d" using Suc.prems by (simp add: all_ok_def)
  from Suc.IH [OF this] Suc.prems show ?case
    by (auto simp: fseek_cur_def lib_call_def all_ok_def add.assoc)
qed

text \<open>Where \<open>long\<close> has 64 bits, a position with the top bit set is refused.\<close>

definition too_far :: "u64 \<Rightarrow> device_state \<Rightarrow> bool" where
  "too_far pos d \<longleftrightarrow> long_max d \<ge> 2 ^ 63 - 1 \<and> unat pos \<ge> 2 ^ 63"

lemma set_pos_any:
  assumes "all_ok d"
  shows "\<exists>n. set_pos pos d = (if too_far pos d then (False, d\<lparr>lib_n := n\<rparr>)
     else (True, d\<lparr>dev_pos := unat pos, lib_n := n\<rparr>)) \<and> lib_n d \<le> n"
proof (cases "long_max d \<ge> 2 ^ 63 - 1")
  case True
  then show ?thesis
    using assms by (intro exI [of _ "Suc (lib_n d)"]) (simp add: set_pos_def fseek_set_def lib_call_def all_ok_def too_far_def)
next
  case False
  let ?j = "long_max d div 2 + 1"
  have "all_ok (rewind d)" using assms by (simp add: all_ok_def rewind_def)
  from seek_jumps_ok [OF this, of "unat pos div ?j" ?j] obtain n where
    n: "seek_jumps (unat pos div ?j) ?j (rewind d)
      = (True, d\<lparr>dev_pos := unat pos div ?j * ?j, lib_n := n\<rparr>)" "lib_n d \<le> n" by (auto simp: rewind_def)
  have e: "unat pos div ?j * ?j + unat pos mod ?j = unat pos" by (rule div_mult_mod_eq)
  have "lib_ok d n" using n(2) assms by (simp add: all_ok_def)
  with False n e have "set_pos pos d = (True, d\<lparr>dev_pos := unat pos, lib_n := Suc n\<rparr>)"
    unfolding set_pos_def Let_def n(1) split_conv by (simp only: fseek_cur_def lib_call_def Let_def) simp
  with False n(2) show ?thesis by (intro exI [of _ "Suc n"]) (simp add: too_far_def)
qed

lemma set_pos_ok:
  assumes "all_ok d" "unat pos < 2 ^ 63"
  shows "\<exists>n. set_pos pos d = (True, d\<lparr>dev_pos := unat pos, lib_n := n\<rparr>) \<and> lib_n d \<le> n"
  using set_pos_any [OF assms(1), of pos] assms(2) by (simp add: too_far_def)

text \<open>The position of a block that lies within the device does not overflow.\<close>

lemma block_pos:
  assumes "unat b * unat n + unat n \<le> len" "len < 2 ^ 63"
  shows "unat ((b::u64) * n) = unat b * unat n" "unat (b * n) < 2 ^ 63"
proof -
  have "unat b * unat n < 2 ^ 64" using assms by simp
  then show "unat (b * n) = unat b * unat n" by (simp add: unat_word_ariths)
  then show "unat (b * n) < 2 ^ 63" using assms by simp
qed

lemma dirty_cached: "dev_ok d \<Longrightarrow> cache_state d = CACHE_DIRTY \<Longrightarrow> cached_at d + bsize d \<le> length (dev_data d)"
  by (auto simp: dev_ok_def)

lemma cache_state_cases: "c \<noteq> CACHE_CLEAN \<longleftrightarrow> c = CACHE_DIRTY"
  by (cases c) simp_all

lemma flush_ok:
  assumes "dev_ok d" "all_ok d"
  shows "\<exists>d'. device_flush_cache d = (True, d') \<and> dev_frame d d' \<and> dev_ok d' \<and> dev_data d' = view d
     \<and> cache_state d' = CACHE_CLEAN \<and> view d' = view d"
proof (cases "cache_state d = CACHE_CLEAN")
  case True
  then show ?thesis using assms by (auto simp: device_flush_cache_def view_def dev_frame_refl)
next
  case False
  then have dirty: "cache_state d = CACHE_DIRTY" by (simp add: cache_state_cases)
  note at = dirty_cached [OF assms(1) dirty]
  have ok: "1 < bsize d" "length (cache d) = bsize d" "length (dev_data d) < 2 ^ 63"
    using assms(1) by (auto simp: dev_ok_def)
  note pos = block_pos [OF at [unfolded cached_at_def] ok(3)]
  obtain n where n: "set_pos (cached_block d * block_size d) d = (True, d\<lparr>dev_pos := cached_at d, lib_n := n\<rparr>)"
    "lib_n d \<le> n" using set_pos_ok [OF assms(2) pos(2)] by (auto simp: pos(1) cached_at_def)
  have lib: "lib_ok d n" using n(2) assms(2) by (simp add: all_ok_def)
  have ne: "cache d \<noteq> []" using ok by auto
  let ?v = "overwrite (dev_data d) (cached_at d) (cache d)"
  define d' where "d' = d\<lparr>dev_pos := cached_at d + length (cache d), lib_n := Suc n, dev_data := ?v,
    cache_state := CACHE_CLEAN\<rparr>"
  have f: "device_flush_cache d = (True, d')"
    using dirty n lib ne by (simp add: device_flush_cache_def fwrite1_def lib_call_def d'_def)
  have len: "length ?v = length (dev_data d)" using at ok by (simp add: overwrite_in)
  have v: "view d = ?v" using dirty by (simp add: view_def)
  have "take (bsize d) (drop (cached_at d) ?v) = cache d"
    by (rule nth_equalityI) (use at ok len in \<open>auto simp: overwrite_in\<close>)
  then have "dev_ok d'" using at ok len by (simp add: dev_ok_def d'_def cached_at_def)
  moreover have "dev_frame d d'"
    unfolding dev_frame_def d'_def
    by (rule exI [of _ ?v], rule exI [of _ "cached_at d + length (cache d)"], rule exI [of _ "Suc n"],
        rule exI [of _ CACHE_CLEAN], rule exI [of _ "cached_block d"], rule exI [of _ "cache d"])
      (use len n(2) in simp)
  ultimately show ?thesis using f v by (simp add: d'_def view_def)
qed

lemma evict_ok:
  assumes "dev_ok d" "all_ok d"
  obtains d1 where "(if cache_state d = CACHE_DIRTY then device_flush_cache d else (True, d)) = (True, d1)"
    "dev_frame d d1" "dev_ok d1" "dev_data d1 = view d" "cache_state d1 = CACHE_CLEAN"
proof (cases "cache_state d = CACHE_DIRTY")
  case True
  then show ?thesis using flush_ok [OF assms] that by auto
next
  case False
  then show ?thesis using that [of d] assms(1) dev_frame_refl
    by (cases "cache_state d") (auto simp: view_def)
qed

lemma cache_block_ok:
  assumes "dev_ok d" "all_ok d" "unat b * bsize d + bsize d \<le> length (dev_data d)"
  shows "\<exists>d'. device_cache_block b d = (True, d') \<and> dev_frame d d' \<and> dev_ok d' \<and> view d' = view d
     \<and> cached_block d' = b \<and> cache d' = take (bsize d) (drop (unat b * bsize d) (view d))
     \<and> dev_data d' \<in> {dev_data d, view d}"
proof (cases "cached_block d = b")
  case True
  have bs: "1 < bsize d" "length (cache d) = bsize d" using assms(1) by (auto simp: dev_ok_def)
  have ne: "cached_block d \<noteq> - 1"
  proof
    assume "cached_block d = - 1"
    then have "unat b = 2 ^ 64 - 1" using True by (simp add: unsigned_minus_1_eq_mask mask_eq_exp_minus_1)
    moreover have "unat b * 2 \<le> unat b * bsize d" using bs by (intro mult_le_mono) simp_all
    ultimately show False using assms(1,3) by (simp add: dev_ok_def)
  qed
  have "cache d = take (bsize d) (drop (cached_at d) (view d))"
  proof (cases "cache_state d")
    case CACHE_CLEAN
    then show ?thesis using assms(1) ne by (simp add: dev_ok_def view_def)
  next
    case CACHE_DIRTY
    with dirty_cached [OF assms(1)] have at: "cached_at d + bsize d \<le> length (dev_data d)" .
    show ?thesis
      by (rule nth_equalityI) (use at bs CACHE_DIRTY in \<open>auto simp: view_def overwrite_in\<close>)
  qed
  with True assms(1) show ?thesis by (auto simp: device_cache_block_def dev_frame_refl cached_at_def)
next
  case False
  obtain d1 where d1: "(if cache_state d = CACHE_DIRTY then device_flush_cache d else (True, d)) = (True, d1)"
    "dev_frame d d1" "dev_ok d1" "dev_data d1 = view d" "cache_state d1 = CACHE_CLEAN"
    by (rule evict_ok [OF assms(1,2)])
  note fr = dev_frame_simps [OF d1(2)]
  have ok1: "all_ok d1" "length (dev_data d1) < 2 ^ 63" "length (cache d1) = bsize d" "1 < bsize d"
    using fr assms(1,2) d1(3) by (auto simp: dev_ok_def)
  have at: "unat b * unat (block_size d1) + unat (block_size d1) \<le> length (dev_data d1)"
    using assms(3) by (simp add: fr)
  note pos = block_pos [OF at ok1(2)]
  obtain n where n: "set_pos (b * block_size d1) d1 = (True, d1\<lparr>dev_pos := unat b * bsize d, lib_n := n\<rparr>)"
    "lib_n d1 \<le> n" using set_pos_ok [OF ok1(1) pos(2)] pos(1) by (auto simp: fr)
  have lib: "lib_ok d1 n" using n(2) ok1(1) by (simp add: all_ok_def)
  let ?blk = "take (bsize d) (drop (unat b * bsize d) (dev_data d1))"
  have lb: "length ?blk = bsize d" using at by (simp add: fr)
  define d' where "d' = d1\<lparr>dev_pos := unat b * bsize d + bsize d, lib_n := Suc n, cache := ?blk, cached_block := b\<rparr>"
  have f: "device_cache_block b d = (True, d')"
    using False d1(1) n lib lb ok1(3,4)
    by (simp add: device_cache_block_def fread1_def lib_call_def overlay_def d'_def fr(1))
  have "dev_ok d'" using ok1 at lb d1(5) by (simp add: dev_ok_def d'_def cached_at_def fr)
  moreover have "dev_frame d1 d'"
    unfolding dev_frame_def d'_def
    by (rule exI [of _ "dev_data d1"], rule exI [of _ "unat b * bsize d + bsize d"], rule exI [of _ "Suc n"],
        rule exI [of _ "cache_state d1"], rule exI [of _ b], rule exI [of _ ?blk])
      (use n(2) in simp)
  ultimately show ?thesis using f d1 dev_frame_trans [OF d1(2)] by (auto simp: d'_def view_def)
qed

text \<open>A block that is not whole within the device cannot be cached. The attempt may leave the cache with
  bytes that belong to no block; what remains true of the state is \<open>dev_sane\<close>.\<close>

definition dev_sane :: "device_state \<Rightarrow> bool" where
  "dev_sane d \<longleftrightarrow> 1 < bsize d \<and> length (cache d) = bsize d \<and> length (dev_data d) < 2 ^ 63"

lemma dev_ok_sane: "dev_ok d \<Longrightarrow> dev_sane d"
  by (simp add: dev_ok_def dev_sane_def)

lemma cache_block_beyond:
  assumes "dev_ok d" "all_ok d" "length (dev_data d) < unat b * bsize d + bsize d" "unat b * bsize d < 2 ^ 64"
  shows "\<exists>d'. device_cache_block b d = (False, d') \<and> dev_frame d d' \<and> dev_sane d'
     \<and> dev_data d' \<in> {dev_data d, view d}"
proof -
  have bs: "1 < bsize d" "length (cache d) = bsize d" using assms(1) by (auto simp: dev_ok_def)
  have "b \<noteq> - 1"
  proof
    assume "b = - 1"
    then have "unat b = 2 ^ 64 - 1" by (simp add: unsigned_minus_1_eq_mask mask_eq_exp_minus_1)
    moreover have "unat b * 2 \<le> unat b * bsize d" using bs by (intro mult_le_mono) simp_all
    ultimately show False using assms(4) by simp
  qed
  then have other: "cached_block d \<noteq> b" using assms(1,3) by (auto simp: dev_ok_def cached_at_def)
  obtain d1 where d1: "(if cache_state d = CACHE_DIRTY then device_flush_cache d else (True, d)) = (True, d1)"
    "dev_frame d d1" "dev_ok d1" "dev_data d1 = view d" "cache_state d1 = CACHE_CLEAN"
    by (rule evict_ok [OF assms(1,2)])
  note fr = dev_frame_simps [OF d1(2)]
  have pos: "unat (b * block_size d) = unat b * bsize d" using assms(4) by (simp add: unat_word_ariths)
  obtain n where n: "set_pos (b * block_size d) d1 = (if too_far (b * block_size d) d1 then (False, d1\<lparr>lib_n := n\<rparr>)
     else (True, d1\<lparr>dev_pos := unat b * bsize d, lib_n := n\<rparr>))" "lib_n d1 \<le> n"
    using set_pos_any [OF fr(9) [OF assms(2)], of "b * block_size d"] unfolding pos by blast
  have lib: "lib_ok d1 n" using n(2) fr(9) [OF assms(2)] by (simp add: all_ok_def)
  let ?blk = "take (bsize d) (drop (unat b * bsize d) (dev_data d1))"
  have short: "length (dev_data d1) - unat b * bsize d < bsize d" "length ?blk < bsize d"
    using assms(3) bs(1) fr(8) by auto
  define d' where "d' = (if too_far (b * block_size d) d1 then d1\<lparr>lib_n := n\<rparr>
    else d1\<lparr>dev_pos := unat b * bsize d + length ?blk, lib_n := Suc n, cache := overlay ?blk (cache d1)\<rparr>)"
  have f: "device_cache_block b d = (False, d')"
    using other d1(1) n lib short by (simp add: device_cache_block_def fread1_def lib_call_def d'_def fr(1) Let_def)
  have "dev_frame d1 d'"
    unfolding dev_frame_def
    by (rule exI [of _ "dev_data d1"], rule exI [of _ "dev_pos d'"], rule exI [of _ "lib_n d'"],
        rule exI [of _ "cache_state d1"], rule exI [of _ "cached_block d1"], rule exI [of _ "cache d'"])
      (use n(2) in \<open>simp add: d'_def\<close>)
  moreover have "dev_sane d'"
    using d1(3) short fr(1) by (auto simp: d'_def dev_sane_def dev_ok_def overlay_def)
  ultimately show ?thesis using f d1(4) dev_frame_trans [OF d1(2)] by (auto simp: d'_def)
qed

section \<open>Reading and writing ranges\<close>

text \<open>The whole blocks of the device: a last, partial block cannot be transferred.\<close>

definition usable :: "device_state \<Rightarrow> nat" where
  "usable d = length (dev_data d) div bsize d * bsize d"

lemma usable_frame: "dev_frame d d' \<Longrightarrow> usable d' = usable d"
  by (simp add: usable_def dev_frame_simps)

lemma range_step:
  assumes "dev_ok d" "unat loc + progress < usable d" "progress < count"
  defines "p \<equiv> unat loc + progress" and "w \<equiv> loc + of_nat progress" and "chunk \<equiv> chunk_at loc count (block_size d) progress"
  shows "unat (w div block_size d) = p div bsize d" "unat (w mod block_size d) = p mod bsize d"
    "unat (w div block_size d) * bsize d + bsize d \<le> length (dev_data d)"
    "chunk \<le> count - progress" "0 < chunk" "p mod bsize d + chunk \<le> bsize d" "block_size d \<noteq> 0"
    "p div bsize d * bsize d + p mod bsize d = p"
proof -
  have bs: "1 < bsize d" "length (dev_data d) < 2 ^ 63" using assms(1) by (auto simp: dev_ok_def)
  have us: "usable d \<le> length (dev_data d)" by (simp add: usable_def)
  then have p: "p < 2 ^ 63" "progress < 2 ^ 64" "p < usable d" using assms(2,3) bs(2) by (auto simp: p_def)
  have w: "unat w = p" unfolding w_def using p by (subst unat_add_of_nat) (simp_all add: p_def)
  show d: "unat (w div block_size d) = p div bsize d" and m: "unat (w mod block_size d) = p mod bsize d"
    by (simp_all add: unat_div unat_mod w)
  have "p div bsize d < length (dev_data d) div bsize d"
    using p(3) bs(1) by (simp add: usable_def div_less_iff_less_mult)
  then have "(p div bsize d + 1) * bsize d \<le> length (dev_data d) div bsize d * bsize d"
    by (intro mult_le_mono1) simp
  also have "\<dots> \<le> length (dev_data d)" by simp
  finally show "unat (w div block_size d) * bsize d + bsize d \<le> length (dev_data d)" by (simp add: d)
  show ne: "block_size d \<noteq> 0" using bs(1) by auto
  have c: "chunk = min (count - progress) (bsize d - p mod bsize d)"
    unfolding chunk_def chunk_at_def Let_def w_def [symmetric] m ..
  show "chunk \<le> count - progress" by (simp add: c)
  show "0 < chunk" unfolding chunk_def by (rule chunk_at_pos [OF assms(3) ne])
  have "p mod bsize d < bsize d" using bs(1) by simp
  then show "p mod bsize d + chunk \<le> bsize d" by (simp add: c)
  show "p div bsize d * bsize d + p mod bsize d = p" by simp
qed

lemma take_in_block:
  assumes "off + k \<le> n"
  shows "take k (drop off (take n (drop q xs))) = take k (drop (q + off) xs)"
proof -
  have "min k (n - off) = k" using assms by simp
  then show ?thesis by (simp add: drop_take add.commute)
qed

lemma device_loops_done:
  "count \<le> progress \<Longrightarrow> device_read_loop loc count progress buf d = (Some buf, d)"
  "length buffer \<le> progress \<Longrightarrow> device_write_loop buffer loc progress d = (True, d)"
  by (subst device_read_loop.simps, simp) (subst device_write_loop.simps, simp)

text \<open>One round of the reading loop.\<close>

lemma read_step:
  assumes "dev_ok d" "all_ok d" "unat loc + progress < usable d" "progress < count"
  obtains chunk d1 where "0 < chunk" "chunk \<le> count - progress" "unat loc + (progress + chunk) \<le> usable d"
    "device_read_loop loc count progress buf d
      = device_read_loop loc count (progress + chunk) (buf @ take chunk (drop (unat loc + progress) (view d))) d1"
    "dev_frame d d1" "dev_ok d1" "view d1 = view d" "dev_data d1 \<in> {dev_data d, view d}"
proof -
  let ?p = "unat loc + progress" and ?w = "loc + of_nat progress"
  define chunk where "chunk = chunk_at loc count (block_size d) progress"
  note rs = range_step [OF assms(1,3,4), folded chunk_def]
  obtain d1 where d1: "device_cache_block (?w div block_size d) d = (True, d1)" "dev_frame d d1" "dev_ok d1"
    "view d1 = view d" "cache d1 = take (bsize d) (drop (?p div bsize d * bsize d) (view d))"
    "dev_data d1 \<in> {dev_data d, view d}"
    using cache_block_ok [OF assms(1,2) rs(3)] by (auto simp: rs(1))
  have piece: "take chunk (drop (?p mod bsize d) (cache d1)) = take chunk (drop ?p (view d))"
    using take_in_block [OF rs(6), of "?p div bsize d * bsize d" "view d"] by (simp add: d1(5))
  have step: "device_read_loop loc count progress buf d
      = device_read_loop loc count (progress + chunk) (buf @ take chunk (drop ?p (view d))) d1"
    using assms(4) rs(7) d1(1) piece
    by (simp add: device_read_loop.simps [of loc count progress buf d] chunk_def [symmetric] rs(2) Let_def)
  have "0 < bsize d" using assms(1) by (simp add: dev_ok_def)
  then have "?p div bsize d + 1 \<le> length (dev_data d) div bsize d"
    using assms(3) by (simp add: usable_def div_less_iff_less_mult Suc_le_eq)
  then have "(?p div bsize d + 1) * bsize d \<le> usable d" unfolding usable_def by (rule mult_le_mono1)
  then have "?p + chunk \<le> usable d" using rs(6,8) unfolding add_mult_distrib mult_1 by linarith
  then show ?thesis using rs(4,5) step d1 by (intro that [of chunk d1]) simp_all
qed

lemma read_loop_ok:
  assumes "dev_ok d" "all_ok d" "unat loc + count \<le> usable d" "progress \<le> count"
  shows "\<exists>d'. device_read_loop loc count progress buf d
       = (Some (buf @ take (count - progress) (drop (unat loc + progress) (view d))), d')
     \<and> dev_frame d d' \<and> dev_ok d' \<and> view d' = view d \<and> dev_data d' \<in> {dev_data d, view d}"
  using assms
proof (induction "count - progress" arbitrary: progress buf d rule: less_induct)
  case less
  show ?case
  proof (cases "progress < count")
    case False
    then show ?thesis using less.prems dev_frame_refl
      by (intro exI [of _ d]) (simp add: device_loops_done)
  next
    case True
    let ?p = "unat loc + progress"
    have "?p < usable d" using less.prems(3) True by simp
    then obtain chunk d1 where c: "0 < chunk" "chunk \<le> count - progress" and d1: "device_read_loop loc count progress buf d
        = device_read_loop loc count (progress + chunk) (buf @ take chunk (drop ?p (view d))) d1"
      "dev_frame d d1" "dev_ok d1" "view d1 = view d" "dev_data d1 \<in> {dev_data d, view d}"
      using read_step [OF less.prems(1,2) _ True] by blast
    let ?buf = "buf @ take chunk (drop ?p (view d))"
    have "\<exists>d'. device_read_loop loc count (progress + chunk) ?buf d1
         = (Some (?buf @ take (count - (progress + chunk)) (drop (unat loc + (progress + chunk)) (view d1))), d')
       \<and> dev_frame d1 d' \<and> dev_ok d' \<and> view d' = view d1 \<and> dev_data d' \<in> {dev_data d1, view d1}"
      using less.prems c d1(3) dev_frame_simps(9) [OF d1(2)] usable_frame [OF d1(2)] True
      by (intro less.hyps) simp_all
    moreover have "take (count - progress) (drop ?p (view d))
        = take chunk (drop ?p (view d)) @ take (count - (progress + chunk)) (drop (unat loc + (progress + chunk)) (view d))"
    proof -
      have "chunk + (count - (progress + chunk)) = count - progress" using c(2) True by simp
      with take_add [of chunk "count - (progress + chunk)" "drop ?p (view d)"] show ?thesis
        by (simp add: add.commute add.left_commute)
    qed
    ultimately show ?thesis using d1 dev_frame_trans [OF d1(2)] by auto
  qed
qed

lemma device_read_ok:
  assumes "dev_ok d" "all_ok d" "unat loc + count \<le> usable d"
  shows "\<exists>d'. device_read loc count d = (Some (take count (drop (unat loc) (view d))), d')
     \<and> dev_frame d d' \<and> dev_ok d' \<and> view d' = view d \<and> dev_data d' \<in> {dev_data d, view d}"
  using read_loop_ok [OF assms, of 0 "[]"] by (simp add: device_read_def)

text \<open>A range that leaves the whole blocks of the device cannot be read, and trying does no harm.\<close>

lemma read_loop_beyond:
  assumes "dev_ok d" "all_ok d" "usable d < unat loc + count" "progress < count"
    and "progress = 0 \<or> unat loc + progress \<le> usable d"
  shows "\<exists>d'. device_read_loop loc count progress buf d = (None, d')
     \<and> dev_frame d d' \<and> dev_sane d' \<and> dev_data d' \<in> {dev_data d, view d}"
  using assms
proof (induction "count - progress" arbitrary: progress buf d rule: less_induct)
  case less
  let ?p = "unat loc + progress" and ?w = "loc + of_nat progress"
  have bs: "1 < bsize d" "block_size d \<noteq> 0" "length (dev_data d) < 2 ^ 63" using less.prems(1) by (auto simp: dev_ok_def)
  have "usable d \<le> length (dev_data d)" by (simp add: usable_def)
  with less.prems(5) bs(3) have p: "?p < 2 ^ 64" using unat_u64_less [of loc] by auto
  show ?case
  proof (cases "?p < usable d")
    case True
    obtain chunk d1 where c: "0 < chunk" "unat loc + (progress + chunk) \<le> usable d" and d1: "device_read_loop loc count progress buf d
        = device_read_loop loc count (progress + chunk) (buf @ take chunk (drop ?p (view d))) d1"
      "dev_frame d d1" "dev_ok d1" "view d1 = view d" "dev_data d1 \<in> {dev_data d, view d}"
      using read_step [OF less.prems(1,2) True less.prems(4)] by blast
    note f = dev_frame_simps [OF d1(2)] usable_frame [OF d1(2)]
    with less.prems c d1(3) have "\<exists>d'. device_read_loop loc count (progress + chunk) (buf @ take chunk (drop ?p (view d))) d1
         = (None, d') \<and> dev_frame d1 d' \<and> dev_sane d' \<and> dev_data d' \<in> {dev_data d1, view d1}"
      by (intro less.hyps) simp_all
    then show ?thesis using d1 dev_frame_trans [OF d1(2)] by auto
  next
    case False
    have w: "unat (?w div block_size d) = ?p div bsize d"
      using p by (simp add: unat_div unat_add_of_nat)
    have "length (dev_data d) div bsize d \<le> ?p div bsize d"
      using False bs(1) by (simp add: usable_def less_eq_div_iff_mult_less_eq)
    then have "length (dev_data d) div bsize d < ?p div bsize d + 1" by simp
    then have "length (dev_data d) < (?p div bsize d + 1) * bsize d"
      using bs(1) by (simp only: div_less_iff_less_mult)
    moreover have "?p div bsize d * bsize d < 2 ^ 64" using p by (meson div_times_less_eq_dividend le_less_trans)
    ultimately obtain d' where "device_cache_block (?w div block_size d) d = (False, d')" "dev_frame d d'" "dev_sane d'"
      "dev_data d' \<in> {dev_data d, view d}"
      using cache_block_beyond [OF less.prems(1,2), of "?w div block_size d"] w by auto
    then show ?thesis
      using less.prems(4) bs(2) by (simp add: device_read_loop.simps [of loc count progress buf d] Let_def)
  qed
qed

lemma device_read_beyond:
  assumes "dev_ok d" "all_ok d" "usable d < unat loc + count" "0 < count"
  shows "\<exists>d'. device_read loc count d = (None, d')
     \<and> dev_frame d d' \<and> dev_sane d' \<and> dev_data d' \<in> {dev_data d, view d}"
  using read_loop_beyond [OF assms, of "[]"] by (simp add: device_read_def)

lemma view_length: "dev_ok d \<Longrightarrow> length (view d) = length (dev_data d)"
  using dirty_cached [of d] by (auto simp: view_def dev_ok_def overwrite_in)

text \<open>Changing bytes of the cached block.\<close>

lemma cache_store_view:
  assumes "dev_ok d" "cached_block d \<noteq> - 1" "off + length bs \<le> bsize d"
  defines "d' \<equiv> d\<lparr>cache := overwrite (cache d) off bs, cache_state := CACHE_DIRTY\<rparr>"
  shows "dev_ok d'" "view d' = overwrite (view d) (cached_at d + off) bs" "dev_frame d d'"
proof -
  have len: "length (cache d) = bsize d" "cached_at d + bsize d \<le> length (dev_data d)"
    using assms(1,2) by (auto simp: dev_ok_def)
  then show "dev_ok d'" using assms(1,3) by (auto simp: dev_ok_def d'_def overwrite_in cached_at_def)
  have v: "view d = overwrite (dev_data d) (cached_at d) (cache d)"
  proof (cases "cache_state d")
    case CACHE_CLEAN
    then have "cache d = take (bsize d) (drop (cached_at d) (dev_data d))" using assms(1,2) by (simp add: dev_ok_def)
    with overwrite_same [OF len(2)] CACHE_CLEAN show ?thesis by (simp add: view_def)
  qed (simp add: view_def)
  show "view d' = overwrite (view d) (cached_at d + off) bs"
    using overwrite_block [OF len(2,1) assms(3)] by (simp add: v) (simp add: view_def d'_def cached_at_def)
  show "dev_frame d d'"
    unfolding dev_frame_def d'_def
    by (rule exI [of _ "dev_data d"], rule exI [of _ "dev_pos d"], rule exI [of _ "lib_n d"],
        rule exI [of _ CACHE_DIRTY], rule exI [of _ "cached_block d"], rule exI [of _ "overwrite (cache d) off bs"]) simp
qed

text \<open>Outside a range, every byte of the device is one it had before or one that was waiting in the cache.\<close>

definition settled :: "nat \<Rightarrow> nat \<Rightarrow> device_state \<Rightarrow> device_state \<Rightarrow> bool" where
  "settled lo hi d d' \<longleftrightarrow> (\<forall>i < length (dev_data d). i < lo \<or> hi \<le> i \<longrightarrow>
     dev_data d' ! i \<in> {dev_data d ! i, view d ! i})"

text \<open>One round of the writing loop.\<close>

lemma write_step:
  assumes "dev_ok d" "all_ok d" "unat loc + progress < usable d" "progress < length buffer"
  obtains chunk d2 where "0 < chunk" "chunk \<le> length buffer - progress"
    "device_write_loop buffer loc progress d = device_write_loop buffer loc (progress + chunk) d2"
    "dev_frame d d2" "dev_ok d2" "view d2 = overwrite (view d) (unat loc + progress) (take chunk (drop progress buffer))"
    "dev_data d2 \<in> {dev_data d, view d}"
proof -
  let ?p = "unat loc + progress" and ?w = "loc + of_nat progress"
  define chunk where "chunk = chunk_at loc (length buffer) (block_size d) progress"
  note rs = range_step [OF assms(1,3,4), folded chunk_def]
  obtain d1 where d1: "device_cache_block (?w div block_size d) d = (True, d1)" "dev_frame d d1" "dev_ok d1"
    "view d1 = view d" "cached_block d1 = ?w div block_size d" "dev_data d1 \<in> {dev_data d, view d}"
    using cache_block_ok [OF assms(1,2) rs(3)] by auto
  note fr = dev_frame_simps [OF d1(2)]
  let ?bs = "take chunk (drop progress buffer)"
  have ne: "cached_block d1 \<noteq> - 1"
  proof
    assume "cached_block d1 = - 1"
    then have "?p div bsize d = 2 ^ 64 - 1"
      using rs(1) d1(5) by (simp add: unsigned_minus_1_eq_mask mask_eq_exp_minus_1)
    moreover have "?p div bsize d \<le> ?p" by (rule div_le_dividend)
    moreover have "usable d \<le> length (dev_data d)" by (simp add: usable_def)
    ultimately show False using assms(1,3) by (simp add: dev_ok_def)
  qed
  define d2 where "d2 = d1\<lparr>cache := overwrite (cache d1) (?p mod bsize d) ?bs, cache_state := CACHE_DIRTY\<rparr>"
  have "?p mod bsize d + length ?bs \<le> bsize d1" using rs(4,6) by (simp add: fr)
  note cs = cache_store_view [OF d1(3) ne this, folded d2_def]
  have "cached_at d1 + ?p mod bsize d = ?p" by (simp add: cached_at_def d1(5) rs(1) fr(1))
  then have "view d2 = overwrite (view d) ?p ?bs" using cs(2) d1(4) by simp
  moreover have "device_write_loop buffer loc progress d = device_write_loop buffer loc (progress + chunk) d2"
    using assms(4) rs(7) d1(1)
    by (simp add: device_write_loop.simps [of buffer loc progress d] chunk_def [symmetric] rs(2) Let_def d2_def)
  moreover have "dev_data d2 = dev_data d1" by (simp add: d2_def)
  ultimately show ?thesis
    using rs(4,5) cs(1) dev_frame_trans [OF d1(2) cs(3)] d1(6) by (intro that [of chunk d2]) simp_all
qed

lemma write_loop_ok:
  assumes "dev_ok d" "all_ok d" "unat loc + length buffer \<le> usable d" "progress \<le> length buffer"
  shows "\<exists>d'. device_write_loop buffer loc progress d = (True, d')
     \<and> dev_frame d d' \<and> dev_ok d' \<and> view d' = overwrite (view d) (unat loc + progress) (drop progress buffer)
     \<and> settled (unat loc) (unat loc + length buffer) d d'"
  using assms
proof (induction "length buffer - progress" arbitrary: progress d rule: less_induct)
  case less
  have len: "unat loc + length buffer \<le> length (view d)"
    using less.prems(3) view_length [OF less.prems(1)] by (simp add: usable_def) (meson div_times_less_eq_dividend le_trans)
  show ?case
  proof (cases "progress < length buffer")
    case False
    have "overwrite (view d) p [] = view d" if "p \<le> length (view d)" for p
      using that by (simp add: overwrite_def)
    with False less.prems dev_frame_refl len show ?thesis
      by (intro exI [of _ d]) (simp add: device_loops_done settled_def)
  next
    case True
    let ?p = "unat loc + progress"
    have "?p < usable d" using less.prems(3) True by simp
    then obtain chunk d2 where c: "0 < chunk" "chunk \<le> length buffer - progress"
      and d2: "device_write_loop buffer loc progress d = device_write_loop buffer loc (progress + chunk) d2"
      "dev_frame d d2" "dev_ok d2" "view d2 = overwrite (view d) ?p (take chunk (drop progress buffer))"
      "dev_data d2 \<in> {dev_data d, view d}"
      using write_step [OF less.prems(1,2) _ True] by blast
    have "\<exists>d'. device_write_loop buffer loc (progress + chunk) d2 = (True, d')
       \<and> dev_frame d2 d' \<and> dev_ok d' \<and> view d' = overwrite (view d2) (unat loc + (progress + chunk)) (drop (progress + chunk) buffer)
       \<and> settled (unat loc) (unat loc + length buffer) d2 d'"
      using less.prems c d2(3) dev_frame_simps(9) [OF d2(2)] usable_frame [OF d2(2)] True
      by (intro less.hyps) simp_all
    moreover have "overwrite (view d2) (unat loc + (progress + chunk)) (drop (progress + chunk) buffer)
        = overwrite (view d) ?p (drop progress buffer)"
      using overwrite_chunks [of ?p "drop progress buffer" "view d" chunk] len c(2) True
      by (simp add: d2(4) ac_simps)
    moreover have "settled (unat loc) (unat loc + length buffer) d d'"
      if "settled (unat loc) (unat loc + length buffer) d2 d'" for d'
    proof -
      have "view d2 ! i = view d ! i" if "i < unat loc \<or> unat loc + length buffer \<le> i" "i < length (view d)" for i
        using that len c(2) True by (auto simp: d2(4) overwrite_in)
      then show ?thesis
        using that d2(5) dev_frame_simps(8) [OF d2(2)] view_length [OF less.prems(1)] unfolding settled_def by auto
    qed
    ultimately show ?thesis using d2(1) dev_frame_trans [OF d2(2)] by auto
  qed
qed

text \<open>The records of saved data do not matter to the cache.\<close>

lemma dev_ok_records [simp]:
  "dev_ok (d\<lparr>uninstall_data := x\<rparr>) = dev_ok d" "dev_ok (d\<lparr>uninstall_data_i := i\<rparr>) = dev_ok d"
  "dev_ok (d\<lparr>heap_next := h\<rparr>) = dev_ok d" "dev_ok (d\<lparr>lib_n := n\<rparr>) = dev_ok d"
  "dev_ok (d\<lparr>uninstalling := u\<rparr>) = dev_ok d" "dev_ok (d\<lparr>uninstall_data_rev := x\<rparr>) = dev_ok d"
  by (simp_all add: dev_ok_def cached_at_def)

lemma view_records [simp]:
  "view (d\<lparr>uninstall_data := x\<rparr>) = view d" "view (d\<lparr>uninstall_data_i := i\<rparr>) = view d"
  "view (d\<lparr>heap_next := h\<rparr>) = view d" "view (d\<lparr>lib_n := n\<rparr>) = view d"
  "view (d\<lparr>uninstalling := u\<rparr>) = view d" "view (d\<lparr>uninstall_data_rev := x\<rparr>) = view d"
  by (simp_all add: view_def cached_at_def)

lemma all_ok_records [simp]:
  "all_ok (d\<lparr>uninstall_data := x\<rparr>) = all_ok d" "all_ok (d\<lparr>uninstall_data_i := i\<rparr>) = all_ok d"
  "all_ok (d\<lparr>heap_next := h\<rparr>) = all_ok d" "all_ok d \<Longrightarrow> all_ok (d\<lparr>lib_n := Suc (lib_n d)\<rparr>)"
  "all_ok (d\<lparr>uninstalling := u\<rparr>) = all_ok d" "all_ok (d\<lparr>uninstall_data_rev := x\<rparr>) = all_ok d"
  by (simp_all add: all_ok_def)

lemma usable_records [simp]:
  "usable (d\<lparr>uninstall_data := x\<rparr>) = usable d" "usable (d\<lparr>uninstall_data_i := i\<rparr>) = usable d"
  "usable (d\<lparr>heap_next := h\<rparr>) = usable d" "usable (d\<lparr>lib_n := n\<rparr>) = usable d"
  "usable (d\<lparr>uninstalling := u\<rparr>) = usable d" "usable (d\<lparr>uninstall_data_rev := x\<rparr>) = usable d"
  by (simp_all add: usable_def)

text \<open>The entries in use.\<close>

definition saved :: "device_state \<Rightarrow> uninstall_data_t list" where
  "saved d = take (unat (uninstall_data_i d)) (uninstall_data d)"

definition saved_ok :: "device_state \<Rightarrow> bool" where
  "saved_ok d \<longleftrightarrow> length (uninstall_data d) = UNINSTALL_DATA_MAX \<and> length (uninstall_data_rev d) = UNINSTALL_DATA_MAX
     \<and> unat (uninstall_data_i d) \<le> UNINSTALL_DATA_MAX"

lemma device_write_ok:
  assumes ok: "dev_ok d" "all_ok d" "saved_ok d" and range: "unat loc + length buffer \<le> usable d"
    and room: "\<not> uninstalling d" "unat (uninstall_data_i d) < UNINSTALL_DATA_MAX"
  shows "\<exists>d'. device_write buffer loc d = (True, d') \<and> dev_ok d' \<and> all_ok d' \<and> saved_ok d' \<and> usable d' = usable d
     \<and> view d' = overwrite (view d) (unat loc) buffer \<and> settled (unat loc) (unat loc + length buffer) d d'
     \<and> length (dev_data d') = length (dev_data d) \<and> \<not> uninstalling d' \<and> freed d' = freed d \<and> empty_lba d' = empty_lba d
     \<and> heap_next d' = Suc (heap_next d) \<and> unat (uninstall_data_i d') = Suc (unat (uninstall_data_i d))
     \<and> saved d' = saved d @ [\<lparr>ud_data = take (length buffer) (drop (unat loc) (view d)), ud_ptr = heap_next d,
          ud_loc = loc, ud_count = of_nat (length buffer)\<rparr>]"
proof -
  let ?i = "unat (uninstall_data_i d)"
  let ?old = "take (length buffer) (drop (unat loc) (view d))"
  have lib: "lib_ok d (lib_n d)" using ok(2) by (simp add: all_ok_def)
  define d2 where "d2 = d\<lparr>lib_n := Suc (lib_n d), heap_next := Suc (heap_next d),
    uninstall_data := (uninstall_data d)[?i := (uninstall_data d ! ?i)\<lparr>ud_ptr := heap_next d\<rparr>]\<rparr>"
  have "dev_ok d2" "all_ok d2" "usable d2 = usable d" "view d2 = view d" using ok by (simp_all add: d2_def)
  with device_read_ok [of d2 loc "length buffer"] range obtain d3 where
    d3: "device_read loc (length buffer) d2 = (Some ?old, d3)" "dev_frame d2 d3" "dev_ok d3" "view d3 = view d"
    "dev_data d3 \<in> {dev_data d2, view d}" by auto
  note f3 = dev_frame_simps [OF d3(2)]
  let ?e = "\<lparr>ud_data = ?old, ud_ptr = heap_next d, ud_loc = loc, ud_count = of_nat (length buffer)\<rparr>"
  define d4 where "d4 = d3\<lparr>uninstall_data := (uninstall_data d3)[?i := ?e]\<rparr>"
  have "dev_ok d4" "all_ok d4" "usable d4 = usable d" "view d4 = view d"
    using d3 f3(9) usable_frame [OF d3(2)] \<open>all_ok d2\<close> \<open>usable d2 = usable d\<close> by (simp_all add: d4_def)
  with write_loop_ok [of d4 loc buffer 0] range obtain d5 where
    d5: "device_write_loop buffer loc 0 d4 = (True, d5)" "dev_frame d4 d5" "dev_ok d5"
    "view d5 = overwrite (view d) (unat loc) buffer" "settled (unat loc) (unat loc + length buffer) d4 d5" by auto
  note f5 = dev_frame_simps [OF d5(2)]
  have w: "device_write buffer loc d = (True, d5\<lparr>uninstall_data_i := uninstall_data_i d5 + 1\<rparr>)"
    using room lib d3(1) d5(1)
    by (simp add: device_write_def malloc_def lib_call_def d2_def [symmetric] d4_def [symmetric] Let_def)
  have ui: "uninstall_data_i d5 = uninstall_data_i d" using f5 f3 by (simp add: d4_def d2_def)
  have uni: "unat (uninstall_data_i d + 1) = Suc ?i"
    using room(2) by (simp add: UNINSTALL_DATA_MAX_def unat_word_ariths)
  have ud: "uninstall_data d5 = (uninstall_data d)[?i := ?e]"
    using f5 f3 by (simp add: d4_def d2_def)
  have len: "length (uninstall_data d) = UNINSTALL_DATA_MAX" "length (dev_data d5) = length (dev_data d)"
    using ok(3) f5(8) f3(8) by (simp_all add: saved_ok_def d4_def d2_def)
  have "take (Suc ?i) ((uninstall_data d)[?i := ?e]) = take ?i (uninstall_data d) @ [?e]"
    using len(1) room(2) by (simp add: take_Suc_conv_app_nth)
  moreover have "settled (unat loc) (unat loc + length buffer) d d5"
    using d5(5) d3(5) \<open>view d4 = view d\<close> f3(8) unfolding settled_def d4_def d2_def by auto
  ultimately show ?thesis
    using w d5 ok(3) len ui uni ud room f5 f3 usable_frame [OF d5(2)] \<open>usable d4 = usable d\<close> \<open>all_ok d4\<close>
    by (auto simp: saved_def saved_ok_def settled_def d4_def d2_def)
qed

lemma device_init_ok:
  assumes "all_ok d" "512 \<le> length (dev_data d)" "length (dev_data d) < 2 ^ 63"
  shows "\<exists>d'. device_init d = (True, d') \<and> dev_ok d' \<and> all_ok d' \<and> block_size d' = 512 \<and> view d' = dev_data d
     \<and> dev_data d' = dev_data d \<and> uninstalling d' = uninstalling d \<and> uninstall_data_i d' = uninstall_data_i d
     \<and> uninstall_data d' = uninstall_data d \<and> uninstall_data_rev d' = uninstall_data_rev d
     \<and> freed d' = freed d \<and> heap_next d' = heap_next d \<and> cache_state d' = CACHE_CLEAN \<and> empty_lba d' = empty_lba d"
proof -
  have lib: "lib_ok d (lib_n d)" "lib_ok d (Suc (lib_n d))" using assms(1) by (simp_all add: all_ok_def)
  have "length (take 512 (dev_data d)) = 512" using assms(2) by simp
  then show ?thesis
    using lib assms by (auto simp: device_init_def lib_call_def rewind_def fread1_def overlay_def dev_ok_def
        view_def cached_at_def all_ok_def Let_def)
qed

section \<open>Properties\<close>

text \<open>Over a working device, \<open>_device_read\<close> returns exactly the bytes of the range as the program sees the
  device, the dirty block included, for every range within the whole blocks of the device, and
  reading changes nothing the program can see.\<close>

theorem device_read_correct:
  assumes "dev_ok d" "all_ok d" "unat loc + count \<le> usable d"
  shows "\<exists>d'. device_read loc count d = (Some (take count (drop (unat loc) (view d))), d')
     \<and> dev_ok d' \<and> view d' = view d \<and> uninstall_data_i d' = uninstall_data_i d"
  using device_read_ok [OF assms] dev_frame_simps by blast

text \<open>C13: over a working device, \<open>_device_write\<close> makes the program see the device with the range replaced by the
  buffer, and saves the bytes the range had before in the next entry of the uninstall data.\<close>

theorem device_write_correct:
  assumes "dev_ok d" "all_ok d" "saved_ok d" "unat loc + length buffer \<le> usable d"
    and "\<not> uninstalling d" "unat (uninstall_data_i d) < UNINSTALL_DATA_MAX"
  shows "\<exists>d'. device_write buffer loc d = (True, d') \<and> dev_ok d' \<and> saved_ok d'
     \<and> view d' = overwrite (view d) (unat loc) buffer
     \<and> saved d' = saved d @ [\<lparr>ud_data = take (length buffer) (drop (unat loc) (view d)), ud_ptr = heap_next d,
          ud_loc = loc, ud_count = of_nat (length buffer)\<rparr>]"
  using device_write_ok [OF assms] by blast

subsection \<open>Instances\<close>

text \<open>A disk of two blocks, and the state of the program after it has been opened.\<close>

definition no_data :: uninstall_data_t where
  "no_data = \<lparr>ud_data = [], ud_ptr = 0, ud_loc = 0, ud_count = 0\<rparr>"

definition disk :: "u8 list \<Rightarrow> device_state" where
  "disk bytes = \<lparr>dev_data = bytes, dev_pos = 0, lib_ok = (\<lambda>_. True), lib_n = 0, long_max = 2 ^ 63 - 1,
     heap_next = 1, freed = [], cache_state = CACHE_CLEAN, cached_block = 0, cache = [], block_size = 0,
     uninstalling = False, uninstall_data = replicate UNINSTALL_DATA_MAX no_data,
     uninstall_data_rev = replicate UNINSTALL_DATA_MAX no_data, uninstall_data_i = 0, empty_lba = 0\<rparr>"

lemma disk_ready:
  assumes "512 \<le> length bytes" "length bytes < 2 ^ 63"
  obtains d where "device_init (disk bytes) = (True, d)" "dev_ok d" "all_ok d" "view d = bytes" "saved_ok d"
    "saved d = []" "\<not> uninstalling d" "usable d = length bytes div 512 * 512" "uninstall_data_i d = 0"
    "freed d = []" "heap_next d = 1" "dev_data d = bytes" "cache_state d = CACHE_CLEAN" "empty_lba d = 0"
proof -
  have "all_ok (disk bytes)" by (simp add: all_ok_def disk_def)
  from device_init_ok [OF this] assms obtain d where "device_init (disk bytes) = (True, d)" "dev_ok d" "all_ok d"
    "block_size d = 512" "view d = bytes" "dev_data d = bytes" "\<not> uninstalling d" "uninstall_data_i d = 0"
    "uninstall_data d = replicate UNINSTALL_DATA_MAX no_data"
    "uninstall_data_rev d = replicate UNINSTALL_DATA_MAX no_data" "freed d = []" "heap_next d = 1"
    "cache_state d = CACHE_CLEAN" "empty_lba d = 0"
    by (auto simp: disk_def)
  then show ?thesis by (intro that [of d]) (simp_all add: saved_ok_def saved_def usable_def)
qed

definition two_blocks :: "u8 list" where
  "two_blocks = replicate 512 1 @ replicate 512 2"

lemma two_blocks_length [simp]: "length two_blocks = 1024"
  by (simp add: two_blocks_def)

lemma two_blocks_opened:
  obtains d where "device_init (disk two_blocks) = (True, d)" "dev_ok d" "all_ok d" "view d = two_blocks"
    "saved_ok d" "saved d = []" "\<not> uninstalling d" "usable d = 1024" "uninstall_data_i d = 0"
    "freed d = []" "heap_next d = 1" "dev_data d = two_blocks" "cache_state d = CACHE_CLEAN" "empty_lba d = 0"
  by (rule disk_ready [of two_blocks]) simp_all

lemma two_blocks_boundary: "take 2 (drop 511 two_blocks) = [1, 2]" "take 3 (drop 511 two_blocks) = [1, 2, 2]"
proof -
  have "drop 511 two_blocks = 1 # 2 # 2 # replicate 510 2"
    by (simp add: two_blocks_def) (simp add: numeral_eq_Suc)
  then show "take 2 (drop 511 two_blocks) = [1, 2]" "take 3 (drop 511 two_blocks) = [1, 2, 2]" by simp_all
qed

theorem device_read_correct_witness:
  "\<exists>d d'. device_init (disk two_blocks) = (True, d) \<and> device_read 511 2 d = (Some [1, 2], d')"
proof -
  obtain d where d: "device_init (disk two_blocks) = (True, d)" "dev_ok d" "all_ok d" "view d = two_blocks"
    "usable d = 1024" by (rule two_blocks_opened)
  with device_read_correct [OF d(2,3), of 511 2] show ?thesis by (auto simp: two_blocks_boundary)
qed

theorem device_write_correct_witness:
  "\<exists>d d'. device_init (disk two_blocks) = (True, d) \<and> device_write [7, 8, 9] 511 d = (True, d')
     \<and> view d' ! 513 = 9 \<and> view d' ! 514 = 2 \<and> map ud_data (saved d') = [[1, 2, 2]]"
proof -
  obtain d where d: "device_init (disk two_blocks) = (True, d)" "dev_ok d" "all_ok d" "view d = two_blocks"
    "saved_ok d" "saved d = []" "\<not> uninstalling d" "usable d = 1024" "uninstall_data_i d = 0"
    by (rule two_blocks_opened)
  have "two_blocks ! 514 = 2" by (simp add: two_blocks_def nth_append)
  with device_write_correct [OF d(2,3,5), of 511 "[7, 8, 9]"] d show ?thesis
    by (auto simp: two_blocks_boundary overwrite_in UNINSTALL_DATA_MAX_def numeral_3_eq_3 [symmetric])
qed

end
