(* ===== verification/Limine_Uninstall.thy ===== *)
theory Limine_Uninstall
  imports Limine_Device
begin

text \<open>
  Undoing an installation (\<open>limine/limine.c\<close>): the saved ranges are reversed, written back over the
  device, and kept in a file between two runs of the program.

  The central theorem is that undoing restores every byte, whatever part of the installation had
  reached the device when it was interrupted: the writes are undone in reverse order, so the last one
  to touch a byte puts back the contents from before the first write that changed it.
\<close>

section \<open>Operations\<close>

definition reverse_uninstall_data :: "device_state \<Rightarrow> device_state" where
  "reverse_uninstall_data d =
     (let n = unat (uninstall_data_i d);
          r = fold (\<lambda>i r. r[n - 1 - i := uninstall_data d ! i]) [0 ..< n] (uninstall_data_rev d)
      in d\<lparr>uninstall_data_rev := r, uninstall_data := take n r @ drop n (uninstall_data d)\<rparr>)"

definition free_entries :: "nat \<Rightarrow> device_state \<Rightarrow> device_state" where
  "free_entries n d = fold (\<lambda>i d'. free (ud_ptr (uninstall_data d ! i)) d') [0 ..< n] d"

text \<open>\<open>None\<close> is an access beyond the array, which C leaves undefined.\<close>

definition free_uninstall_data :: "device_state \<Rightarrow> device_state option" where
  "free_uninstall_data d =
     (if unat (uninstall_data_i d) > length (uninstall_data d) then None
      else Some (free_entries (unat (uninstall_data_i d)) d))"

text \<open>The uninstall data file: the bytes written so far, or the bytes still to be read.\<close>

definition ud_fwrite :: "u8 list \<Rightarrow> u8 list \<Rightarrow> device_state \<Rightarrow> bool \<times> u8 list \<times> device_state" where
  "ud_fwrite bs out d =
     (let (ok, d1) = lib_call d in if ok \<and> bs \<noteq> [] then (True, out @ bs, d1) else (False, out, d1))"

fun store_entries :: "bool \<Rightarrow> uninstall_data_t list \<Rightarrow> u8 list \<Rightarrow> device_state \<Rightarrow> bool \<times> u8 list \<times> device_state" where
  "store_entries big [] out d = (True, out, d)"
| "store_entries big (u # us) out d =
     (let (ok, out, d) = ud_fwrite (native_bytes big 8 (ud_loc u)) out d
      in if \<not> ok then (False, out, d)
      else let (ok, out, d) = ud_fwrite (native_bytes big 8 (ud_count u)) out d
      in if \<not> ok then (False, out, d)
      else let (ok, out, d) = ud_fwrite (take (unat (ud_count u)) (ud_data u)) out d
      in if \<not> ok then (False, out, d) else store_entries big us out d)"

text \<open>The second component is the file, if it could be created.\<close>

definition store_uninstall_data :: "bool \<Rightarrow> device_state \<Rightarrow> bool \<times> u8 list option \<times> device_state" where
  "store_uninstall_data big d =
     (let (ok, d1) = lib_call d
      in if \<not> ok then (False, None, d1)
      else let (ok, out, d2) = ud_fwrite (native_bytes big 8 (uninstall_data_i d1)) [] d1
      in if \<not> ok then (False, Some out, d2)
      else let (ok, out, d3) = store_entries big (saved d2) out d2 in (ok, Some out, d3))"

definition ud_fread :: "nat \<Rightarrow> u8 list \<Rightarrow> device_state \<Rightarrow> u8 list option \<times> u8 list \<times> device_state" where
  "ud_fread n inp d =
     (let (ok, d1) = lib_call d
      in if ok \<and> n \<noteq> 0 \<and> n \<le> length inp then (Some (take n inp), drop n inp, d1) else (None, [], d1))"

text \<open>Entry \<open>i\<close> of the array is updated field by field; on an error the entries loaded so far are freed.\<close>

definition set_entry :: "nat \<Rightarrow> (uninstall_data_t \<Rightarrow> uninstall_data_t) \<Rightarrow> device_state \<Rightarrow> device_state" where
  "set_entry i f d = d\<lparr>uninstall_data := (uninstall_data d)[i := f (uninstall_data d ! i)]\<rparr>"

fun load_entries :: "bool \<Rightarrow> nat \<Rightarrow> nat \<Rightarrow> u8 list \<Rightarrow> device_state \<Rightarrow> bool \<times> device_state" where
  "load_entries big 0 i inp d = (True, d)"
| "load_entries big (Suc k) i inp d =
     (let (loc, inp, d) = ud_fread 8 inp d
      in case loc of None \<Rightarrow> (False, free_entries i d)
      | Some lb \<Rightarrow>
      let d = set_entry i (\<lambda>u. u\<lparr>ud_loc := native big lb\<rparr>) d;
          (cnt, inp, d) = ud_fread 8 inp d
      in case cnt of None \<Rightarrow> (False, free_entries i d)
      | Some cb \<Rightarrow>
      let count = native big cb;
          d = set_entry i (\<lambda>u. u\<lparr>ud_count := count\<rparr>) d;
          (p, d) = malloc d
      in case p of None \<Rightarrow> (False, free_entries i (set_entry i (\<lambda>u. u\<lparr>ud_ptr := 0\<rparr>) d))
      | Some ptr \<Rightarrow>
      let d = set_entry i (\<lambda>u. u\<lparr>ud_ptr := ptr\<rparr>) d;
          (bs, inp, d) = ud_fread (unat count) inp d
      in case bs of None \<Rightarrow> (False, free_entries i (free ptr d))
      | Some data \<Rightarrow> load_entries big k (Suc i) inp (set_entry i (\<lambda>u. u\<lparr>ud_data := data\<rparr>) d))"

text \<open>\<open>file\<close> is the contents of the file, \<open>None\<close> when it cannot be opened. A count above \<open>SIZE_MAX\<close> does not
  exist where \<open>size_t\<close> has 64 bits.\<close>

definition load_uninstall_data :: "bool \<Rightarrow> u8 list option \<Rightarrow> device_state \<Rightarrow> bool \<times> device_state" where
  "load_uninstall_data big file d =
     (case file of None \<Rightarrow> (False, d)
      | Some inp \<Rightarrow>
        let (cnt, inp, d) = ud_fread 8 inp d
        in case cnt of None \<Rightarrow> (False, d)
        | Some cb \<Rightarrow>
          let d = d\<lparr>uninstall_data_i := native big cb\<rparr>
          in if unat (uninstall_data_i d) > UNINSTALL_DATA_MAX then (False, d)
             else load_entries big (unat (uninstall_data_i d)) 0 inp d)"

definition reset_cache :: "device_state \<Rightarrow> device_state" where
  "reset_cache d = d\<lparr>cache_state := CACHE_CLEAN, cached_block := - 1\<rparr>"

definition write_back :: "uninstall_data_t \<Rightarrow> device_state \<Rightarrow> bool \<times> device_state" where
  "write_back u d = device_write (take (unat (ud_count u)) (ud_data u)) (ud_loc u) d"

text \<open>One retry per entry; the flags are \<open>print_write_fail\<close> and \<open>print_cache_flush_fail\<close>.\<close>

fun uninstall_entries :: "uninstall_data_t list \<Rightarrow> bool \<Rightarrow> bool \<Rightarrow> device_state \<Rightarrow> bool \<times> bool \<times> device_state" where
  "uninstall_entries [] wfail ffail d = (wfail, ffail, d)"
| "uninstall_entries (u # us) wfail ffail d =
     (let (ok, d1) = write_back u d
      in if ok then uninstall_entries us wfail ffail d1
      else let (flushed, d2) = device_flush_cache d1;
               (ok, d3) = write_back u (reset_cache d2)
           in uninstall_entries us (wfail \<or> \<not> ok) (ffail \<or> \<not> flushed) d3)"

definition uninstall :: "device_state \<Rightarrow> bool \<times> device_state" where
  "uninstall d =
     (let d1 = reset_cache (d\<lparr>uninstalling := True\<rparr>);
          (wfail, ffail, d2) = uninstall_entries (saved d1) False False d1;
          (flushed, d3) = device_flush_cache d2
      in (\<not> wfail \<and> \<not> (ffail \<or> \<not> flushed), d3))"

text \<open>The end of \<open>bios_install\<close>: what is done when the installation has failed or succeeded, and the
  uninstall mode. The stores to the uninstall data file are the second component.\<close>

definition install_cleanup :: "bool \<Rightarrow> bool \<Rightarrow> bool \<Rightarrow> device_state \<Rightarrow> (device_state \<times> u8 list option) option" where
  "install_cleanup big success to_file d =
     (let d1 = reverse_uninstall_data d;
          (file, d2) = (if \<not> success then (None, snd (uninstall d1))
                        else if to_file then snd (store_uninstall_data big d1)
                        else (None, d1))
      in map_option (\<lambda>d3. (d3, file)) (free_uninstall_data d2))"

definition uninstall_mode :: "bool \<Rightarrow> u8 list option \<Rightarrow> device_state \<Rightarrow> (bool \<times> device_state) option" where
  "uninstall_mode big file d =
     (let (loaded, d1) = load_uninstall_data big file d
      in if \<not> loaded then map_option (Pair False) (free_uninstall_data d1)
         else let (ok, d2) = uninstall d1 in map_option (Pair ok) (free_uninstall_data d2))"

section \<open>Reversal\<close>

lemma reverse_fold:
  fixes xs r :: "'a list"
  assumes "k \<le> n" "n \<le> length r"
  defines "R \<equiv> \<lambda>k. fold (\<lambda>i r. r[n - 1 - i := xs ! i]) [0 ..< k] r"
  shows "length (R k) = length r"
    and "j < length r \<Longrightarrow> R k ! j = (if n - k \<le> j \<and> j < n then xs ! (n - 1 - j) else r ! j)"
proof -
  have S: "R (Suc k) = (R k)[n - 1 - k := xs ! k]" for k by (simp add: R_def)
  show len: "length (R k) = length r" for k by (induction k) (simp add: R_def, simp add: S)
  show "R k ! j = (if n - k \<le> j \<and> j < n then xs ! (n - 1 - j) else r ! j)" if "j < length r"
    using assms(1)
  proof (induction k)
    case 0
    then show ?case by (auto simp: R_def)
  next
    case (Suc k)
    show ?case
    proof (cases "j = n - 1 - k")
      case True
      moreover from this have "n - 1 - j = k" "n - Suc k \<le> j" "j < n" using Suc.prems by simp_all
      ultimately show ?thesis using that len [of k] by (simp add: S)
    next
      case False
      then have "n - Suc k \<le> j \<longleftrightarrow> n - k \<le> j" using Suc.prems by auto
      then show ?thesis using Suc False by (simp only: S nth_list_update_neq [OF False [symmetric]])
    qed
  qed
qed

lemma reverse_saved:
  assumes "saved_ok d"
  shows "saved (reverse_uninstall_data d) = rev (saved d)" "saved_ok (reverse_uninstall_data d)"
    "uninstall_data_i (reverse_uninstall_data d) = uninstall_data_i d"
proof -
  let ?n = "unat (uninstall_data_i d)" and ?xs = "uninstall_data d"
  define r where "r = fold (\<lambda>i r. r[?n - 1 - i := ?xs ! i]) [0 ..< ?n] (uninstall_data_rev d)"
  have n: "?n \<le> length (uninstall_data_rev d)" "?n \<le> length ?xs" using assms by (simp_all add: saved_ok_def)
  have r: "length r = length (uninstall_data_rev d)" "r ! j = ?xs ! (?n - 1 - j)" if "j < ?n" for j
    using reverse_fold(1) [OF order_refl n(1), of ?xs] reverse_fold(2) [OF order_refl n(1), of j ?xs] that n(1)
    by (simp_all add: r_def)
  have rl: "length r = length (uninstall_data_rev d)" using reverse_fold(1) [OF order_refl n(1), of ?xs] by (simp only: r_def)
  have e: "reverse_uninstall_data d = d\<lparr>uninstall_data_rev := r, uninstall_data := take ?n r @ drop ?n ?xs\<rparr>"
    by (simp add: reverse_uninstall_data_def r_def Let_def)
  have "take ?n r = rev (take ?n ?xs)"
  proof (rule nth_equalityI)
    show "length (take ?n r) = length (rev (take ?n ?xs))" using n rl by simp
    fix j assume "j < length (take ?n r)"
    then have j: "j < ?n" by simp
    then show "take ?n r ! j = rev (take ?n ?xs) ! j"
      using n rl r(2) [OF j] by (simp add: rev_nth)
  qed
  then show "saved (reverse_uninstall_data d) = rev (saved d)" using n rl by (simp add: e saved_def)
  show "saved_ok (reverse_uninstall_data d)" "uninstall_data_i (reverse_uninstall_data d) = uninstall_data_i d"
    using assms n rl by (simp_all add: e saved_ok_def)
qed

section \<open>Undoing writes\<close>

text \<open>A sequence of writes, as the installer performs them; the first failure ends it.\<close>

fun writes :: "(u8 list \<times> u64) list \<Rightarrow> device_state \<Rightarrow> bool \<times> device_state" where
  "writes [] d = (True, d)"
| "writes ((buffer, loc) # ws) d =
     (let (ok, d1) = device_write buffer loc d in if ok then writes ws d1 else (False, d1))"

definition covers :: "(u8 list \<times> u64) list \<Rightarrow> nat \<Rightarrow> bool" where
  "covers ws i \<longleftrightarrow> (\<exists>(buffer, loc) \<in> set ws. unat loc \<le> i \<and> i < unat loc + length buffer)"

text \<open>The contents after the writes, and the entries saved on the way.\<close>

fun written :: "(u8 list \<times> u64) list \<Rightarrow> u8 list \<Rightarrow> u8 list" where
  "written [] xs = xs"
| "written ((buffer, loc) # ws) xs = written ws (overwrite xs (unat loc) buffer)"

fun old_ranges :: "(u8 list \<times> u64) list \<Rightarrow> u8 list \<Rightarrow> (u8 list \<times> u64) list" where
  "old_ranges [] xs = []"
| "old_ranges ((buffer, loc) # ws) xs =
     (take (length buffer) (drop (unat loc) xs), loc) # old_ranges ws (overwrite xs (unat loc) buffer)"

definition in_range :: "nat \<Rightarrow> (u8 list \<times> u64) list \<Rightarrow> bool" where
  "in_range n ws \<longleftrightarrow> (\<forall>(buffer, loc) \<in> set ws. unat loc + length buffer \<le> n)"

lemma in_range_simps [simp]:
  "in_range n []" "in_range n ((buffer, loc) # ws) \<longleftrightarrow> unat loc + length buffer \<le> n \<and> in_range n ws"
  by (auto simp: in_range_def)

lemma covers_simps [simp]:
  "\<not> covers [] i"
  "covers ((buffer, loc) # ws) i \<longleftrightarrow> (unat loc \<le> i \<and> i < unat loc + length buffer) \<or> covers ws i"
  by (auto simp: covers_def)

lemma written_length: "in_range (length xs) ws \<Longrightarrow> length (written ws xs) = length xs"
  by (induction ws xs rule: written.induct) (simp_all add: overwrite_in)

lemma written_append: "written (us @ ws) xs = written ws (written us xs)"
  by (induction us xs rule: written.induct) simp_all

lemma old_ranges_in_range: "in_range (length xs) ws \<Longrightarrow> in_range (length xs) (old_ranges ws xs)"
  by (induction ws xs rule: old_ranges.induct) (auto simp: overwrite_in)

text \<open>Writing the old ranges back in reverse order restores every byte that a write covered, whatever it
  was before, and leaves the others.\<close>

lemma undo_pointwise:
  assumes "in_range (length xs) ws" "length ys = length xs" "i < length xs" "covers ws i \<or> ys ! i = xs ! i"
  shows "written (rev (old_ranges ws xs)) ys ! i = xs ! i"
  using assms
proof (induction ws xs rule: old_ranges.induct)
  case (1 xs)
  then show ?case by simp
next
  case (2 buffer loc ws xs)
  let ?xs = "overwrite xs (unat loc) buffer" and ?old = "take (length buffer) (drop (unat loc) xs)"
  have len: "length ?xs = length xs" "length ?old = length buffer" "unat loc + length buffer \<le> length xs"
    using "2.prems"(1) by (auto simp: overwrite_in)
  let ?z = "written (rev (old_ranges ws ?xs)) ys"
  have "in_range (length ?xs) (old_ranges ws ?xs)" using "2.prems"(1) len by (intro old_ranges_in_range) simp
  then have lz: "length ?z = length xs" using "2.prems"(2) len by (subst written_length) (simp_all add: in_range_def)
  have e: "written (rev (old_ranges ((buffer, loc) # ws) xs)) ys = overwrite ?z (unat loc) ?old"
    by (simp add: written_append)
  show ?case
  proof (cases "unat loc \<le> i \<and> i < unat loc + length buffer")
    case True
    then have "i - unat loc < length buffer" by auto
    then have "?old ! (i - unat loc) = xs ! i" using True len(3) by simp
    with True show ?thesis unfolding e using len lz "2.prems"(3) by (simp add: overwrite_in)
  next
    case False
    then have "?xs ! i = xs ! i" using len "2.prems"(3) by (auto simp: overwrite_in)
    moreover have "?z ! i = ?xs ! i" using "2.prems" False len calculation by (intro "2.IH") auto
    ultimately show ?thesis unfolding e using False len lz "2.prems"(3) by (auto simp: overwrite_in)
  qed
qed

definition entry_of :: "uninstall_data_t \<Rightarrow> u8 list \<times> u64" where
  "entry_of u = (ud_data u, ud_loc u)"

lemma entry_of_simp [simp]: "entry_of \<lparr>ud_data = x, ud_ptr = p, ud_loc = l, ud_count = c\<rparr> = (x, l)"
  by (simp add: entry_of_def)

definition sized :: "uninstall_data_t \<Rightarrow> bool" where
  "sized u \<longleftrightarrow> unat (ud_count u) = length (ud_data u)"

lemma write_back_ok:
  assumes "dev_ok d" "all_ok d" "uninstalling d" "sized u" "unat (ud_loc u) + length (ud_data u) \<le> usable d"
  shows "\<exists>d'. write_back u d = (True, d') \<and> dev_frame d d' \<and> dev_ok d'
     \<and> view d' = overwrite (view d) (unat (ud_loc u)) (ud_data u)"
proof -
  have "write_back u d = device_write_loop (ud_data u) (ud_loc u) 0 d"
    using assms(3,4) by (simp add: write_back_def device_write_def sized_def)
  with write_loop_ok [OF assms(1,2,5), of 0] show ?thesis by auto
qed

lemma uninstall_entries_ok:
  assumes "dev_ok d" "all_ok d" "uninstalling d" "\<forall>u \<in> set us. sized u" "in_range (usable d) (map entry_of us)"
  shows "\<exists>d'. uninstall_entries us False False d = (False, False, d') \<and> dev_frame d d' \<and> dev_ok d'
     \<and> view d' = written (map entry_of us) (view d)"
  using assms
proof (induction us arbitrary: d)
  case Nil
  then show ?case using dev_frame_refl by auto
next
  case (Cons u us)
  then obtain d1 where d1: "write_back u d = (True, d1)" "dev_frame d d1" "dev_ok d1"
    "view d1 = overwrite (view d) (unat (ud_loc u)) (ud_data u)"
    using write_back_ok [of d u] by (auto simp: entry_of_def [of u])
  note f = dev_frame_simps [OF d1(2)]
  obtain d' where "uninstall_entries us False False d1 = (False, False, d')" "dev_frame d1 d'" "dev_ok d'"
    "view d' = written (map entry_of us) (view d1)"
    using Cons.IH [OF d1(3)] f(2,9) Cons.prems usable_frame [OF d1(2)] by (auto simp: entry_of_def [of u])
  then show ?case using d1 dev_frame_trans [OF d1(2)] by (auto simp: entry_of_def [of u])
qed

lemma reset_cache_ok:
  assumes "dev_sane d" "all_ok d"
  shows "dev_ok (reset_cache d)" "all_ok (reset_cache d)" "view (reset_cache d) = dev_data d"
    "usable (reset_cache d) = usable d"
  using assms by (auto simp: reset_cache_def dev_ok_def dev_sane_def all_ok_def view_def usable_def)

text \<open>Whatever has reached the device and whatever is in the cache, undoing writes the saved ranges over
  the device.\<close>

lemma uninstall_ok:
  assumes "dev_sane d" "all_ok d" "\<forall>u \<in> set (saved d). sized u" "in_range (usable d) (map entry_of (saved d))"
  shows "\<exists>d'. uninstall d = (True, d') \<and> dev_ok d' \<and> dev_data d' = written (map entry_of (saved d)) (dev_data d)
     \<and> uninstall_data d' = uninstall_data d \<and> uninstall_data_i d' = uninstall_data_i d \<and> freed d' = freed d
     \<and> empty_lba d' = empty_lba d"
proof -
  define d1 where "d1 = reset_cache (d\<lparr>uninstalling := True\<rparr>)"
  have d1: "dev_ok d1" "all_ok d1" "view d1 = dev_data d" "usable d1 = usable d" "uninstalling d1" "saved d1 = saved d"
    "uninstall_data d1 = uninstall_data d" "uninstall_data_i d1 = uninstall_data_i d" "freed d1 = freed d"
    "empty_lba d1 = empty_lba d"
    using reset_cache_ok [of "d\<lparr>uninstalling := True\<rparr>"] assms(1,2)
    by (simp_all add: d1_def dev_sane_def) (simp_all add: reset_cache_def saved_def)
  from uninstall_entries_ok [OF d1(1,2,5), of "saved d"] assms(3,4) d1(4) obtain d2 where
    d2: "uninstall_entries (saved d) False False d1 = (False, False, d2)" "dev_frame d1 d2" "dev_ok d2"
    "view d2 = written (map entry_of (saved d)) (dev_data d)" by (auto simp: d1(3))
  note f2 = dev_frame_simps [OF d2(2)]
  from flush_ok [OF d2(3) f2(9) [OF d1(2)]] obtain d3 where
    d3: "device_flush_cache d2 = (True, d3)" "dev_frame d2 d3" "dev_ok d3" "dev_data d3 = view d2" by blast
  have "uninstall d = (True, d3)" using d2(1) d3(1) d1(6) by (simp add: uninstall_def d1_def [symmetric])
  then show ?thesis using d3 d2(4) f2 dev_frame_simps [OF d3(2)] d1 by auto
qed

lemma free_entries_freed:
  "free_entries n d = d\<lparr>freed := freed d @ filter (\<lambda>p. p \<noteq> 0) (map (\<lambda>i. ud_ptr (uninstall_data d ! i)) [0 ..< n])\<rparr>"
proof -
  have "fold (\<lambda>i d'. free (ud_ptr (us ! i)) d') is d
      = d\<lparr>freed := freed d @ filter (\<lambda>p. p \<noteq> 0) (map (\<lambda>i. ud_ptr (us ! i)) is)\<rparr>" for us "is" and d :: device_state
    by (induction "is" arbitrary: d) (simp_all add: free_def)
  then show ?thesis by (simp add: free_entries_def)
qed

lemma free_uninstall_data_ok:
  assumes "unat (uninstall_data_i d) \<le> length (uninstall_data d)" "\<forall>u \<in> set (saved d). ud_ptr u \<noteq> 0"
  shows "free_uninstall_data d = Some (d\<lparr>freed := freed d @ map ud_ptr (saved d)\<rparr>)"
proof -
  have "map (\<lambda>i. ud_ptr (uninstall_data d ! i)) [0 ..< unat (uninstall_data_i d)] = map ud_ptr (saved d)"
    by (rule nth_equalityI) (use assms(1) in \<open>auto simp: saved_def\<close>)
  moreover have "filter (\<lambda>p. p \<noteq> 0) (map ud_ptr (saved d)) = map ud_ptr (saved d)"
    using assms(2) by (simp add: filter_id_conv)
  ultimately show ?thesis using assms(1) by (simp only: free_uninstall_data_def free_entries_freed not_less if_False)
      (simp add: linorder_not_less)
qed

section \<open>The invariant of an installation\<close>

text \<open>\<open>undoable xs ws d\<close>: the device had the contents \<open>xs\<close> when it was opened, the writes \<open>ws\<close> have been made since, the
  entries in use say what they replaced, and no byte outside their ranges has changed on the
  device. Nothing is said about the cache, so this also holds when a transfer has failed. While
  transfers succeed, \<open>installing xs ws d\<close> holds: the program sees \<open>xs\<close> with the writes applied.\<close>

definition pointers_ok :: "device_state \<Rightarrow> bool" where
  "pointers_ok d \<longleftrightarrow> distinct (freed d @ map ud_ptr (saved d))
     \<and> (\<forall>p \<in> set (freed d @ map ud_ptr (saved d)). 0 < p \<and> p < heap_next d \<and> p \<noteq> empty_lba d)
     \<and> empty_lba d < heap_next d"

definition undoable :: "u8 list \<Rightarrow> (u8 list \<times> u64) list \<Rightarrow> device_state \<Rightarrow> bool" where
  "undoable xs ws d \<longleftrightarrow> dev_sane d \<and> all_ok d \<and> saved_ok d \<and> \<not> uninstalling d \<and> pointers_ok d
     \<and> (\<forall>u \<in> set (saved d). sized u) \<and> length (dev_data d) = length xs \<and> in_range (usable d) ws
     \<and> map entry_of (saved d) = old_ranges ws xs \<and> (\<forall>i < length xs. covers ws i \<or> dev_data d ! i = xs ! i)"

definition installing :: "u8 list \<Rightarrow> (u8 list \<times> u64) list \<Rightarrow> device_state \<Rightarrow> bool" where
  "installing xs ws d \<longleftrightarrow> undoable xs ws d \<and> dev_ok d \<and> view d = written ws xs"

lemma covers_append: "covers (us @ ws) i \<longleftrightarrow> covers us i \<or> covers ws i"
  by (auto simp: covers_def)

lemma in_range_append: "in_range n (us @ ws) \<longleftrightarrow> in_range n us \<and> in_range n ws"
  by (auto simp: in_range_def)

lemma old_ranges_append: "old_ranges (us @ ws) xs = old_ranges us xs @ old_ranges ws (written us xs)"
  by (induction us xs rule: old_ranges.induct) simp_all

lemma old_ranges_sizes:
  "in_range (length xs) ws \<Longrightarrow> map (\<lambda>(b, l). (length b, l)) (old_ranges ws xs) = map (\<lambda>(b, l). (length b, l)) ws"
  by (induction ws xs rule: old_ranges.induct) (auto simp: overwrite_in)

lemma usable_le: "usable d \<le> length (dev_data d)"
  by (simp add: usable_def)

lemma in_range_mono: "in_range n ws \<Longrightarrow> n \<le> m \<Longrightarrow> in_range m ws"
  by (fastforce simp: in_range_def)

lemma old_ranges_fit: "in_range (length xs) ws \<Longrightarrow> in_range n ws \<Longrightarrow> in_range n (old_ranges ws xs)"
proof -
  assume r: "in_range (length xs) ws" "in_range n ws"
  have "set (map (\<lambda>(b, l). (length b, l)) (old_ranges ws xs)) = set (map (\<lambda>(b, l). (length b, l)) ws)"
    using old_ranges_sizes [OF r(1)] by simp
  with r(2) show ?thesis unfolding in_range_def by (force simp: set_eq_iff)
qed

lemma undoable_in_range: "undoable xs ws d \<Longrightarrow> in_range (length xs) ws"
  using in_range_mono usable_le unfolding undoable_def by metis

lemma written_outside:
  "in_range (length xs) ws \<Longrightarrow> i < length xs \<Longrightarrow> \<not> covers ws i \<Longrightarrow> written ws xs ! i = xs ! i"
  by (induction ws xs rule: written.induct) (auto simp: overwrite_in)

text \<open>The saved ranges lie within the device, and writing them back in reverse order restores it.\<close>

lemma undo_restores:
  assumes "undoable xs ws d"
  shows "written (rev (map entry_of (saved d))) (dev_data d) = xs" "in_range (usable d) (rev (map entry_of (saved d)))"
proof -
  have d: "in_range (usable d) ws" "length (dev_data d) = length xs" "map entry_of (saved d) = old_ranges ws xs"
    "\<forall>i < length xs. covers ws i \<or> dev_data d ! i = xs ! i"
    using assms by (simp_all add: undoable_def)
  note r = undoable_in_range [OF assms]
  have len: "length (written (rev (old_ranges ws xs)) (dev_data d)) = length xs"
    using old_ranges_in_range [OF r] d(2) by (subst written_length) (simp_all add: in_range_def)
  show "written (rev (map entry_of (saved d))) (dev_data d) = xs"
    by (rule nth_equalityI) (use len undo_pointwise [OF r d(2)] d(3,4) in auto)
  show "in_range (usable d) (rev (map entry_of (saved d)))"
    using old_ranges_fit [OF r d(1)] d(3) by (simp add: in_range_def)
qed

text \<open>Every state from which the cleanup starts leads back to the contents of the beginning.\<close>

lemma undoable_cleanup:
  assumes "undoable xs ws d"
  shows "\<exists>d'. install_cleanup big False to_file d = Some (d', None) \<and> dev_data d' = xs
     \<and> freed d' = freed d @ rev (map ud_ptr (saved d)) \<and> empty_lba d' = empty_lba d"
proof -
  have d: "dev_sane d" "all_ok d" "saved_ok d" "pointers_ok d" "\<forall>u \<in> set (saved d). sized u"
    using assms by (simp_all add: undoable_def)
  define d2 where "d2 = reverse_uninstall_data d"
  note rv = reverse_saved [OF d(3), folded d2_def]
  have d2: "dev_sane d2" "all_ok d2" "usable d2 = usable d" "dev_data d2 = dev_data d" "freed d2 = freed d"
    "empty_lba d2 = empty_lba d"
    using d by (simp_all add: d2_def reverse_uninstall_data_def Let_def dev_sane_def)
  have rg: "in_range (usable d2) (map entry_of (saved d2))"
    using undo_restores(2) [OF assms] d2(3) by (simp add: rv(1) rev_map)
  have sz: "\<forall>u \<in> set (saved d2). sized u" using d(5) by (simp add: rv(1))
  from uninstall_ok [OF d2(1,2) sz rg] obtain d3 where
    d3: "uninstall d2 = (True, d3)" "dev_data d3 = written (map entry_of (saved d2)) (dev_data d2)"
    "uninstall_data d3 = uninstall_data d2" "uninstall_data_i d3 = uninstall_data_i d2" "freed d3 = freed d"
    "empty_lba d3 = empty_lba d"
    using d2(5,6) by auto
  have "dev_data d3 = xs" using undo_restores(1) [OF assms] d3(2) d2(4) by (simp add: rv(1) rev_map)
  moreover have s3: "saved d3 = rev (saved d)" using d3(3,4) rv(1) by (simp add: saved_def)
  moreover have "unat (uninstall_data_i d3) \<le> length (uninstall_data d3)"
    using d3(3,4) rv(2,3) by (simp add: saved_ok_def)
  moreover have "\<forall>u \<in> set (saved d3). ud_ptr u \<noteq> 0" using d(4) by (auto simp: s3 pointers_ok_def)
  ultimately show ?thesis
    using free_uninstall_data_ok [of d3] d3
    by (simp add: install_cleanup_def d2_def [symmetric] Let_def rev_map)
qed

lemma installing_write:
  assumes "installing xs ws d" "unat loc + length buffer \<le> usable d" "unat (uninstall_data_i d) < UNINSTALL_DATA_MAX"
  shows "\<exists>d'. device_write buffer loc d = (True, d') \<and> installing xs (ws @ [(buffer, loc)]) d' \<and> usable d' = usable d
     \<and> unat (uninstall_data_i d') = Suc (unat (uninstall_data_i d)) \<and> freed d' = freed d"
proof -
  have d: "dev_ok d" "all_ok d" "saved_ok d" "\<not> uninstalling d" "pointers_ok d" "\<forall>u \<in> set (saved d). sized u"
    "length (dev_data d) = length xs" "in_range (usable d) ws" "map entry_of (saved d) = old_ranges ws xs"
    "\<forall>i < length xs. covers ws i \<or> dev_data d ! i = xs ! i" "view d = written ws xs"
    using assms(1) by (simp_all add: installing_def undoable_def)
  note r = undoable_in_range [OF assms(1) [unfolded installing_def, THEN conjunct1]]
  have us: "unat loc + length buffer \<le> length (view d)"
    using assms(2) usable_le [of d] view_length [OF d(1)] by simp
  then have small: "length buffer < 2 ^ 64" using d(1) view_length [OF d(1)] by (simp add: dev_ok_def)
  let ?e = "\<lparr>ud_data = take (length buffer) (drop (unat loc) (view d)), ud_ptr = heap_next d,
    ud_loc = loc, ud_count = of_nat (length buffer)\<rparr>"
  from device_write_ok [OF d(1-3) assms(2) d(4) assms(3)] obtain d1 where
    d1: "device_write buffer loc d = (True, d1)" "dev_ok d1" "all_ok d1" "saved_ok d1" "usable d1 = usable d"
    "view d1 = overwrite (view d) (unat loc) buffer" "settled (unat loc) (unat loc + length buffer) d d1"
    "length (dev_data d1) = length (dev_data d)" "\<not> uninstalling d1" "freed d1 = freed d" "empty_lba d1 = empty_lba d"
    "heap_next d1 = Suc (heap_next d)" "unat (uninstall_data_i d1) = Suc (unat (uninstall_data_i d))"
    "saved d1 = saved d @ [?e]" by blast
  have "sized ?e" using us small by (simp add: sized_def unat_of_nat_u64)
  moreover have "pointers_ok d1" using d(5) by (auto simp: pointers_ok_def d1(10-12,14) less_Suc_eq)
  moreover have "covers (ws @ [(buffer, loc)]) i \<or> dev_data d1 ! i = xs ! i" if i: "i < length xs" for i
  proof (cases "covers (ws @ [(buffer, loc)]) i")
    case False
    then have "\<not> covers ws i" "i < unat loc \<or> unat loc + length buffer \<le> i" by (auto simp: covers_append)
    then show ?thesis using d(7,10,11) d1(7) i written_outside [OF r i] by (fastforce simp: settled_def)
  qed simp
  ultimately have "undoable xs (ws @ [(buffer, loc)]) d1"
    using d d1 assms(2) dev_ok_sane [OF d1(2)]
    by (simp add: undoable_def in_range_append old_ranges_append)
  then show ?thesis using d1 d(11) by (simp add: installing_def written_append)
qed

lemma writes_ok:
  assumes "installing xs vs d" "in_range (usable d) ws" "unat (uninstall_data_i d) + length ws \<le> UNINSTALL_DATA_MAX"
  shows "\<exists>d'. writes ws d = (True, d') \<and> installing xs (vs @ ws) d' \<and> freed d' = freed d
     \<and> unat (uninstall_data_i d') = unat (uninstall_data_i d) + length ws"
  using assms
proof (induction ws arbitrary: d vs)
  case Nil
  then show ?case by simp
next
  case (Cons w ws)
  obtain buffer loc where w: "w = (buffer, loc)" by force
  with Cons.prems installing_write [OF Cons.prems(1), of loc buffer] obtain d1 where
    d1: "device_write buffer loc d = (True, d1)" "installing xs (vs @ [w]) d1" "usable d1 = usable d"
    "unat (uninstall_data_i d1) = Suc (unat (uninstall_data_i d))" "freed d1 = freed d" by auto
  from Cons.IH [OF d1(2)] Cons.prems w d1 show ?case by auto
qed

lemma saved_length: "saved_ok d \<Longrightarrow> length (saved d) = unat (uninstall_data_i d)"
  by (simp add: saved_def saved_ok_def)

lemma installing_opened:
  assumes "dev_ok d" "all_ok d" "saved_ok d" "\<not> uninstalling d" "saved d = []" "cache_state d = CACHE_CLEAN"
    and "freed d = []" "empty_lba d < heap_next d"
  shows "installing (dev_data d) [] d"
  using assms dev_ok_sane by (simp add: installing_def undoable_def pointers_ok_def view_def)

section \<open>Properties\<close>

text \<open>A failed installation leaves no trace: when any sequence of writes within the device is followed by
  the cleanup of a failed run, every byte of the device is again what it was when the device was
  opened, no matter which of the written blocks had reached it, and every buffer is freed once.\<close>

theorem failed_install_undone:
  assumes "dev_ok d" "all_ok d" "saved_ok d" "\<not> uninstalling d" "saved d = []" "cache_state d = CACHE_CLEAN"
    and "in_range (usable d) ws" "length ws \<le> UNINSTALL_DATA_MAX" "empty_lba d < heap_next d" "freed d = []"
  shows "\<exists>d' d''. writes ws d = (True, d') \<and> install_cleanup big False to_file d' = Some (d'', None)
     \<and> dev_data d'' = dev_data d \<and> distinct (freed d'') \<and> length (freed d'') = length ws"
proof -
  have i: "unat (uninstall_data_i d) = 0" using saved_length [OF assms(3)] assms(5) by simp
  note inst = installing_opened [OF assms(1-6,10,9)]
  from writes_ok [OF inst assms(7)] assms(8) i obtain d1 where
    d1: "writes ws d = (True, d1)" "installing (dev_data d) ws d1" "freed d1 = []" "unat (uninstall_data_i d1) = length ws"
    using assms(10) by auto
  then have u: "undoable (dev_data d) ws d1" by (simp add: installing_def)
  from undoable_cleanup [OF this, of big to_file] obtain d2 where
    "install_cleanup big False to_file d1 = Some (d2, None)" "dev_data d2 = dev_data d"
    "freed d2 = rev (map ud_ptr (saved d1))" using d1(3) by auto
  moreover have "distinct (map ud_ptr (saved d1))" "length (saved d1) = length ws"
    using u d1(3,4) saved_length [of d1] by (simp_all add: undoable_def pointers_ok_def)
  ultimately show ?thesis using d1(1) by auto
qed

section \<open>The uninstall data file\<close>

text \<open>The bytes of the file.\<close>

definition entry_bytes :: "bool \<Rightarrow> uninstall_data_t \<Rightarrow> u8 list" where
  "entry_bytes big u = native_bytes big 8 (ud_loc u) @ native_bytes big 8 (ud_count u) @ ud_data u"

definition file_bytes :: "bool \<Rightarrow> u64 \<Rightarrow> uninstall_data_t list \<Rightarrow> u8 list" where
  "file_bytes big n us = native_bytes big 8 n @ concat (map (entry_bytes big) us)"

lemma all_ok_call: "all_ok d \<Longrightarrow> lib_call d = (True, d\<lparr>lib_n := Suc (lib_n d)\<rparr>)"
  by (simp add: lib_call_def all_ok_def)

lemma store_entries_ok:
  assumes "all_ok d" "\<forall>u \<in> set us. sized u \<and> ud_data u \<noteq> []"
  shows "\<exists>n. store_entries big us out d = (True, out @ concat (map (entry_bytes big) us), d\<lparr>lib_n := n\<rparr>) \<and> lib_n d \<le> n"
  using assms
proof (induction us arbitrary: out d)
  case Nil
  then show ?case by (auto intro: exI [of _ "lib_n d"])
next
  case (Cons u us)
  define d3 where "d3 = d\<lparr>lib_n := Suc (Suc (Suc (lib_n d)))\<rparr>"
  have ok: "lib_ok d k" if "lib_n d \<le> k" for k using Cons.prems(1) that by (simp add: all_ok_def)
  have "store_entries big (u # us) out d = store_entries big us (out @ entry_bytes big u) d3"
    using Cons.prems(2)
    by (simp add: ud_fwrite_def lib_call_def ok d3_def entry_bytes_def sized_def)
  moreover have "all_ok d3" using Cons.prems(1) by (simp add: all_ok_def d3_def)
  ultimately show ?case using Cons.IH [of d3 "out @ entry_bytes big u"] Cons.prems(2) by (auto simp: d3_def)
qed

lemma store_ok:
  assumes "all_ok d" "\<forall>u \<in> set (saved d). sized u \<and> ud_data u \<noteq> []"
  shows "\<exists>d'. store_uninstall_data big d = (True, Some (file_bytes big (uninstall_data_i d) (saved d)), d')
     \<and> (\<exists>n. d' = d\<lparr>lib_n := n\<rparr>)"
proof -
  define d2 where "d2 = d\<lparr>lib_n := Suc (Suc (lib_n d))\<rparr>"
  have "all_ok d2" "saved d2 = saved d" using assms(1) by (simp_all add: all_ok_def d2_def saved_def)
  moreover have "store_uninstall_data big d =
      (let (ok, out, d3) = store_entries big (saved d2) (native_bytes big 8 (uninstall_data_i d)) d2 in (ok, Some out, d3))"
    using assms(1)
    by (simp add: store_uninstall_data_def ud_fwrite_def lib_call_def all_ok_def d2_def Let_def)
  ultimately show ?thesis
    using store_entries_ok [of d2 "saved d" big "native_bytes big 8 (uninstall_data_i d)"] assms(2)
    by (auto simp: file_bytes_def d2_def)
qed

lemma ud_fread_ok:
  assumes "all_ok d" "length bs = n" "n \<noteq> 0"
  shows "ud_fread n (bs @ rest) d = (Some bs, rest, d\<lparr>lib_n := Suc (lib_n d)\<rparr>)"
  using assms by (simp add: ud_fread_def all_ok_call)

text \<open>Loading an entry fills the next slot of the array.\<close>

lemma load_entries_ok:
  assumes "all_ok d" "\<forall>u \<in> set us. sized u \<and> ud_data u \<noteq> []" "i + length us \<le> length (uninstall_data d)"
  shows "\<exists>d'. load_entries big (length us) i (concat (map (entry_bytes big) us)) d = (True, d')
     \<and> all_ok d' \<and> length (uninstall_data d') = length (uninstall_data d) \<and> uninstall_data_i d' = uninstall_data_i d
     \<and> take i (uninstall_data d') = take i (uninstall_data d) \<and> freed d' = freed d
     \<and> uninstall_data_rev d' = uninstall_data_rev d
     \<and> dev_data d' = dev_data d \<and> block_size d' = block_size d \<and> cache d' = cache d
     \<and> map (\<lambda>u. (entry_of u, ud_count u)) (take (length us) (drop i (uninstall_data d')))
       = map (\<lambda>u. (entry_of u, ud_count u)) us"
  using assms
proof (induction us arbitrary: i d)
  case Nil
  then show ?case by auto
next
  case (Cons u us)
  let ?rest = "concat (map (entry_bytes big) us)"
  have len: "i < length (uninstall_data d)" using Cons.prems(3) by simp
  have sz: "unat (ud_count u) = length (ud_data u)" "ud_data u \<noteq> []" using Cons.prems(2) by (simp_all add: sized_def)
  define v where "v = (uninstall_data d ! i)\<lparr>ud_loc := ud_loc u, ud_count := ud_count u,
    ud_ptr := heap_next d, ud_data := ud_data u\<rparr>"
  define d1 where "d1 = d\<lparr>heap_next := Suc (heap_next d), lib_n := Suc (Suc (Suc (Suc (lib_n d)))),
    uninstall_data := (uninstall_data d)[i := v]\<rparr>"
  have nat: "native big (native_bytes big 8 x) = x" for x :: u64 by (rule native_native_bytes) simp
  have ok: "lib_ok d k" if "lib_n d \<le> k" for k using Cons.prems(1) that by (simp add: all_ok_def)
  have "load_entries big (length (u # us)) i (concat (map (entry_bytes big) (u # us))) d
      = load_entries big (length us) (Suc i) ?rest d1"
    using sz len
    by (simp add: entry_bytes_def ud_fread_def lib_call_def malloc_def set_entry_def ok nat d1_def v_def Let_def)
  moreover have "all_ok d1" using Cons.prems(1) by (simp add: all_ok_def d1_def)
  moreover have "Suc i + length us \<le> length (uninstall_data d1)" using Cons.prems(3) by (simp add: d1_def)
  ultimately obtain d' where d': "load_entries big (length (u # us)) i (concat (map (entry_bytes big) (u # us))) d = (True, d')"
    "all_ok d'" "length (uninstall_data d') = length (uninstall_data d)" "uninstall_data_i d' = uninstall_data_i d"
    "take (Suc i) (uninstall_data d') = take (Suc i) ((uninstall_data d)[i := v])" "freed d' = freed d"
    "uninstall_data_rev d' = uninstall_data_rev d" "dev_data d' = dev_data d" "block_size d' = block_size d" "cache d' = cache d"
    "map (\<lambda>u. (entry_of u, ud_count u)) (take (length us) (drop (Suc i) (uninstall_data d')))
       = map (\<lambda>u. (entry_of u, ud_count u)) us"
    using Cons.IH [of d1 "Suc i"] Cons.prems(2) by (auto simp: d1_def)
  have "uninstall_data d' ! i = v"
    using arg_cong [OF d'(5), of "\<lambda>xs. xs ! i"] len by simp
  moreover have "take i (uninstall_data d') = take i (uninstall_data d)"
    using arg_cong [OF d'(5), of "take i"] by (simp add: min_def)
  moreover have "drop i (uninstall_data d') = uninstall_data d' ! i # drop (Suc i) (uninstall_data d')"
    using len d'(3) by (simp add: Cons_nth_drop_Suc)
  ultimately show ?case using d' by (auto simp: v_def entry_of_def)
qed

lemma load_ok:
  assumes "all_ok e" "saved_ok e" "\<forall>u \<in> set us. sized u \<and> ud_data u \<noteq> []"
    and "length us = unat n" "unat n \<le> UNINSTALL_DATA_MAX"
  shows "\<exists>e'. load_uninstall_data big (Some (file_bytes big n us)) e = (True, e') \<and> all_ok e' \<and> saved_ok e'
     \<and> freed e' = freed e \<and> dev_data e' = dev_data e \<and> block_size e' = block_size e \<and> cache e' = cache e
     \<and> map (\<lambda>u. (ud_data u, ud_loc u, ud_count u)) (saved e') = map (\<lambda>u. (ud_data u, ud_loc u, ud_count u)) us"
proof -
  define e1 where "e1 = e\<lparr>lib_n := Suc (lib_n e), uninstall_data_i := n\<rparr>"
  have e1: "all_ok e1" "length (uninstall_data e1) = UNINSTALL_DATA_MAX" "length (uninstall_data_rev e1) = UNINSTALL_DATA_MAX"
    using assms(1,2) by (simp_all add: all_ok_def e1_def saved_ok_def)
  have nat: "native big (native_bytes big 8 n) = n" by (rule native_native_bytes) simp
  have ld: "load_uninstall_data big (Some (file_bytes big n us)) e
      = load_entries big (length us) 0 (concat (map (entry_bytes big) us)) e1"
    using assms(4,5) ud_fread_ok [OF assms(1), of "native_bytes big 8 n" 8]
    by (simp add: load_uninstall_data_def file_bytes_def nat e1_def)
  from load_entries_ok [OF e1(1) assms(3), of 0 big] assms(4,5) e1(2) obtain e' where
    e': "load_entries big (length us) 0 (concat (map (entry_bytes big) us)) e1 = (True, e')" "all_ok e'"
    "length (uninstall_data e') = UNINSTALL_DATA_MAX" "uninstall_data_i e' = n" "freed e' = freed e"
    "length (uninstall_data_rev e') = UNINSTALL_DATA_MAX" "dev_data e' = dev_data e" "block_size e' = block_size e"
    "cache e' = cache e"
    "map (\<lambda>u. (entry_of u, ud_count u)) (take (length us) (uninstall_data e')) = map (\<lambda>u. (entry_of u, ud_count u)) us"
    using e1(3) by (auto simp: e1_def)
  have "saved e' = take (length us) (uninstall_data e')" using e'(4) assms(4) by (simp add: saved_def)
  with arg_cong [OF e'(10), of "map (\<lambda>((x, l), c). (x, l, c))"]
  have "map (\<lambda>u. (ud_data u, ud_loc u, ud_count u)) (saved e') = map (\<lambda>u. (ud_data u, ud_loc u, ud_count u)) us"
    by (simp add: entry_of_def comp_def)
  moreover have "saved_ok e'" using e' assms(5) by (simp add: saved_ok_def)
  ultimately show ?thesis using ld e' by auto
qed

text \<open>The uninstall data survives the file: what a successful run writes is read back, in a later run with
  an empty record, as the same ranges in the same order, on hosts of either byte order.\<close>

theorem uninstall_file_round_trip:
  assumes "all_ok d" "saved_ok d" "\<forall>u \<in> set (saved d). sized u \<and> ud_data u \<noteq> []"
    and "all_ok e" "saved_ok e" "freed e = []"
  shows "\<exists>file d' e'. store_uninstall_data big d = (True, Some file, d')
     \<and> load_uninstall_data big (Some file) e = (True, e') \<and> saved_ok e' \<and> freed e' = []
     \<and> map (\<lambda>u. (ud_data u, ud_loc u, ud_count u)) (saved e') = map (\<lambda>u. (ud_data u, ud_loc u, ud_count u)) (saved d)"
proof -
  have "unat (uninstall_data_i d) \<le> UNINSTALL_DATA_MAX" using assms(2) by (simp add: saved_ok_def)
  from load_ok [OF assms(4,5,3) saved_length [OF assms(2)] this, of big] store_ok [OF assms(1,3), of big] assms(6)
  show ?thesis by auto
qed

text \<open>C38: a damaged uninstall data file makes the program free memory twice or leave the array: when the file
  announces two entries and ends after the first, the error path of \<open>load_uninstall_data\<close> frees the
  buffer of the first entry and the common cleanup frees it again; when it announces more entries
  than the array has, the cleanup runs past its end.\<close>

theorem damaged_file_double_free:
  assumes "all_ok e" "saved_ok e" "freed e = []" "0 < heap_next e" "sized u" "ud_data u \<noteq> []"
  shows "(\<exists>e'. uninstall_mode big (Some (native_bytes big 8 (2 :: u64) @ entry_bytes big u)) e = Some (False, e')
       \<and> \<not> distinct (freed e'))
     \<and> uninstall_mode big (Some (native_bytes big 8 (1000 :: u64))) e = None"
proof
  have ok: "lib_ok e k" if "lib_n e \<le> k" for k using assms(1) that by (simp add: all_ok_def)
  have nat: "native big (native_bytes big 8 x) = x" for x :: u64 by (rule native_native_bytes) simp
  have two: "load_entries big 2 = load_entries big (Suc (Suc 0))" by (simp only: numeral_2_eq_2)
  have len: "length (uninstall_data e) = 256" using assms(2) by (simp add: saved_ok_def UNINSTALL_DATA_MAX_def)
  have "\<exists>d. load_uninstall_data big (Some (native_bytes big 8 (2 :: u64) @ entry_bytes big u)) e = (False, d)
      \<and> freed d = [heap_next e] \<and> uninstall_data_i d = 2 \<and> length (uninstall_data d) = 256
      \<and> ud_ptr (uninstall_data d ! 0) = heap_next e"
    using assms(3-6) len
    by (simp add: load_uninstall_data_def entry_bytes_def ud_fread_def lib_call_def malloc_def set_entry_def ok nat
        two sized_def UNINSTALL_DATA_MAX_def free_entries_freed Let_def)
  then obtain d where d: "load_uninstall_data big (Some (native_bytes big 8 (2 :: u64) @ entry_bytes big u)) e = (False, d)"
    "freed d = [heap_next e]" "uninstall_data_i d = 2" "length (uninstall_data d) = 256"
    "ud_ptr (uninstall_data d ! 0) = heap_next e" by blast
  then show "\<exists>e'. uninstall_mode big (Some (native_bytes big 8 (2 :: u64) @ entry_bytes big u)) e = Some (False, e')
       \<and> \<not> distinct (freed e')"
    using assms(4) by (simp add: uninstall_mode_def free_uninstall_data_def free_entries_freed upt_rec)
  show "uninstall_mode big (Some (native_bytes big 8 (1000 :: u64))) e = None"
    using len by (simp add: uninstall_mode_def load_uninstall_data_def ud_fread_def lib_call_def ok nat
        UNINSTALL_DATA_MAX_def free_uninstall_data_def)
qed

subsection \<open>Instances\<close>

theorem failed_install_undone_witness:
  "\<exists>d d' d''. device_init (disk two_blocks) = (True, d) \<and> writes [([7, 8, 9], 511), ([5], 0)] d = (True, d')
     \<and> install_cleanup False False False d' = Some (d'', None) \<and> dev_data d'' = two_blocks \<and> length (freed d'') = 2"
proof -
  obtain d where d: "device_init (disk two_blocks) = (True, d)" "dev_ok d" "all_ok d" "saved_ok d" "saved d = []"
    "\<not> uninstalling d" "usable d = 1024" "freed d = []" "heap_next d = 1" "dev_data d = two_blocks"
    "cache_state d = CACHE_CLEAN" "empty_lba d = 0" by (rule two_blocks_opened)
  from failed_install_undone [OF d(2-4,6,5,11), of "[([7, 8, 9], 511), ([5], 0)]" False False] d
  show ?thesis by (auto simp: UNINSTALL_DATA_MAX_def)
qed

theorem uninstall_file_round_trip_witness:
  "\<exists>d d1 d' file e'. device_init (disk two_blocks) = (True, d) \<and> device_write [7, 8, 9] 511 d = (True, d1)
     \<and> store_uninstall_data True d1 = (True, Some file, d') \<and> load_uninstall_data True (Some file) d = (True, e')
     \<and> map (\<lambda>u. (ud_data u, ud_loc u, ud_count u)) (saved e') = [([1, 2, 2], 511, 3)]"
proof -
  obtain d where d: "device_init (disk two_blocks) = (True, d)" "dev_ok d" "all_ok d" "view d = two_blocks"
    "saved_ok d" "saved d = []" "\<not> uninstalling d" "usable d = 1024" "uninstall_data_i d = 0" "freed d = []"
    by (rule two_blocks_opened)
  obtain d1 where d1: "device_write [7, 8, 9] 511 d = (True, d1)" "all_ok d1" "saved_ok d1"
    "saved d1 = [\<lparr>ud_data = [1, 2, 2], ud_ptr = heap_next d, ud_loc = 511, ud_count = 3\<rparr>]"
    using device_write_ok [OF d(2,3,5), of 511 "[7, 8, 9]"] d
    by (auto simp: two_blocks_boundary UNINSTALL_DATA_MAX_def numeral_3_eq_3 [symmetric])
  have "\<forall>u \<in> set (saved d1). sized u \<and> ud_data u \<noteq> []" by (simp add: d1(4) sized_def)
  from uninstall_file_round_trip [OF d1(2,3) this d(3,5,10), of True] d(1) d1(1,4) show ?thesis by auto
qed

theorem damaged_file_double_free_witness:
  "\<exists>e e'. device_init (disk two_blocks) = (True, e) \<and> \<not> distinct (freed e')
     \<and> uninstall_mode False (Some (native_bytes False 8 (2 :: u64) @ entry_bytes False
          \<lparr>ud_data = [9], ud_ptr = 0, ud_loc = 0, ud_count = 1\<rparr>)) e = Some (False, e')"
proof -
  obtain d where d: "device_init (disk two_blocks) = (True, d)" "all_ok d" "saved_ok d" "freed d = []" "heap_next d = 1"
    by (rule two_blocks_opened)
  then have "0 < heap_next d" by simp
  from damaged_file_double_free [OF d(2-4) this, of "\<lparr>ud_data = [9], ud_ptr = 0, ud_loc = 0, ud_count = 1\<rparr>" False] d(1)
  show ?thesis by (auto simp: sized_def)
qed

end
