(* ===== verification/Limine_Enroll.thy ===== *)
theory Limine_Enroll
  imports Limine_Device "HOL-Library.Char_ord"
begin

text \<open>
  The commands of \<open>limine/limine.c\<close> that do not touch a disk: \<open>enroll-config\<close>, which writes the checksum of
  the configuration file behind a signature in the boot loader's executable, and \<open>version\<close>.

  The file system is a map from names to contents. An open file is the stream of the state: its
  contents and position are \<open>dev_data\<close> and \<open>dev_pos\<close>, and every library call may fail (\<open>lib_ok\<close>). What
  \<open>quiet\<close> suppresses is diagnostic output, which is left out.
\<close>

section \<open>Exit codes and names\<close>

type_synonym files = "string \<rightharpoonup> u8 list"

definition EXIT_SUCCESS :: int where
  "EXIT_SUCCESS = 0"

definition EXIT_FAILURE :: int where
  "EXIT_FAILURE = 1"

definition CONFIG_B2SUM_SIGNATURE :: "u8 list" where
  "CONFIG_B2SUM_SIGNATURE = map of_char ''++CONFIG_B2SUM_SIGNATURE++''"

lemma length_signature [simp]: "length CONFIG_B2SUM_SIGNATURE = 26"
  by (simp add: CONFIG_B2SUM_SIGNATURE_def)

section \<open>Arguments\<close>

text \<open>\<open>None\<close> stands for the request for help, which ends the program.\<close>

function enroll_args :: "nat \<Rightarrow> nat \<Rightarrow> argv \<Rightarrow> bool \<Rightarrow> bool \<Rightarrow> (nat \<times> argv \<times> bool \<times> bool) option" where
  "enroll_args i argc argv quiet reset =
     (if i < argc then
        if argv ! i = Some ''--help'' \<or> argv ! i = Some ''-h'' then None
        else if argv ! i = Some ''--quiet'' then
          let (argc', argv') = remove_arg argc argv i in enroll_args i argc' argv' True reset
        else if argv ! i = Some ''--reset'' then
          let (argc', argv') = remove_arg argc argv i in enroll_args i argc' argv' quiet True
        else enroll_args (i + 1) argc argv quiet reset
      else Some (argc, argv, quiet, reset))"
  by pat_completeness auto
termination
  by (relation "measure (\<lambda>(i, argc, argv, quiet, reset). argc - i)") (auto simp: remove_arg_def Let_def)

declare enroll_args.simps [simp del]

definition hex_char :: "char \<Rightarrow> bool" where
  "hex_char c \<longleftrightarrow> (c \<ge> CHR ''0'' \<and> c \<le> CHR ''9'') \<or> (c \<ge> CHR ''a'' \<and> c \<le> CHR ''f'')
     \<or> (c \<ge> CHR ''A'' \<and> c \<le> CHR ''F'')"

section \<open>The search\<close>

text \<open>\<open>i -= checked_count\<close> is followed by the \<open>i++\<close> of the loop.\<close>

function find_signature :: "u8 list \<Rightarrow> nat \<Rightarrow> nat \<Rightarrow> nat \<Rightarrow> nat option" where
  "find_signature bootloader bound i checked_count =
     (if i < bound then
        if bootloader ! i \<noteq> CONFIG_B2SUM_SIGNATURE ! checked_count then
          if checked_count > 0 then find_signature bootloader bound (i - checked_count + 1) 0
          else find_signature bootloader bound (i + 1) checked_count
        else if checked_count + 1 = length CONFIG_B2SUM_SIGNATURE then Some (i + 1)
        else find_signature bootloader bound (i + 1) (checked_count + 1)
      else None)"
  by pat_completeness auto
termination
  by (relation "measures [\<lambda>(bs, bound, i, c). bound - (i - c), \<lambda>(bs, bound, i, c). bound - i]") auto

declare find_signature.simps [simp del]

section \<open>Enrolling\<close>

definition fseek_end :: "device_state \<Rightarrow> bool \<times> device_state" where
  "fseek_end d = (let (ok, d1) = lib_call d in if ok then (True, d1\<lparr>dev_pos := length (dev_data d1)\<rparr>) else (False, d1))"

definition ftell :: "device_state \<Rightarrow> nat option \<times> device_state" where
  "ftell d = (let (ok, d1) = lib_call d in if ok then (Some (dev_pos d1), d1) else (None, d1))"

text \<open>The body between \<open>fopen\<close> and \<open>fclose\<close>, over the open file. The buffer is freed where \<open>cleanup\<close> does.\<close>

definition enroll_buffer :: "bool \<Rightarrow> string option \<Rightarrow> nat \<Rightarrow> device_state \<Rightarrow> int \<times> device_state" where
  "enroll_buffer reset digest bootloader_size d =
     (let min_size = length CONFIG_B2SUM_SIGNATURE + 128;
          (bootloader, ok, d1) = fread1 bootloader_size d
      in if \<not> ok then (EXIT_FAILURE, d1)
      else case find_signature bootloader (bootloader_size - min_size + 1) 0 0 of
        None \<Rightarrow> (EXIT_FAILURE, d1)
      | Some checksum_loc \<Rightarrow>
          let bootloader = take checksum_loc bootloader
                @ (if \<not> reset then map of_char (take 128 (the digest)) else replicate 128 48)
                @ drop (checksum_loc + 128) bootloader;
              (ok, d2) = fseek_set 0 d1
          in if \<not> ok then (EXIT_FAILURE, d2)
          else let (ok, d3) = fwrite1 bootloader d2
          in if \<not> ok then (EXIT_FAILURE, d3) else (EXIT_SUCCESS, d3))"

definition enroll_file :: "bool \<Rightarrow> string option \<Rightarrow> device_state \<Rightarrow> int \<times> device_state" where
  "enroll_file reset digest d =
     (let (ok, d1) = fseek_end d
      in if \<not> ok then (EXIT_FAILURE, d1)
      else let (pos, d2) = ftell d1
      in case pos of
        None \<Rightarrow> (EXIT_FAILURE, d2)
      | Some bootloader_size \<Rightarrow>
          let d3 = rewind d2; min_size = length CONFIG_B2SUM_SIGNATURE + 128
          in if bootloader_size < min_size then (EXIT_FAILURE, d3)
          else let (bootloader, d4) = malloc d3
          in case bootloader of
            None \<Rightarrow> (EXIT_FAILURE, d4)
          | Some p \<Rightarrow>
              let (ret, d5) = enroll_buffer reset digest bootloader_size d4
              in (ret, free p d5))"

definition enroll_config :: "nat \<Rightarrow> argv \<Rightarrow> files \<Rightarrow> device_state \<Rightarrow> int \<times> files \<times> device_state" where
  "enroll_config argc argv fs d =
     (case enroll_args 1 argc argv False False of
        None \<Rightarrow> (EXIT_SUCCESS, fs, d)
      | Some (argc, argv, quiet, reset) \<Rightarrow>
          if argc \<le> (if reset then 1 else 2) then (EXIT_FAILURE, fs, d)
          else if \<not> reset \<and> length (the (argv ! 2)) \<noteq> 128 then (EXIT_FAILURE, fs, d)
          else if \<not> reset \<and> (\<exists>i \<in> set [0 ..< 128]. \<not> hex_char (the (argv ! 2) ! i)) then (EXIT_FAILURE, fs, d)
          else let path = the (argv ! 1); (ok, d1) = lib_call d
          in case (if ok then fs path else None) of
            None \<Rightarrow> (EXIT_FAILURE, fs, d1)
          | Some contents \<Rightarrow>
              let (ret, d2) = enroll_file reset (argv ! 2) (d1\<lparr>dev_data := contents, dev_pos := 0\<rparr>)
              in (ret, fs(path \<mapsto> dev_data d2), d2))"

section \<open>The version command\<close>

definition LIMINE_VERSION :: string where
  "LIMINE_VERSION = ''12.4.1''"

definition LIMINE_COPYRIGHT :: string where
  "LIMINE_COPYRIGHT = ''Copyright (C) 2019-2026 Mintsuki and contributors.''"

definition version_usage :: "string \<Rightarrow> string list" where
  "version_usage program_name =
     [''usage: '' @ program_name @ '' version [options...]'', '''',
      ''    --version-only  Only print the version number without licensing info'',
      ''                    and other distractions'', '''',
      ''    --help | -h     Display this help message'', '''']"

text \<open>The exit code and the lines printed.\<close>

definition version :: "string \<Rightarrow> nat \<Rightarrow> argv \<Rightarrow> int \<times> string list" where
  "version program_name argc argv =
     (if argc \<ge> 2 \<and> argv ! 1 = Some ''--help'' then (EXIT_SUCCESS, version_usage program_name)
      else if argc \<ge> 2 \<and> argv ! 1 = Some ''--version-only'' then (EXIT_SUCCESS, [LIMINE_VERSION])
      else (EXIT_SUCCESS,
            [''Limine '' @ LIMINE_VERSION, LIMINE_COPYRIGHT,
             ''Limine is distributed under the terms of the BSD-2-Clause license.'',
             ''There is ABSOLUTELY NO WARRANTY, to the extent permitted by law.'']))"

section \<open>The search finds the first signature\<close>

definition signature_at :: "u8 list \<Rightarrow> nat \<Rightarrow> bool" where
  "signature_at bs p \<longleftrightarrow> take 26 (drop p bs) = CONFIG_B2SUM_SIGNATURE"

lemma signature_at_nth: "signature_at bs p \<Longrightarrow> k < 26 \<Longrightarrow> bs ! (p + k) = CONFIG_B2SUM_SIGNATURE ! k"
proof -
  assume a: "signature_at bs p" "k < 26"
  then have "k < length (take 26 (drop p bs))" by (simp add: signature_at_def)
  then have "bs ! (p + k) = take 26 (drop p bs) ! k" by (simp add: nth_drop less_diff_conv)
  with a(1) show ?thesis by (simp add: signature_at_def)
qed

lemma signature_at_iff:
  "p + 26 \<le> length bs \<Longrightarrow> signature_at bs p \<longleftrightarrow> (\<forall>k < 26. bs ! (p + k) = CONFIG_B2SUM_SIGNATURE ! k)"
  by (auto simp: signature_at_def list_eq_iff_nth_eq)

lemma find_signature_first:
  assumes "bound \<le> length bs" "c < 26" "\<forall>k < c. bs ! (p + k) = CONFIG_B2SUM_SIGNATURE ! k"
  shows "find_signature bs bound (p + c) c = map_option (\<lambda>q. q + 26) (find (signature_at bs) [p ..< bound - 25])"
  using assms
proof (induction bs bound "p + c" c arbitrary: p rule: find_signature.induct)
  case (1 bs bound c)
  consider (out) "bound \<le> p + c"
    | (miss) "p + c < bound" "bs ! (p + c) \<noteq> CONFIG_B2SUM_SIGNATURE ! c"
    | (hit) "p + c < bound" "bs ! (p + c) = CONFIG_B2SUM_SIGNATURE ! c" "c = 25"
    | (on) "p + c < bound" "bs ! (p + c) = CONFIG_B2SUM_SIGNATURE ! c" "c < 25"
    using "1.prems"(2) by fastforce
  then show ?case
  proof cases
    case out
    with "1.prems"(2) show ?thesis by (subst find_signature.simps) simp
  next
    case miss
    have "\<not> signature_at bs p" using miss(2) signature_at_nth "1.prems"(2) by blast
    then have "find (signature_at bs) [p ..< bound - 25] = find (signature_at bs) [Suc p ..< bound - 25]"
      by (cases "p < bound - 25") (simp_all add: upt_conv_Cons)
    moreover have "find_signature bs bound (p + c) c = find_signature bs bound (Suc p) 0"
      using miss by (subst find_signature.simps) simp
    moreover have "find_signature bs bound (Suc p) 0
        = map_option (\<lambda>q. q + 26) (find (signature_at bs) [Suc p ..< bound - 25])"
      using "1.hyps"(1) [of "Suc p"] "1.hyps"(2) [of "Suc p"] miss "1.prems"(1) by (cases "c = 0") simp_all
    ultimately show ?thesis by simp
  next
    case hit
    have "\<forall>k < 26. bs ! (p + k) = CONFIG_B2SUM_SIGNATURE ! k"
    proof (intro allI impI)
      fix k :: nat
      assume "k < 26"
      then consider "k < c" | "k = c" using hit(3) by linarith
      then show "bs ! (p + k) = CONFIG_B2SUM_SIGNATURE ! k" using "1.prems"(3) hit(2) by cases simp_all
    qed
    then have "signature_at bs p" using hit "1.prems"(1) by (subst signature_at_iff) auto
    then have "find (signature_at bs) [p ..< bound - 25] = Some p"
      using hit by (subst upt_conv_Cons) auto
    then show ?thesis using hit by (subst find_signature.simps) simp
  next
    case on
    have "find_signature bs bound (p + c) c = find_signature bs bound (p + Suc c) (Suc c)"
      using on by (subst find_signature.simps) simp
    also have "\<dots> = map_option (\<lambda>q. q + 26) (find (signature_at bs) [p ..< bound - 25])"
      using "1.hyps"(3) [of p] on "1.prems" by (simp add: less_Suc_eq all_conj_distrib)
    finally show ?thesis .
  qed
qed

section \<open>Argument lists\<close>

definition args_of :: "argv \<Rightarrow> nat \<Rightarrow> string list \<Rightarrow> bool" where
  "args_of argv argc xs \<longleftrightarrow>
     argc = length xs \<and> argc < length argv \<and> take argc argv = map Some xs \<and> argv ! argc = None"

definition argv_of :: "string list \<Rightarrow> argv" where
  "argv_of xs = map Some xs @ [None]"

lemma args_of_argv: "args_of (argv_of xs) (length xs) xs"
  by (simp add: args_of_def argv_of_def nth_append)

lemma args_of_nth: "args_of argv argc xs \<Longrightarrow> i < argc \<Longrightarrow> argv ! i = Some (xs ! i)"
  by (metis args_of_def length_map nth_map nth_take)

lemma args_of_remove:
  assumes "args_of argv argc xs" "i < argc"
  obtains argv' where "remove_arg argc argv i = (argc - 1, argv')" "args_of argv' (argc - 1) (take i xs @ drop (Suc i) xs)"
proof -
  obtain c v where r: "remove_arg argc argv i = (c, v)" by fastforce
  have *: "argc < length argv" "take argc argv = map Some xs" "argc = length xs"
    using assms(1) by (auto simp: args_of_def)
  note c = remove_arg_correct [OF assms(2) *(1) r]
  have "take i argv = take i (take argc argv)" using assms(2) by (simp add: min_absorb1)
  then have "take c v = map Some (take i xs @ drop (Suc i) xs)"
    using c(2) by (simp add: *(2) take_map drop_map)
  then have "args_of v c (take i xs @ drop (Suc i) xs)"
    using c * assms(2) by (auto simp: args_of_def)
  with c(1) r show thesis by (intro that) simp_all
qed

definition wants_help :: "string list \<Rightarrow> bool" where
  "wants_help xs \<longleftrightarrow> ''--help'' \<in> set xs \<or> ''-h'' \<in> set xs"

definition operands :: "string list \<Rightarrow> string list" where
  "operands xs = filter (\<lambda>x. x \<noteq> ''--quiet'' \<and> x \<noteq> ''--reset'') xs"

text \<open>What the loop owes when \<open>old\<close> is behind it and \<open>new\<close> ahead.\<close>

definition enroll_result :: "string list \<Rightarrow> string list \<Rightarrow> bool \<Rightarrow> bool \<Rightarrow> (nat \<times> argv \<times> bool \<times> bool) option \<Rightarrow> bool" where
  "enroll_result old new quiet reset r \<longleftrightarrow>
     (if wants_help new then r = None
      else \<exists>argv'. args_of argv' (length (old @ operands new)) (old @ operands new)
        \<and> r = Some (length (old @ operands new), argv', quiet \<or> ''--quiet'' \<in> set new, reset \<or> ''--reset'' \<in> set new))"

lemma enroll_result_Cons:
  "x = ''--help'' \<or> x = ''-h'' \<Longrightarrow> enroll_result old (x # new) quiet reset None"
  "enroll_result old new True reset r \<Longrightarrow> enroll_result old (''--quiet'' # new) quiet reset r"
  "enroll_result old new quiet True r \<Longrightarrow> enroll_result old (''--reset'' # new) quiet reset r"
  "x \<noteq> ''--help'' \<Longrightarrow> x \<noteq> ''-h'' \<Longrightarrow> x \<noteq> ''--quiet'' \<Longrightarrow> x \<noteq> ''--reset'' \<Longrightarrow>
     enroll_result (old @ [x]) new quiet reset r \<Longrightarrow> enroll_result old (x # new) quiet reset r"
  by (auto simp: enroll_result_def wants_help_def operands_def)

lemma enroll_args_correct:
  assumes "args_of argv argc xs" "i \<le> argc"
  shows "enroll_result (take i xs) (drop i xs) quiet reset (enroll_args i argc argv quiet reset)"
  using assms
proof (induction i argc argv quiet reset arbitrary: xs rule: enroll_args.induct)
  case (1 i argc argv quiet reset)
  show ?case
  proof (cases "i < argc")
    case False
    with "1.prems" show ?thesis
      by (subst enroll_args.simps) (auto simp: enroll_result_def wants_help_def operands_def args_of_def)
  next
    case True
    let ?x = "xs ! i" and ?ys = "take i xs @ drop (Suc i) xs"
    have len: "length xs = argc" using "1.prems"(1) by (simp add: args_of_def)
    have at: "argv ! i = Some ?x" using "1.prems"(1) True by (rule args_of_nth)
    have dr: "drop i xs = ?x # drop (Suc i) xs" using True len by (simp add: Cons_nth_drop_Suc)
    have tk: "take (Suc i) xs = take i xs @ [?x]" using True len by (simp add: take_Suc_conv_app_nth)
    have ti: "take i ?ys = take i xs" "drop i ?ys = drop (Suc i) xs"
      using True len by simp_all
    obtain argv' where r: "remove_arg argc argv i = (argc - 1, argv')" "args_of argv' (argc - 1) ?ys"
      using "1.prems"(1) True by (rule args_of_remove)
    have i: "i \<le> argc - 1" "i + 1 \<le> argc" using True by simp_all
    note unf = enroll_args.simps [of i argc argv quiet reset]
    consider (usage) "?x = ''--help'' \<or> ?x = ''-h''" | (quiet) "?x = ''--quiet''" | (reset) "?x = ''--reset''"
      | (other) "?x \<noteq> ''--help''" "?x \<noteq> ''-h''" "?x \<noteq> ''--quiet''" "?x \<noteq> ''--reset''"
      by blast
    then show ?thesis
    proof cases
      case usage
      then have "enroll_args i argc argv quiet reset = None" using True by (simp add: unf at)
      with usage show ?thesis by (simp only: dr enroll_result_Cons(1))
    next
      case quiet
      have "enroll_args i argc argv quiet reset = enroll_args i (argc - 1) argv' True reset"
        using True quiet r(1) by (simp add: unf at)
      moreover have "enroll_result (take i ?ys) (drop i ?ys) True reset (enroll_args i (argc - 1) argv' True reset)"
        by (rule "1.IH"(1) [OF True _ _ r(1) [symmetric] refl r(2) i(1)]) (simp_all add: at quiet)
      ultimately show ?thesis by (simp only: dr quiet ti enroll_result_Cons(2))
    next
      case reset
      have "enroll_args i argc argv quiet reset = enroll_args i (argc - 1) argv' quiet True"
        using True reset r(1) by (simp add: unf at)
      moreover have "enroll_result (take i ?ys) (drop i ?ys) quiet True (enroll_args i (argc - 1) argv' quiet True)"
        by (rule "1.IH"(2) [OF True _ _ _ r(1) [symmetric] refl r(2) i(1)]) (simp_all add: at reset)
      ultimately show ?thesis by (simp only: dr reset ti enroll_result_Cons(3))
    next
      case other
      have "enroll_args i argc argv quiet reset = enroll_args (i + 1) argc argv quiet reset"
        using True other by (simp add: unf at)
      moreover have "enroll_result (take (i + 1) xs) (drop (i + 1) xs) quiet reset (enroll_args (i + 1) argc argv quiet reset)"
        by (rule "1.IH"(3) [OF True _ _ _ "1.prems"(1) i(2)]) (simp_all add: at other)
      ultimately show ?thesis
        by (auto simp: dr tk intro: enroll_result_Cons(4) [OF other])
    qed
  qed
qed

section \<open>What enrolling does to the file\<close>

text \<open>The signature has to start at least 179 bytes before the end: the bound of the loop, meant for
  the start of a signature followed by 128 bytes, is applied to its last byte.\<close>

definition enrolled :: "u8 list \<Rightarrow> u8 list \<Rightarrow> u8 list option" where
  "enrolled b2sum bs =
     (if length bs < 154 then None
      else map_option (\<lambda>p. take (p + 26) bs @ b2sum @ drop (p + 154) bs)
             (find (signature_at bs) [0 ..< length bs - 178]))"

lemma find_signature_start:
  "154 \<le> length bs \<Longrightarrow> find_signature bs (Suc (length bs - 154)) 0 0
     = map_option (\<lambda>q. q + 26) (find (signature_at bs) [0 ..< length bs - 178])"
  using find_signature_first [of "length bs - 154 + 1" bs 0 0] by (simp add: Suc_diff_le)

lemma enrolled_length: "enrolled b2sum bs = Some bs' \<Longrightarrow> length b2sum = 128 \<Longrightarrow> length bs' = length bs"
  by (auto simp: enrolled_def find_Some_iff split: if_splits)

definition checksum :: "bool \<Rightarrow> string option \<Rightarrow> u8 list" where
  "checksum reset digest = (if reset then replicate 128 48 else map of_char (take 128 (the digest)))"

lemma all_ok_lib_call: "all_ok d \<Longrightarrow> lib_call d = (True, d\<lparr>lib_n := Suc (lib_n d)\<rparr>)"
  by (simp add: lib_call_def all_ok_def)

lemma fread_whole:
  "dev_pos d = 0 \<Longrightarrow> dev_data d \<noteq> [] \<Longrightarrow> fread1 (length (dev_data d)) d =
     (if lib_ok d (lib_n d)
      then (dev_data d, True, d\<lparr>lib_n := Suc (lib_n d), dev_pos := length (dev_data d)\<rparr>)
      else ([], False, d\<lparr>lib_n := Suc (lib_n d)\<rparr>))"
  by (simp add: fread1_def lib_call_def Let_def)

lemma rewrite_file:
  assumes "length bs = length (dev_data d)" "bs \<noteq> []" "(case fseek_set 0 d of (ok, d2) \<Rightarrow>
      if \<not> ok then (EXIT_FAILURE, d2)
      else case fwrite1 bs d2 of (ok, d3) \<Rightarrow> if \<not> ok then (EXIT_FAILURE, d3) else (EXIT_SUCCESS, d3)) = (ret, d')"
  shows "ret = EXIT_SUCCESS \<and> dev_data d' = bs \<or> ret = EXIT_FAILURE \<and> dev_data d' = dev_data d \<and> \<not> all_ok d"
  using assms by (auto simp: fseek_set_def fwrite1_def lib_call_def overwrite_def all_ok_def split: if_splits)

lemma enroll_buffer_correct:
  assumes "enroll_buffer reset digest (length (dev_data d)) d = (ret, d')" "dev_pos d = 0"
    and "154 \<le> length (dev_data d)" "length (checksum reset digest) = 128"
  shows "ret = EXIT_SUCCESS \<and> enrolled (checksum reset digest) (dev_data d) = Some (dev_data d')
      \<or> ret = EXIT_FAILURE \<and> dev_data d' = dev_data d
        \<and> (all_ok d \<longrightarrow> enrolled (checksum reset digest) (dev_data d) = None)"
proof (cases "lib_ok d (lib_n d)")
  case False
  then show ?thesis
    using assms by (auto simp: enroll_buffer_def fread1_def lib_call_def all_ok_def)
next
  case ok: True
  have ne: "dev_data d \<noteq> []" using assms(3) by auto
  let ?d1 = "d\<lparr>lib_n := Suc (lib_n d), dev_pos := length (dev_data d)\<rparr>"
  have e: "length CONFIG_B2SUM_SIGNATURE + 128 = 154" by simp
  note buf = enroll_buffer_def Let_def fread_whole [OF assms(2) ne] e find_signature_start [OF assms(3)]
  show ?thesis
  proof (cases "find (signature_at (dev_data d)) [0 ..< length (dev_data d) - 178]")
    case None
    then show ?thesis using assms(1) ok by (auto simp: buf enrolled_def)
  next
    case (Some p)
    let ?new = "take (p + 26) (dev_data d) @ checksum reset digest @ drop (p + 154) (dev_data d)"
    have new: "enrolled (checksum reset digest) (dev_data d) = Some ?new"
      using Some assms(3) by (simp add: enrolled_def)
    have "length ?new = length (dev_data ?d1)" "?new \<noteq> []"
      using enrolled_length [OF new assms(4)] ne by auto
    moreover have "(case fseek_set 0 ?d1 of (ok, d2) \<Rightarrow>
        if \<not> ok then (EXIT_FAILURE, d2)
        else case fwrite1 ?new d2 of (ok, d3) \<Rightarrow> if \<not> ok then (EXIT_FAILURE, d3) else (EXIT_SUCCESS, d3)) = (ret, d')"
      using assms(1) ok Some by (cases reset) (simp_all add: buf checksum_def add.commute cong: if_cong)
    ultimately have "ret = EXIT_SUCCESS \<and> dev_data d' = ?new
        \<or> ret = EXIT_FAILURE \<and> dev_data d' = dev_data ?d1 \<and> \<not> all_ok ?d1"
      by (rule rewrite_file)
    moreover have "all_ok d \<Longrightarrow> all_ok ?d1" by (simp add: all_ok_def)
    ultimately show ?thesis by (auto simp: new)
  qed
qed

lemma enroll_file_correct:
  assumes "enroll_file reset digest d = (ret, d')" "length (checksum reset digest) = 128"
  shows "ret = EXIT_SUCCESS \<and> enrolled (checksum reset digest) (dev_data d) = Some (dev_data d')
      \<or> ret = EXIT_FAILURE \<and> dev_data d' = dev_data d
        \<and> (all_ok d \<longrightarrow> enrolled (checksum reset digest) (dev_data d) = None)"
proof (cases "lib_ok d (lib_n d) \<and> lib_ok d (Suc (lib_n d)) \<and> lib_ok d (Suc (Suc (lib_n d))) \<and> 154 \<le> length (dev_data d)")
  case False
  then show ?thesis
    using assms(1)
    by (auto simp: enroll_file_def fseek_end_def ftell_def malloc_def lib_call_def rewind_def enrolled_def
      all_ok_def Let_def split: if_splits)
next
  case True
  let ?d = "d\<lparr>dev_pos := 0, lib_n := Suc (Suc (Suc (lib_n d))), heap_next := Suc (heap_next d)\<rparr>"
  obtain ret' d2 where b: "enroll_buffer reset digest (length (dev_data ?d)) ?d = (ret', d2)" by fastforce
  have "enroll_file reset digest d = (ret', free (heap_next d) d2)"
    using True b by (simp add: enroll_file_def fseek_end_def ftell_def malloc_def lib_call_def rewind_def
      Let_def)
  with assms(1) have "ret = ret'" "dev_data d' = dev_data d2" by (auto simp: free_def)
  with enroll_buffer_correct [OF b] True assms(2) show ?thesis by (auto simp: all_ok_def)
qed

section \<open>The command\<close>

definition digest_of :: "string list \<Rightarrow> u8 list option" where
  "digest_of ops =
     (case ops of
        [] \<Rightarrow> None
      | h # _ \<Rightarrow> if length h = 128 \<and> list_all hex_char h then Some (map of_char h) else None)"

text \<open>What the command promises: the exit code and the files after it.\<close>

definition enroll_spec :: "string list \<Rightarrow> files \<Rightarrow> int \<times> files" where
  "enroll_spec args fs =
     (if wants_help args then (EXIT_SUCCESS, fs)
      else case operands args of
        [] \<Rightarrow> (EXIT_FAILURE, fs)
      | path # ops \<Rightarrow>
          (case (if ''--reset'' \<in> set args then Some (replicate 128 48) else digest_of ops) of
             None \<Rightarrow> (EXIT_FAILURE, fs)
           | Some b2sum \<Rightarrow>
               (case Option.bind (fs path) (enrolled b2sum) of
                  None \<Rightarrow> (EXIT_FAILURE, fs)
                | Some bs \<Rightarrow> (EXIT_SUCCESS, fs(path \<mapsto> bs)))))"

lemma enroll_config_cases:
  fixes reset :: bool
  assumes "args_of argv argc (prog # ops)"
  defines "dig \<equiv> (if reset then Some (replicate 128 48) else digest_of (tl ops))"
  shows "argc \<le> (if reset then 1 else 2) \<or> (\<not> reset \<and> length (the (argv ! 2)) \<noteq> 128)
      \<or> \<not> reset \<and> (\<exists>i \<in> set [0 ..< 128]. \<not> hex_char (the (argv ! 2) ! i)) \<longleftrightarrow> ops = [] \<or> dig = None"
    and "ops \<noteq> [] \<Longrightarrow> dig = Some b2sum \<Longrightarrow> the (argv ! 1) = hd ops \<and> checksum reset (argv ! 2) = b2sum"
    and "dig = Some b2sum \<Longrightarrow> length b2sum = 128"
proof -
  have argc: "argc = Suc (length ops)" using assms(1) by (simp add: args_of_def)
  have at: "argv ! i = Some ((prog # ops) ! i)" if "i < argc" for i using args_of_nth [OF assms(1) that] .
  show "length b2sum = 128" if "dig = Some b2sum"
    using that by (auto simp: dig_def digest_of_def split: if_splits list.splits)
  show "argc \<le> (if reset then 1 else 2) \<or> (\<not> reset \<and> length (the (argv ! 2)) \<noteq> 128)
      \<or> \<not> reset \<and> (\<exists>i \<in> set [0 ..< 128]. \<not> hex_char (the (argv ! 2) ! i)) \<longleftrightarrow> ops = [] \<or> dig = None"
  proof (cases "\<not> reset \<and> 2 < argc")
    case True
    then obtain p h rest where "ops = p # h # rest" using argc by (cases ops; cases "tl ops") auto
    then show ?thesis using True at [of 2] by (auto simp: dig_def digest_of_def list_all_length)
  next
    case False
    then show ?thesis using argc by (cases ops; cases "tl ops") (auto simp: dig_def digest_of_def)
  qed
  show "the (argv ! 1) = hd ops \<and> checksum reset (argv ! 2) = b2sum" if "ops \<noteq> []" "dig = Some b2sum"
  proof (cases reset)
    case True
    with that show ?thesis using at [of 1] argc by (cases ops) (auto simp: dig_def checksum_def)
  next
    case False
    with that obtain p h rest where "ops = p # h # rest" by (cases ops; cases "tl ops") (auto simp: dig_def digest_of_def)
    with False that show ?thesis
      using at [of 1] at [of 2] argc by (auto simp: dig_def digest_of_def checksum_def split: if_splits)
  qed
qed

lemma enroll_config_spec:
  assumes "enroll_config (Suc (length args)) (argv_of (prog # args)) fs d = (ret, fs', d')"
  shows "(ret, fs') = enroll_spec args fs
      \<or> \<not> all_ok d \<and> ret = EXIT_FAILURE \<and> fs' = fs"
proof (cases "wants_help args")
  case True
  have "enroll_args 1 (Suc (length args)) (argv_of (prog # args)) False False = None"
    using enroll_args_correct [OF args_of_argv [of "prog # args"], of 1 False False] True
    by (simp add: enroll_result_def)
  with True assms show ?thesis by (simp add: enroll_config_def enroll_spec_def)
next
  case False
  let ?ops = "operands args" and ?reset = "''--reset'' \<in> set args"
  let ?dig = "if ?reset then Some (replicate 128 48) else digest_of (tl ?ops)"
  obtain argv' quiet where a: "args_of argv' (Suc (length ?ops)) (prog # ?ops)"
    "enroll_args 1 (Suc (length args)) (argv_of (prog # args)) False False
       = Some (Suc (length ?ops), argv', quiet, ?reset)"
    using enroll_args_correct [OF args_of_argv [of "prog # args"], of 1 False False] False
    by (auto simp: enroll_result_def)
  note c = enroll_config_cases [OF a(1), where reset = ?reset]
  show ?thesis
  proof (cases "?ops = [] \<or> ?dig = None")
    case True
    with c(1) assms a(2) have "ret = EXIT_FAILURE \<and> fs' = fs" by (auto simp: enroll_config_def simp del: One_nat_def split: if_splits)
    with True False show ?thesis by (auto simp: enroll_spec_def split: list.splits)
  next
    case ops: False
    then obtain path rest b2sum where p: "?ops = path # rest" "?dig = Some b2sum" by (cases ?ops) auto
    have at: "the (argv' ! 1) = path" "checksum ?reset (argv' ! 2) = b2sum" "length b2sum = 128"
      using c(2) [OF _ p(2)] c(3) [OF p(2)] p(1) by simp_all
    have spec: "enroll_spec args fs = (case Option.bind (fs path) (enrolled b2sum) of
        None \<Rightarrow> (EXIT_FAILURE, fs) | Some bs \<Rightarrow> (EXIT_SUCCESS, fs(path \<mapsto> bs)))"
      using p False by (auto simp: enroll_spec_def split: if_splits)
    let ?d1 = "d\<lparr>lib_n := Suc (lib_n d)\<rparr>"
    have e: "enroll_config (Suc (length args)) (argv_of (prog # args)) fs d =
        (case (if lib_ok d (lib_n d) then fs path else None) of
            None \<Rightarrow> (EXIT_FAILURE, fs, ?d1)
          | Some contents \<Rightarrow>
              let (ret, d2) = enroll_file ?reset (argv' ! 2) (?d1\<lparr>dev_data := contents, dev_pos := 0\<rparr>)
              in (ret, fs(path \<mapsto> dev_data d2), d2))"
      using c(1) ops by (auto simp: enroll_config_def a(2) lib_call_def at(1) simp del: One_nat_def)
    show ?thesis
    proof (cases "if lib_ok d (lib_n d) then fs path else None")
      case None
      then show ?thesis using assms spec by (auto simp: e all_ok_def split: if_splits)
    next
      case (Some contents)
      then have fs: "fs path = Some contents" by (simp split: if_splits)
      let ?d2 = "?d1\<lparr>dev_data := contents, dev_pos := 0\<rparr>"
      have "enroll_file ?reset (argv' ! 2) ?d2 = (ret, d')" "fs' = fs(path \<mapsto> dev_data d')"
        using assms Some by (auto simp: e split: prod.splits)
      with enroll_file_correct [of ?reset "argv' ! 2" ?d2 ret d'] at(2,3) fs show ?thesis
        by (auto simp: spec all_ok_def map_upd_triv dest: Suc_leD)
    qed
  qed
qed


text \<open>C40: the search stops too early. A signature that starts fewer than 179 bytes before the end of the file is
  not found, although the 128 bytes of the checksum behind it are there: the command refuses the file,
  whatever digest it is given.\<close>

theorem enroll_config_misses_end:
  assumes "fs path = Some (pre @ CONFIG_B2SUM_SIGNATURE @ post)" "128 \<le> length post" "length post < 153"
    and "\<forall>p < length pre. \<not> signature_at (pre @ CONFIG_B2SUM_SIGNATURE @ post) p"
    and "operands args = path # ops" "\<not> wants_help args"
    and "enroll_config (Suc (length args)) (argv_of (prog # args)) fs d = (ret, fs', d')"
  shows "ret = EXIT_FAILURE \<and> fs' = fs"
proof -
  let ?bs = "pre @ CONFIG_B2SUM_SIGNATURE @ post"
  have "enrolled b2sum ?bs = None" for b2sum
    using assms(3,4) by (auto simp: enrolled_def find_None_iff)
  then have "enroll_spec args fs = (EXIT_FAILURE, fs)"
    using assms(1,5,6) by (auto simp: enroll_spec_def split: option.splits)
  with enroll_config_spec [OF assms(7)] show ?thesis by auto
qed

section \<open>Witnesses\<close>

text \<open>A boot loader of 200 bytes with the signature at its start, and one of the smallest size accepted.\<close>

definition boot_image :: "nat \<Rightarrow> u8 list" where
  "boot_image n = CONFIG_B2SUM_SIGNATURE @ replicate n 7"

lemma find_first: "P 0 \<Longrightarrow> 0 < n \<Longrightarrow> find P [0 ..< n] = Some 0"
  by (simp add: upt_conv_Cons)

lemma boot_image_at: "signature_at (boot_image n) 0"
  by (simp add: signature_at_def boot_image_def)


theorem enroll_config_misses_end_witness:
  "\<exists>d'. enroll_config 3 (argv_of [''enroll-config'', ''limine.sys'', replicate 128 (CHR ''a'')])
      [''limine.sys'' \<mapsto> boot_image 128] (disk [])
    = (EXIT_FAILURE, [''limine.sys'' \<mapsto> boot_image 128], d')"
proof -
  let ?args = "[''limine.sys'', replicate 128 (CHR ''a'')]" and ?fs = "[''limine.sys'' \<mapsto> boot_image 128]"
  obtain ret fs' d' where e: "enroll_config (Suc (length ?args)) (argv_of (''enroll-config'' # ?args)) ?fs (disk [])
      = (ret, fs', d')"
    by (rule prod_cases3)
  have "operands ?args = [''limine.sys'', replicate 128 (CHR ''a'')]" "\<not> wants_help ?args"
    by (auto simp: operands_def wants_help_def dest: arg_cong [where f = length])
  then have "ret = EXIT_FAILURE \<and> fs' = ?fs"
    using enroll_config_misses_end [of ?fs "''limine.sys''" "[]" "replicate 128 7" ?args _ _ _ ret fs' d'] e
    by (simp add: boot_image_def)
  with e show ?thesis by (simp add: numeral_eq_Suc)
qed

end
