(* ===== verification/Limine_Install.thy ===== *)
theory Limine_Install
  imports Limine_Uninstall Limine_Enroll
begin

text \<open>
  \<open>bios_install\<close> and \<open>main\<close> of \<open>limine/limine.c\<close>: the installation of the boot loader on a device with a GPT or an
  MBR, the conversion of the GPT of an ISO image into an MBR, and the choice of the command.

  The body of \<open>bios_install\<close> is a program over the cached device that may jump to its clean-up at any
  point: a computation returns \<open>None\<close> when it does. \<open>dread\<close> and \<open>dwrite\<close> are the macros \<open>device_read\<close> and
  \<open>device_write\<close>. The image of the boot loader (\<open>limine-bios-hdd.h\<close>), the bytes \<open>rand\<close> returns and the byte
  order of the host are arguments. Diagnostics are left out.

  The theorems about these definitions are in \<open>Limine_Safety\<close>, \<open>Limine_Mbr\<close> and \<open>Limine_Gpt\<close>.
\<close>

section \<open>Programs over the device\<close>

type_synonym 'a dm = "device_state \<Rightarrow> 'a option \<times> device_state"

definition dret :: "'a \<Rightarrow> 'a dm" where
  "dret x d = (Some x, d)"

definition abort :: "'a dm" where
  "abort d = (None, d)"

definition dbind :: "'a dm \<Rightarrow> ('a \<Rightarrow> 'b dm) \<Rightarrow> 'b dm" where
  "dbind m f d = (case m d of (None, d1) \<Rightarrow> (None, d1) | (Some x, d1) \<Rightarrow> f x d1)"

definition dread :: "u64 \<Rightarrow> nat \<Rightarrow> u8 list dm" where
  "dread loc count = device_read loc count"

definition dwrite :: "u8 list \<Rightarrow> u64 \<Rightarrow> unit dm" where
  "dwrite buffer loc d = (let (ok, d1) = device_write buffer loc d in (if ok then Some () else None, d1))"

definition dflush :: "unit dm" where
  "dflush d = (let (ok, d1) = device_flush_cache d in (if ok then Some () else None, d1))"

primrec deach :: "('a \<Rightarrow> unit dm) \<Rightarrow> 'a list \<Rightarrow> unit dm" where
  "deach f [] = dret ()"
| "deach f (x # xs) = dbind (f x) (\<lambda>_. deach f xs)"

section \<open>File systems in the way\<close>

text \<open>One magic number: a known file system is refused, or with \<open>--force\<close> wiped.\<close>

definition refuse_or_wipe :: "bool \<Rightarrow> u64 \<Rightarrow> u8 list \<Rightarrow> nat \<Rightarrow> bool dm" where
  "refuse_or_wipe force loc magic n =
     dbind (dread loc (length magic)) (\<lambda>hintc.
       if hintc = magic then
         if \<not> force then dret False else dbind (dwrite (replicate n 0) loc) (\<lambda>_. dret True)
       else dret True)"

definition validate_or_force :: "bool \<Rightarrow> u64 \<Rightarrow> bool \<Rightarrow> bool dm" where
  "validate_or_force big offset force =
     dbind (refuse_or_wipe force (offset + 3) (map of_char ''NTFS'') 4) (\<lambda>ok. if \<not> ok then dret False else
     dbind (refuse_or_wipe force (offset + 54) (map of_char ''FAT'') 5) (\<lambda>ok. if \<not> ok then dret False else
     dbind (refuse_or_wipe force (offset + 82) (map of_char ''FAT'') 5) (\<lambda>ok. if \<not> ok then dret False else
     dbind (refuse_or_wipe force (offset + 3) (map of_char ''FAT32'') 5) (\<lambda>ok. if \<not> ok then dret False else
     dbind (dread (offset + 1080) 2) (\<lambda>hint16.
       if ENDSWAP16 big (native big hint16) = 0xef53 then
         if \<not> force then dret False
         else dbind (dwrite (native_bytes big 2 (ENDSWAP16 big 0)) (offset + 1080)) (\<lambda>_. dret True)
       else dret True)))))"

section \<open>Options\<close>

record install_opts =
  force :: bool
  gpt2mbr_allowed :: bool
  opt_uninstall :: bool
  uninstall_file :: "string option"
  device_name :: "string option"
  part_ndx :: "string option"

definition no_opts :: install_opts where
  "no_opts = \<lparr>force = False, gpt2mbr_allowed = True, opt_uninstall = False, uninstall_file = None,
     device_name = None, part_ndx = None\<rparr>"

text \<open>The loop over the arguments: the exit code of an early return, or the options. The first argument that
  is no option is the device, which is opened.\<close>

fun install_args :: "files \<Rightarrow> string list \<Rightarrow> install_opts \<Rightarrow> device_state \<Rightarrow> (int + install_opts) \<times> device_state" where
  "install_args fs [] opts d = (Inr opts, d)"
| "install_args fs (a # args) opts d =
     (if a = ''--help'' \<or> a = ''-h'' then (Inl EXIT_SUCCESS, d)
      else if a = ''--quiet'' then install_args fs args opts d
      else if a = ''--force'' then install_args fs args (opts\<lparr>force := True\<rparr>) d
      else if a = ''--no-gpt-to-mbr-isohybrid-conversion'' then install_args fs args (opts\<lparr>gpt2mbr_allowed := False\<rparr>) d
      else if a = ''--uninstall'' then install_args fs args (opts\<lparr>opt_uninstall := True\<rparr>) d
      else if take 22 a = ''--uninstall-data-file='' then
        (if drop 22 a = '''' then (Inl EXIT_FAILURE, d)
         else install_args fs args (opts\<lparr>uninstall_file := Some (drop 22 a)\<rparr>) d)
      else if device_name opts \<noteq> None then install_args fs args (opts\<lparr>part_ndx := Some a\<rparr>) d
      else let (ok, d1) = lib_call d
           in case (if ok then fs a else None) of
                None \<Rightarrow> (Inl EXIT_FAILURE, d1)
              | Some contents \<Rightarrow>
                  install_args fs args (opts\<lparr>device_name := Some a\<rparr>) (d1\<lparr>dev_data := contents, dev_pos := 0\<rparr>))"

section \<open>The GPT\<close>

text \<open>The structures as they are loaded from the device, on a host of either byte order.\<close>

definition field :: "bool \<Rightarrow> u8 list \<Rightarrow> nat \<Rightarrow> nat \<Rightarrow> 'a::len word" where
  "field big bs off n = native big (take n (drop off bs))"

definition gpt_header_of :: "bool \<Rightarrow> u8 list \<Rightarrow> gpt_table_header" where
  "gpt_header_of big bs =
     \<lparr>gh_signature = take 8 bs, gh_revision = field big bs 8 4, gh_header_size = field big bs 12 4,
      gh_crc32 = field big bs 16 4, gh_reserved0 = field big bs 20 4, gh_my_lba = field big bs 24 8,
      gh_alternate_lba = field big bs 32 8, gh_first_usable_lba = field big bs 40 8,
      gh_last_usable_lba = field big bs 48 8, gh_disk_guid = (field big bs 56 8, field big bs 64 8),
      gh_partition_entry_lba = field big bs 72 8, gh_number_of_partition_entries = field big bs 80 4,
      gh_size_of_partition_entry = field big bs 84 4, gh_partition_entry_array_crc32 = field big bs 88 4\<rparr>"

definition gpt_entry_of :: "bool \<Rightarrow> u8 list \<Rightarrow> gpt_entry" where
  "gpt_entry_of big bs =
     \<lparr>ge_partition_type_guid = (field big bs 0 8, field big bs 8 8),
      ge_unique_partition_guid = (field big bs 16 8, field big bs 24 8),
      ge_starting_lba = field big bs 32 8, ge_ending_lba = field big bs 40 8, ge_attributes = field big bs 48 8,
      ge_partition_name = map (\<lambda>i. field big bs (56 + 2 * i) 2) [0 ..< 36]\<rparr>"

text \<open>\<open>sizeof(struct gpt_table_header)\<close> and \<open>sizeof(struct gpt_entry)\<close>.\<close>

definition GPT_HEADER_SIZE :: nat where
  "GPT_HEADER_SIZE = 96"

definition GPT_ENTRY_SIZE :: nat where
  "GPT_ENTRY_SIZE = 128"

definition EFI_PART :: "u8 list" where
  "EFI_PART = map of_char ''EFI PART''"

text \<open>The header and the logical block size, if there is a GPT.\<close>

fun probe_gpt :: "bool \<Rightarrow> u64 list \<Rightarrow> (gpt_table_header \<times> u64) option dm" where
  "probe_gpt big [] = dret None"
| "probe_gpt big (guess # lb_guesses) =
     dbind (dread guess GPT_HEADER_SIZE) (\<lambda>bs.
       if gh_signature (gpt_header_of big bs) = EFI_PART then dret (Some (gpt_header_of big bs, guess))
       else probe_gpt big lb_guesses)"

definition check_secondary :: "bool \<Rightarrow> gpt_table_header \<Rightarrow> u64 \<Rightarrow> unit dm" where
  "check_secondary big h lb_size =
     (if unat (ENDSWAP32 big (gh_size_of_partition_entry h)) < GPT_ENTRY_SIZE then abort
      else let (overflow, secondary_loc) = mul_u64_overflow lb_size (ENDSWAP64 big (gh_alternate_lba h))
      in if overflow then abort
      else dbind (dread secondary_loc GPT_HEADER_SIZE) (\<lambda>bs.
        if gh_signature (gpt_header_of big bs) = EFI_PART then dret () else abort))"

section \<open>Conversion of a GPT to an MBR\<close>

record mbr_part =
  lba_start :: u64
  lba_end :: u64
  chs_start :: "u8 \<times> u8 \<times> u8"
  chs_end :: "u8 \<times> u8 \<times> u8"
  part_type :: u8

definition UINT32_MAX :: u64 where
  "UINT32_MAX = 0xFFFFFFFF"

text \<open>One entry: \<open>None\<close> if it makes the conversion impossible.\<close>

definition convert_entry :: "bool \<Rightarrow> gpt_entry \<Rightarrow> mbr_part option" where
  "convert_entry big e =
     (let first = ENDSWAP64 big (ge_starting_lba e); last1 = ENDSWAP64 big (ge_ending_lba e)
      in if first > UINT32_MAX then None
      else if last1 > UINT32_MAX then None
      else if last1 - first + 1 > UINT32_MAX then None
      else let t = gpt2mbr_type (ENDSWAP64 big (fst (ge_partition_type_guid e))) (ENDSWAP64 big (snd (ge_partition_type_guid e)))
      in if t = - 1 then None
      else Some \<lparr>lba_start = first, lba_end = last1, chs_start = lba2chs first, chs_end = lba2chs last1,
                 part_type = word_of_int t\<rparr>)"

text \<open>The loop over the entries; the result \<open>None\<close> is \<open>goto no_mbr_conv\<close>.\<close>

fun gather_parts :: "bool \<Rightarrow> u64 \<Rightarrow> u32 \<Rightarrow> nat \<Rightarrow> nat \<Rightarrow> mbr_part list \<Rightarrow> mbr_part list option dm" where
  "gather_parts big part_entry_base entry_size i 0 parts = dret (Some parts)"
| "gather_parts big part_entry_base entry_size i (Suc n) parts =
     (let (overflow, entry_offset) = add_u64_overflow part_entry_base (of_nat i * ucast entry_size)
      in if overflow then dret None
      else dbind (dread entry_offset GPT_ENTRY_SIZE) (\<lambda>bs.
        let e = gpt_entry_of big bs
        in if ge_unique_partition_guid e = (0, 0) then gather_parts big part_entry_base entry_size (i + 1) n parts
           else if length parts = 4 then dret None
           else case convert_entry big e of
                  None \<Rightarrow> dret None
                | Some p \<Rightarrow> gather_parts big part_entry_base entry_size (i + 1) n (parts @ [p])))"

text \<open>\<open>empty_lba = calloc(1, lb_size)\<close>.\<close>

definition alloc_empty_lba :: "unit dm" where
  "alloc_empty_lba d =
     (let (p, d1) = malloc d in case p of None \<Rightarrow> (None, d1) | Some ptr \<Rightarrow> (Some (), d1\<lparr>empty_lba := ptr\<rparr>))"

definition chs_bytes :: "u8 \<times> u8 \<times> u8 \<Rightarrow> u8 list" where
  "chs_bytes = (\<lambda>(a, b, c). [a, b, c])"

definition write_mbr_part :: "bool \<Rightarrow> nat \<times> mbr_part \<Rightarrow> unit dm" where
  "write_mbr_part big = (\<lambda>(i, p).
     let base = 0x1be + of_nat i * 16
     in dbind (dwrite [part_type p] (base + 0x04)) (\<lambda>_.
        dbind (dwrite (native_bytes big 4 (ENDSWAP32 big (ucast (lba_start p)))) (base + 0x08)) (\<lambda>_.
        dbind (dwrite (native_bytes big 4 (ENDSWAP32 big (ucast (lba_end p - lba_start p + 1)))) (base + 0x0c)) (\<lambda>_.
        dbind (dwrite (chs_bytes (chs_start p)) (base + 1)) (\<lambda>_.
        dwrite (chs_bytes (chs_end p)) (base + 5))))))"

definition write_mbr :: "bool \<Rightarrow> (nat \<Rightarrow> u8) \<Rightarrow> gpt_table_header \<Rightarrow> u64 \<Rightarrow> mbr_part list \<Rightarrow> unit dm" where
  "write_mbr big rand h lb_size parts =
     (let empty = replicate (unat lb_size) 0; alt_lba = ENDSWAP64 big (gh_alternate_lba h)
      in dbind alloc_empty_lba (\<lambda>_.
         dbind (deach (\<lambda>i. dwrite empty (of_nat i * lb_size)) [0 ..< 34]) (\<lambda>_.
         dbind (if alt_lba \<ge> 32 then
                  deach (\<lambda>i. let (overflow, wipe_loc) = mul_u64_overflow (alt_lba - 32 + of_nat i) lb_size
                             in if overflow then abort else dwrite empty wipe_loc) [0 ..< 33]
                else dret ()) (\<lambda>_.
         dbind (deach (\<lambda>i. dwrite [rand i] (0x1b8 + of_nat i)) [0 ..< 4]) (\<lambda>_.
         deach (write_mbr_part big) (zip [0 ..< length parts] parts))))))"

text \<open>The result says whether the device still has a GPT.\<close>

definition convert_gpt :: "bool \<Rightarrow> (nat \<Rightarrow> u8) \<Rightarrow> gpt_table_header \<Rightarrow> u64 \<Rightarrow> bool dm" where
  "convert_gpt big rand h lb_size =
     dbind (dread 32769 5) (\<lambda>iso_signature.
       if iso_signature \<noteq> map of_char ''CD001'' then dret True
       else let (overflow, part_entry_base) = mul_u64_overflow (ENDSWAP64 big (gh_partition_entry_lba h)) lb_size
       in if overflow then dret True
       else dbind (gather_parts big part_entry_base (ENDSWAP32 big (gh_size_of_partition_entry h)) 0
                     (unat (ENDSWAP32 big (gh_number_of_partition_entries h))) []) (\<lambda>conv.
         case conv of
           None \<Rightarrow> dret True
         | Some parts \<Rightarrow> dbind (write_mbr big rand h lb_size parts) (\<lambda>_. dret False)))"

section \<open>Checks of the MBR\<close>

text \<open>One of the four entries; the code repeats these lines for each.\<close>

definition check_mbr_entry :: "bool \<Rightarrow> bool \<Rightarrow> u64 \<Rightarrow> bool \<times> bool \<Rightarrow> (bool \<times> bool) dm" where
  "check_mbr_entry big forced loc = (\<lambda>(mbr, any_active).
     dbind (dread loc 1) (\<lambda>bs. let hint8 = hd bs in
     dbind (if hint8 \<noteq> 0x00 \<and> hint8 \<noteq> 0x80 then
              if \<not> forced then dret (False, hint8)
              else dbind (dwrite [hint8 AND 0x80] loc) (\<lambda>_. dret (mbr, hint8 AND 0x80))
            else dret (mbr, hint8)) (\<lambda>(mbr, hint8).
     let any_active = (any_active \<or> hint8 AND 0x80 \<noteq> 0) in
     dbind (dread (loc + 4) 1) (\<lambda>bs.
       if hd bs \<noteq> 0x00 then
         dbind (dread (loc + 8) 4) (\<lambda>bs.
           if ENDSWAP32 big (native big bs) < 63 then abort else dret (mbr, any_active))
       else dret (mbr, any_active)))))"

definition check_mbr :: "bool \<Rightarrow> bool \<Rightarrow> bool dm" where
  "check_mbr big forced =
     dbind (check_mbr_entry big forced 446 (True, False)) (\<lambda>s.
     dbind (check_mbr_entry big forced 462 s) (\<lambda>s.
     dbind (check_mbr_entry big forced 478 s) (\<lambda>s.
     dbind (check_mbr_entry big forced 494 s) (\<lambda>(mbr, any_active).
     dbind (if mbr then validate_or_force big 0 forced else dret False) (\<lambda>mbr.
     if mbr \<and> \<not> any_active then dbind (dwrite [0x80] 446) (\<lambda>_. dret True) else dret mbr)))))"

section \<open>The partition for the boot code\<close>

text \<open>\<open>sscanf\<close> with \<open>%u\<close>: leading white space, an optional sign, decimal digits. A number that does not fit,
  which the C standard leaves undefined, is reduced to 32 bits.\<close>

definition digit_char :: "char \<Rightarrow> bool" where
  "digit_char c \<longleftrightarrow> CHR ''0'' \<le> c \<and> c \<le> CHR ''9''"

definition scan_u32 :: "string \<Rightarrow> u32 option" where
  "scan_u32 str =
     (let s = dropWhile (\<lambda>c. c \<in> {CHR '' '', CHR 0x09, CHR 0x0A, CHR 0x0B, CHR 0x0C, CHR 0x0D}) str;
          neg = (s \<noteq> [] \<and> hd s = CHR ''-'');
          t = (if s \<noteq> [] \<and> (hd s = CHR ''-'' \<or> hd s = CHR ''+'') then tl s else s);
          ds = takeWhile digit_char t;
          v = foldl (\<lambda>n c. n * 10 + (of_char c - 48)) (0 :: u32) ds
      in if ds = [] then None else Some (if neg then - v else v))"

definition BIOS_BOOT_TYPE :: "u8 list" where
  "BIOS_BOOT_TYPE = map of_char ''Hah!IdontNeedEFI''"

definition chosen_partition :: "bool \<Rightarrow> bool \<Rightarrow> gpt_table_header \<Rightarrow> u64 \<Rightarrow> string \<Rightarrow> gpt_entry dm" where
  "chosen_partition big forced h base ndx =
     (case scan_u32 ndx of
        None \<Rightarrow> abort
      | Some n \<Rightarrow>
          let partition_num = n - 1
          in if partition_num \<ge> ENDSWAP32 big (gh_number_of_partition_entries h) then abort
          else let (overflow, entry_off) =
                     add_u64_overflow base (ucast partition_num * ucast (ENDSWAP32 big (gh_size_of_partition_entry h)))
          in if overflow then abort
          else dbind (dread entry_off GPT_ENTRY_SIZE) (\<lambda>bs.
            if ge_unique_partition_guid (gpt_entry_of big bs) = (0, 0) then abort
            else if \<not> forced \<and> take 16 bs \<noteq> BIOS_BOOT_TYPE then abort
            else dret (gpt_entry_of big bs)))"

fun detect_partition :: "bool \<Rightarrow> u64 \<Rightarrow> u32 \<Rightarrow> nat \<Rightarrow> nat \<Rightarrow> gpt_entry dm" where
  "detect_partition big base entry_size i 0 = abort"
| "detect_partition big base entry_size i (Suc n) =
     (let (overflow, entry_off) = add_u64_overflow base (of_nat i * ucast entry_size)
      in if overflow then abort
      else dbind (dread entry_off GPT_ENTRY_SIZE) (\<lambda>bs.
        if take 16 bs = BIOS_BOOT_TYPE then dret (gpt_entry_of big bs)
        else detect_partition big base entry_size (i + 1) n))"

text \<open>Where stage 2 goes on a GPT device.\<close>

definition gpt_stage2_loc :: "bool \<Rightarrow> bool \<Rightarrow> gpt_table_header \<Rightarrow> u64 \<Rightarrow> string option \<Rightarrow> u64 dm" where
  "gpt_stage2_loc big forced h lb_size ndx =
     (let (overflow, base) = mul_u64_overflow (ENDSWAP64 big (gh_partition_entry_lba h)) lb_size
      in if overflow then abort
      else dbind (case ndx of
                    Some s \<Rightarrow> chosen_partition big forced h base s
                  | None \<Rightarrow> detect_partition big base (ENDSWAP32 big (gh_size_of_partition_entry h)) 0
                              (unat (ENDSWAP32 big (gh_number_of_partition_entries h)))) (\<lambda>e.
      let starting_lba = ENDSWAP64 big (ge_starting_lba e); ending_lba = ENDSWAP64 big (ge_ending_lba e)
      in if ending_lba < starting_lba then abort
      else let (overflow, part_size) = mul_u64_overflow (ending_lba - starting_lba + 1) lb_size
      in if overflow \<or> part_size < 32768 then abort
      else let (overflow, stage2_loc) = mul_u64_overflow starting_lba lb_size
      in if overflow then abort
      else dbind (validate_or_force big stage2_loc forced) (\<lambda>valid.
        if \<not> valid then abort else dret stage2_loc)))"

section \<open>Installing\<close>

definition write_stages :: "bool \<Rightarrow> u8 list \<Rightarrow> u64 \<Rightarrow> unit dm" where
  "write_stages big img stage2_loc =
     dbind (dread 218 6) (\<lambda>timestamp.
     dbind (dread 440 70) (\<lambda>orig_mbr.
     dbind (dwrite (take 512 img) 0) (\<lambda>_.
     dbind (dwrite (drop 512 img) stage2_loc) (\<lambda>_.
     dbind (dwrite (native_bytes big 8 (ENDSWAP64 big stage2_loc)) 0x1a4) (\<lambda>_.
     dbind (dwrite timestamp 218) (\<lambda>_.
     dbind (dwrite orig_mbr 440) (\<lambda>_. dflush)))))))"

definition install_body :: "bool \<Rightarrow> (nat \<Rightarrow> u8) \<Rightarrow> u8 list \<Rightarrow> install_opts \<Rightarrow> unit dm" where
  "install_body big rand img opts =
     dbind (probe_gpt big [512, 4096]) (\<lambda>gpt.
     dbind (case gpt of
              None \<Rightarrow> dret None
            | Some (h, lb_size) \<Rightarrow>
                dbind (check_secondary big h lb_size) (\<lambda>_.
                dbind (if gpt2mbr_allowed opts then convert_gpt big rand h lb_size else dret True) (\<lambda>still.
                dret (if still then gpt else None)))) (\<lambda>gpt.
     dbind (case gpt of
              None \<Rightarrow> dbind (check_mbr big (force opts)) (\<lambda>mbr. if mbr then dret 512 else abort)
            | Some (h, lb_size) \<Rightarrow> gpt_stage2_loc big (force opts) h lb_size (part_ndx opts)) (\<lambda>stage2_loc.
     write_stages big img stage2_loc)))"

text \<open>The command: exit code, files and state. \<open>None\<close> is an access beyond an array.\<close>

definition bios_install :: "bool \<Rightarrow> (nat \<Rightarrow> u8) \<Rightarrow> u8 list \<Rightarrow> string list \<Rightarrow> files \<Rightarrow> device_state \<Rightarrow> (int \<times> files \<times> device_state) option" where
  "bios_install big rand img args fs d =
     (if args = [] then Some (EXIT_FAILURE, fs, d)
      else case install_args fs args no_opts (d\<lparr>empty_lba := 0\<rparr>) of
        (Inl code, d1) \<Rightarrow> Some (code, fs, d1)
      | (Inr opts, d1) \<Rightarrow>
          (case device_name opts of
             None \<Rightarrow> Some (EXIT_FAILURE, fs, d1)
           | Some dev \<Rightarrow>
               let (ok, d2) = device_init d1
               in if \<not> ok then
                 map_option (\<lambda>d3. (EXIT_FAILURE, fs(dev \<mapsto> dev_data d3), d3)) (free_uninstall_data d2)
               else if opt_uninstall opts then
                 (case uninstall_file opts of
                    None \<Rightarrow> map_option (\<lambda>d3. (EXIT_FAILURE, fs(dev \<mapsto> dev_data d3), d3)) (free_uninstall_data d2)
                  | Some f \<Rightarrow>
                      map_option (\<lambda>(ok, d3). (if ok then EXIT_SUCCESS else EXIT_FAILURE, fs(dev \<mapsto> dev_data d3), d3))
                        (uninstall_mode big (fs f) d2))
               else
                 let (r, d3) = install_body big rand img opts d2
                 in map_option (\<lambda>(d4, file).
                      (if r \<noteq> None then EXIT_SUCCESS else EXIT_FAILURE,
                       (case (file, uninstall_file opts) of
                          (Some bytes, Some f) \<Rightarrow> (fs(dev \<mapsto> dev_data d4))(f \<mapsto> bytes)
                        | _ \<Rightarrow> fs(dev \<mapsto> dev_data d4)),
                       free (empty_lba d4) d4))
                    (install_cleanup big (r \<noteq> None) (uninstall_file opts \<noteq> None) d3)))"

section \<open>Commands\<close>

definition print_datadir :: "string option \<Rightarrow> int \<times> string list" where
  "print_datadir datadir = (case datadir of Some dir \<Rightarrow> (EXIT_SUCCESS, [dir]) | None \<Rightarrow> (EXIT_FAILURE, []))"

datatype command_result =
    Printed int "string list"
  | Usage int
  | Ran int files device_state
  | Undefined

text \<open>\<open>main\<close> on the arguments after the program's name; \<open>datadir\<close> is \<open>LIMINE_DATADIR\<close> if it is defined.\<close>

definition limine_main ::
    "string option \<Rightarrow> bool \<Rightarrow> (nat \<Rightarrow> u8) \<Rightarrow> u8 list \<Rightarrow> string \<Rightarrow> string list \<Rightarrow> files \<Rightarrow> device_state \<Rightarrow> command_result"
  where
  "limine_main datadir big rand img program_name args fs d =
     (case args of
        [] \<Rightarrow> Usage EXIT_FAILURE
      | cmd # rest \<Rightarrow>
          if cmd = ''help'' \<or> cmd = ''--help'' \<or> cmd = ''-h'' then Usage EXIT_SUCCESS
          else if cmd = ''bios-install'' then
            (case bios_install big rand img rest fs d of
               None \<Rightarrow> Undefined | Some (code, fs', d') \<Rightarrow> Ran code fs' d')
          else if cmd = ''enroll-config'' then
            (case enroll_config (length args) (argv_of args) fs d of (code, fs', d') \<Rightarrow> Ran code fs' d')
          else if cmd = ''--print-datadir'' then
            (case print_datadir datadir of (code, out) \<Rightarrow> Printed code out)
          else if cmd = ''version'' \<or> cmd = ''--version'' then
            (case version program_name (length args) (argv_of args) of (code, out) \<Rightarrow> Printed code out)
          else Usage EXIT_FAILURE)"

end
