(* ===== verification/Limine_Safety.thy ===== *)
theory Limine_Safety
  imports Limine_Install
begin

text \<open>
  Correctness of \<open>bios_install\<close> (\<open>limine/limine.c\<close>): whatever makes an installation fail, the device is left as it was
  and no buffer is freed twice; an installation that succeeds can be taken back by a later run from
  the data it stored.

  The proofs go through an interface between the installer and the block device layer: an invariant that
  successful transfers keep, with a weaker one for the states in which a transfer has failed. What
  the installer does with its transfers is proved once against the interface, in the locale.
\<close>

section \<open>Programs that keep an invariant\<close>

definition triple :: "(device_state \<Rightarrow> bool) \<Rightarrow> (device_state \<Rightarrow> bool) \<Rightarrow> 'a dm \<Rightarrow> ('a \<Rightarrow> bool) \<Rightarrow> bool" where
  "triple good weak m Q \<longleftrightarrow> (\<forall>d. good d \<longrightarrow> (case m d of (Some x, d') \<Rightarrow> good d' \<and> Q x | (None, d') \<Rightarrow> weak d'))"

locale device_invariant =
  fixes good weak :: "device_state \<Rightarrow> bool"
  assumes good_weak: "good d \<Longrightarrow> weak d"
    and read_law: "triple good weak (dread loc count) (\<lambda>bs. length bs = count)"
    and write_law: "buffer \<noteq> [] \<Longrightarrow> triple good weak (dwrite buffer loc) (\<lambda>_. True)"
    and alloc_law: "triple good weak alloc_empty_lba (\<lambda>_. True)"
    and flush_law: "triple good weak dflush (\<lambda>_. True)"
begin

abbreviation keeps :: "'a dm \<Rightarrow> ('a \<Rightarrow> bool) \<Rightarrow> bool" where
  "keeps \<equiv> triple good weak"

lemma ret: "Q x \<Longrightarrow> keeps (dret x) Q"
  by (simp add: triple_def dret_def)

lemma fail: "keeps abort Q"
  by (simp add: triple_def abort_def good_weak)

lemma bind: "keeps m P \<Longrightarrow> (\<And>x. P x \<Longrightarrow> keeps (f x) Q) \<Longrightarrow> keeps (dbind m f) Q"
  by (auto simp: triple_def dbind_def split: option.splits prod.splits) fastforce+

lemma weaken: "keeps m P \<Longrightarrow> (\<And>x. P x \<Longrightarrow> Q x) \<Longrightarrow> keeps m Q"
  by (fastforce simp: triple_def split: option.splits prod.splits)

lemma each: "(\<And>x. x \<in> set xs \<Longrightarrow> keeps (f x) (\<lambda>_. True)) \<Longrightarrow> keeps (deach f xs) (\<lambda>_. True)"
  by (induction xs) (auto intro: ret bind [of _ "\<lambda>_. True"])

lemma cond: "(b \<Longrightarrow> keeps m Q) \<Longrightarrow> (\<not> b \<Longrightarrow> keeps n Q) \<Longrightarrow> keeps (if b then m else n) Q"
  by simp

lemma pair: "(\<And>a b. x = (a, b) \<Longrightarrow> keeps (f a b) Q) \<Longrightarrow> keeps (case x of (a, b) \<Rightarrow> f a b) Q"
  by (cases x) simp

lemma opt: "(x = None \<Longrightarrow> keeps m Q) \<Longrightarrow> (\<And>a. x = Some a \<Longrightarrow> keeps (f a) Q)
    \<Longrightarrow> keeps (case x of None \<Rightarrow> m | Some a \<Rightarrow> f a) Q"
  by (cases x) simp_all

lemmas steps = ret fail cond pair opt bind [OF read_law] bind [OF write_law] write_law

lemma refuse: "n \<noteq> 0 \<Longrightarrow> keeps (refuse_or_wipe forced loc magic n) (\<lambda>_. True)"
  by (auto intro!: steps simp: refuse_or_wipe_def)

lemma validate: "keeps (validate_or_force big offset forced) (\<lambda>_. True)"
  by (auto intro!: steps bind [OF refuse] simp: validate_or_force_def)

lemma probe: "keeps (probe_gpt big guesses) (\<lambda>r. \<forall>h lb. r = Some (h, lb) \<longrightarrow> lb \<in> set guesses)"
  by (induction guesses) (auto intro!: steps elim: weaken)

lemma secondary: "keeps (check_secondary big h lb_size) (\<lambda>_. True)"
  by (auto intro!: steps simp: check_secondary_def Let_def split: prod.split)

lemma gather: "keeps (gather_parts big base entry_size i n parts) (\<lambda>_. True)"
  by (induction n arbitrary: i parts)
    (auto intro!: steps simp: Let_def split: prod.split option.split)

lemma mbr_part: "keeps (write_mbr_part big x) (\<lambda>_. True)"
  by (auto intro!: steps simp: write_mbr_part_def chs_bytes_def Let_def split: prod.split)

lemma write_mbr: "lb_size \<noteq> 0 \<Longrightarrow> keeps (write_mbr big rand h lb_size parts) (\<lambda>_. True)"
  by (auto intro!: steps bind [OF alloc_law] bind [OF each] each mbr_part bind [of _ "\<lambda>_. True"]
      simp: write_mbr_def Let_def unat_eq_0 split: prod.split)

lemma convert: "lb_size \<noteq> 0 \<Longrightarrow> keeps (convert_gpt big rand h lb_size) (\<lambda>_. True)"
  by (auto intro!: steps bind [OF gather] bind [OF write_mbr] simp: convert_gpt_def Let_def)

lemma mbr_entry: "keeps (check_mbr_entry big forced loc x) (\<lambda>_. True)"
  by (auto intro!: steps bind [of _ "\<lambda>_. True"] simp: check_mbr_entry_def Let_def)

lemma mbr: "keeps (check_mbr big forced) (\<lambda>_. True)"
  by (auto intro!: steps bind [OF mbr_entry] bind [of _ "\<lambda>_. True"] validate simp: check_mbr_def split: prod.split)

lemma chosen: "keeps (chosen_partition big forced h base ndx) (\<lambda>_. True)"
  by (auto intro!: steps simp: chosen_partition_def Let_def)

lemma detect: "keeps (detect_partition big base entry_size i n) (\<lambda>_. True)"
  by (induction n arbitrary: i) (auto intro!: steps simp: Let_def)

lemma stage2_loc: "keeps (gpt_stage2_loc big forced h lb_size ndx) (\<lambda>_. True)"
  by (auto intro!: steps chosen detect bind [OF validate] bind [of _ "\<lambda>_. True"]
      simp: gpt_stage2_loc_def Let_def)

lemma stages: "512 < length img \<Longrightarrow> keeps (write_stages big img loc) (\<lambda>_. True)"
  by (auto intro!: steps flush_law simp: write_stages_def)

lemma body:
  assumes "512 < length img"
  shows "keeps (install_body big rand img opts) (\<lambda>_. True)"
  unfolding install_body_def
proof (rule bind [OF probe], goal_cases)
  case (1 gpt)
  then have lb: "lb \<noteq> 0" if "gpt = Some (h, lb)" for h lb using that by auto
  show ?case
    using lb assms by (auto intro!: steps secondary mbr stages convert stage2_loc bind [of _ "\<lambda>_. True"])
qed

end

section \<open>The undo invariant\<close>

text \<open>The installer never writes an empty buffer, and its device has blocks of 512 bytes.\<close>

definition whole_blocks :: "u8 list \<Rightarrow> nat" where
  "whole_blocks xs = length xs div 512 * 512"

definition may_continue :: "u8 list \<Rightarrow> device_state \<Rightarrow> bool" where
  "may_continue xs d \<longleftrightarrow> (\<exists>ws. installing xs ws d \<and> (\<forall>(b, l) \<in> set ws. b \<noteq> []) \<and> usable d = whole_blocks xs)"

definition may_undo :: "u8 list \<Rightarrow> device_state \<Rightarrow> bool" where
  "may_undo xs d \<longleftrightarrow> (\<exists>ws. undoable xs ws d)"

lemma installing_undoable: "installing xs ws d \<Longrightarrow> undoable xs ws d"
  by (simp add: installing_def)

lemma frame_saved: "dev_frame d d' \<Longrightarrow> saved d' = saved d" "dev_frame d d' \<Longrightarrow> saved_ok d' = saved_ok d"
  "dev_frame d d' \<Longrightarrow> pointers_ok d' = pointers_ok d"
  by (simp_all add: saved_def saved_ok_def pointers_ok_def dev_frame_simps)

text \<open>A transfer that only moves the dirty block keeps the invariant.\<close>

lemma installing_frame:
  assumes "installing xs ws d" "dev_frame d d'" "dev_sane d'" "dev_data d' \<in> {dev_data d, view d}"
  shows "undoable xs ws d'"
proof -
  have d: "undoable xs ws d" "view d = written ws xs" using assms(1) by (simp_all add: installing_def)
  have "covers ws i \<or> dev_data d' ! i = xs ! i" if "i < length xs" for i
    using that d assms(4) written_outside [OF undoable_in_range [OF d(1)] that]
    by (cases "covers ws i") (auto simp: undoable_def)
  then show ?thesis
    using d(1) assms(2,3) dev_frame_simps [OF assms(2)] usable_frame [OF assms(2)] frame_saved [OF assms(2)]
    by (simp add: undoable_def)
qed

lemma installing_read:
  assumes "installing xs ws d" "device_read loc count d = (r, d')"
  shows "case r of None \<Rightarrow> undoable xs ws d' | Some bs \<Rightarrow> installing xs ws d' \<and> length bs = count
     \<and> bs = take count (drop (unat loc) (view d)) \<and> (unat loc + count \<le> usable d \<or> count = 0)
     \<and> dev_frame d d'"
proof -
  have d: "dev_ok d" "all_ok d" using assms(1) by (simp_all add: installing_def undoable_def)
  have us: "usable d \<le> length (view d)" using usable_le view_length [OF d(1)] by simp
  consider "unat loc + count \<le> usable d" | "count = 0" | "usable d < unat loc + count" "0 < count" by linarith
  then show ?thesis
  proof cases
    case 1
    from device_read_ok [OF d 1] obtain d1 where
      d1: "device_read loc count d = (Some (take count (drop (unat loc) (view d))), d1)" "dev_frame d d1" "dev_ok d1"
      "view d1 = view d" "dev_data d1 \<in> {dev_data d, view d}" by blast
    have "installing xs ws d1"
      using installing_frame [OF assms(1) d1(2) dev_ok_sane [OF d1(3)] d1(5)] d1(3,4) assms(1)
      by (simp add: installing_def)
    with d1 assms(2) 1 us show ?thesis by auto
  next
    case 2
    then show ?thesis using assms by (auto simp: device_read_def device_loops_done dev_frame_refl)
  next
    case 3
    from device_read_beyond [OF d 3] installing_frame [OF assms(1)] assms(2) show ?thesis by auto
  qed
qed

text \<open>Allocating a buffer, and freeing one that is in no entry.\<close>

lemma installing_malloc:
  assumes "installing xs ws d"
  shows "installing xs ws (d\<lparr>lib_n := Suc (lib_n d), heap_next := Suc (heap_next d),
     uninstall_data := (uninstall_data d)[unat (uninstall_data_i d) := e]\<rparr>)"
proof -
  let ?d = "d\<lparr>lib_n := Suc (lib_n d), heap_next := Suc (heap_next d),
    uninstall_data := (uninstall_data d)[unat (uninstall_data_i d) := e]\<rparr>"
  have s: "saved ?d = saved d" by (simp add: saved_def)
  have "dev_sane ?d = dev_sane d" "saved_ok ?d = saved_ok d" by (simp_all add: dev_sane_def saved_ok_def)
  moreover have "pointers_ok d \<Longrightarrow> pointers_ok ?d" by (auto simp: pointers_ok_def s less_SucI)
  ultimately show ?thesis using assms by (simp add: installing_def undoable_def s)
qed

lemma undoable_free:
  assumes "undoable xs ws d" "0 < p" "p < heap_next d" "p \<notin> set (freed d)" "p \<notin> ud_ptr ` set (saved d)" "p \<noteq> empty_lba d"
  shows "undoable xs ws (free p d)"
proof -
  let ?d = "d\<lparr>freed := freed d @ [p]\<rparr>"
  have s: "saved ?d = saved d" by (simp add: saved_def)
  have "dev_sane ?d = dev_sane d" "saved_ok ?d = saved_ok d" "all_ok ?d = all_ok d" "usable ?d = usable d"
    by (simp_all add: dev_sane_def saved_ok_def all_ok_def usable_def)
  moreover have "pointers_ok ?d" using assms by (auto simp: pointers_ok_def undoable_def s)
  ultimately show ?thesis using assms(1,2) by (simp add: undoable_def s free_def)
qed

text \<open>A write either succeeds, or fails before it has changed anything.\<close>

lemma installing_device_write:
  assumes "installing xs ws d" "buffer \<noteq> []" "device_write buffer loc d = (ok, d')"
  shows "if ok then installing xs (ws @ [(buffer, loc)]) d' \<and> usable d' = usable d else undoable xs ws d'"
proof (cases "unat (uninstall_data_i d) < UNINSTALL_DATA_MAX \<and> \<not> unat loc + length buffer \<le> usable d")
  case False
  then consider "UNINSTALL_DATA_MAX \<le> unat (uninstall_data_i d)"
    | "unat loc + length buffer \<le> usable d" "unat (uninstall_data_i d) < UNINSTALL_DATA_MAX" by linarith
  then show ?thesis
  proof cases
    case 1
    then show ?thesis using assms by (auto simp: device_write_def installing_def undoable_def)
  next
    case 2
    then show ?thesis using installing_write [OF assms(1) 2] assms(3) by auto
  qed
next
  case True
  have d: "all_ok d" "\<not> uninstalling d" "pointers_ok d" using assms(1) by (simp_all add: installing_def undoable_def)
  let ?i = "unat (uninstall_data_i d)"
  define d2 where "d2 = d\<lparr>lib_n := Suc (lib_n d), heap_next := Suc (heap_next d),
    uninstall_data := (uninstall_data d)[?i := (uninstall_data d ! ?i)\<lparr>ud_ptr := heap_next d\<rparr>]\<rparr>"
  have i2: "installing xs ws d2" unfolding d2_def by (rule installing_malloc [OF assms(1)])
  then have "dev_ok d2" "all_ok d2" "usable d2 < unat loc + length buffer" "0 < length buffer"
    using True assms(2) by (simp_all add: installing_def undoable_def d2_def)
  from device_read_beyond [OF this] obtain d3 where
    d3: "device_read loc (length buffer) d2 = (None, d3)" "dev_frame d2 d3" "dev_sane d3"
    "dev_data d3 \<in> {dev_data d2, view d2}" by blast
  have "lib_ok d (lib_n d)" using d(1) by (simp add: all_ok_def)
  then have w: "device_write buffer loc d = (False, free (heap_next d) d3)"
    using True d(2) d3(1) by (simp add: device_write_def malloc_def lib_call_def d2_def [symmetric] Let_def)
  have "heap_next d3 = Suc (heap_next d)" "freed d3 = freed d" "saved d3 = saved d" "empty_lba d3 = empty_lba d"
    using dev_frame_simps [OF d3(2)] frame_saved(1) [OF d3(2)] by (simp_all add: d2_def saved_def)
  then have "undoable xs ws (free (heap_next d) d3)"
    using installing_frame [OF i2 d3(2-4)] d(3) by (intro undoable_free) (auto simp: pointers_ok_def)
  then show ?thesis using w assms(3) by auto
qed

lemma installing_flush:
  assumes "installing xs ws d"
  shows "\<exists>d'. device_flush_cache d = (True, d') \<and> installing xs ws d' \<and> dev_data d' = view d \<and> dev_frame d d' \<and> view d' = view d"
proof -
  have "dev_ok d" "all_ok d" using assms by (simp_all add: installing_def undoable_def)
  from flush_ok [OF this] obtain d' where d': "device_flush_cache d = (True, d')" "dev_frame d d'" "dev_ok d'"
    "dev_data d' = view d" "view d' = view d" by blast
  with installing_frame [OF assms d'(2) dev_ok_sane [OF d'(3)]] assms show ?thesis by (auto simp: installing_def)
qed

lemma installing_alloc:
  assumes "installing xs ws d"
  shows "\<exists>d'. alloc_empty_lba d = (Some (), d') \<and> installing xs ws d' \<and> usable d' = usable d"
proof -
  let ?d = "d\<lparr>lib_n := Suc (lib_n d), heap_next := Suc (heap_next d), empty_lba := heap_next d\<rparr>"
  have d: "installing xs ws d" "all_ok d" using assms by (simp_all add: installing_def undoable_def)
  have s: "saved ?d = saved d" by (simp add: saved_def)
  have "dev_sane ?d = dev_sane d" "saved_ok ?d = saved_ok d" "all_ok d \<Longrightarrow> all_ok ?d" "usable ?d = usable d"
    "dev_ok ?d = dev_ok d" "view ?d = view d"
    by (simp_all add: dev_sane_def saved_ok_def all_ok_def usable_def dev_ok_def view_def cached_at_def)
  moreover have "pointers_ok d \<Longrightarrow> pointers_ok ?d" by (auto simp: pointers_ok_def s ball_Un less_Suc_eq)
  ultimately have "installing xs ws ?d" using assms by (simp add: installing_def undoable_def s)
  moreover have "lib_ok d (lib_n d)" using d(2) by (simp add: all_ok_def)
  ultimately show ?thesis by (simp add: alloc_empty_lba_def malloc_def lib_call_def usable_def)
qed

interpretation undo: device_invariant "may_continue xs" "may_undo xs" for xs
proof
  fix d show "may_continue xs d \<Longrightarrow> may_undo xs d"
    by (auto simp: may_continue_def may_undo_def installing_def)
next
  fix loc count
  show "triple (may_continue xs) (may_undo xs) (dread loc count) (\<lambda>bs. length bs = count)"
    using installing_read [of xs _ _ loc count] usable_frame
    by (fastforce simp: triple_def may_continue_def may_undo_def dread_def split: option.splits prod.splits)
next
  fix buffer :: "u8 list" and loc
  assume "buffer \<noteq> []"
  then show "triple (may_continue xs) (may_undo xs) (dwrite buffer loc) (\<lambda>_. True)"
    using installing_device_write [of xs _ _ buffer loc]
    by (fastforce simp: triple_def may_continue_def may_undo_def dwrite_def Let_def split: option.splits prod.splits if_splits)
next
  show "triple (may_continue xs) (may_undo xs) alloc_empty_lba (\<lambda>_. True)"
    using installing_alloc [of xs] by (fastforce simp: triple_def may_continue_def may_undo_def)
next
  show "triple (may_continue xs) (may_undo xs) dflush (\<lambda>_. True)"
    using installing_flush [of xs] usable_frame by (fastforce simp: triple_def may_continue_def may_undo_def dflush_def)
qed

section \<open>A run of the installer\<close>

text \<open>The state in which the program starts, and files as large as a stream can be positioned in.\<close>

definition started :: "device_state \<Rightarrow> bool" where
  "started d \<longleftrightarrow> all_ok d \<and> saved_ok d \<and> uninstall_data_i d = 0 \<and> \<not> uninstalling d \<and> freed d = [] \<and> 0 < heap_next d"

definition small_files :: "files \<Rightarrow> bool" where
  "small_files fs \<longleftrightarrow> (\<forall>f bs. fs f = Some bs \<longrightarrow> length bs < 2 ^ 63)"

definition device_opened :: "files \<Rightarrow> install_opts \<Rightarrow> device_state \<Rightarrow> bool" where
  "device_opened fs opts d \<longleftrightarrow> (\<forall>dev. device_name opts = Some dev \<longrightarrow> fs dev = Some (dev_data d))"

lemma started_updates:
  "started (d\<lparr>empty_lba := e\<rparr>) = started d" "started (d\<lparr>dev_data := x, dev_pos := p\<rparr>) = started d"
  "started d \<Longrightarrow> started (d\<lparr>lib_n := Suc (lib_n d)\<rparr>)"
  "started d \<Longrightarrow> started (d\<lparr>lib_n := Suc (lib_n d), dev_data := x, dev_pos := p\<rparr>)"
  by (auto simp: started_def all_ok_def saved_ok_def)

definition uninstall_opt :: string where
  "uninstall_opt = ''--uninstall''"

lemma opts_commute:
  "opts\<lparr>opt_uninstall := u, force := b\<rparr> = opts\<lparr>force := b, opt_uninstall := u\<rparr>"
  "opts\<lparr>opt_uninstall := u, gpt2mbr_allowed := b\<rparr> = opts\<lparr>gpt2mbr_allowed := b, opt_uninstall := u\<rparr>"
  "opts\<lparr>opt_uninstall := u, uninstall_file := f\<rparr> = opts\<lparr>uninstall_file := f, opt_uninstall := u\<rparr>"
  "opts\<lparr>opt_uninstall := u, device_name := f\<rparr> = opts\<lparr>device_name := f, opt_uninstall := u\<rparr>"
  "opts\<lparr>opt_uninstall := u, part_ndx := f\<rparr> = opts\<lparr>part_ndx := f, opt_uninstall := u\<rparr>"
  by (cases opts; simp)+

text \<open>The first argument ends the loop, sets an option, or names the device. An option is recognised whatever the
  files are, and also when \<open>--uninstall\<close> has been given before.\<close>

lemma install_args_Cons:
  obtains (stop) code where "\<And>d. install_args fs (a # args) opts d = (Inl code, d)"
    | (opt) opts1 where "\<And>d. install_args fs (a # args) opts d = install_args fs args opts1 d"
        "\<And>fs' e. install_args fs' (a # args) (opts\<lparr>opt_uninstall := True\<rparr>) e = install_args fs' args (opts1\<lparr>opt_uninstall := True\<rparr>) e"
        "device_name opts1 = device_name opts" "a \<noteq> uninstall_opt \<longrightarrow> opt_uninstall opts1 = opt_uninstall opts"
    | (dev) "device_name opts = None"
        "\<And>fs' opts' d. device_name opts' = None \<Longrightarrow> install_args fs' (a # args) opts' d
           = (let (ok, d1) = lib_call d in case (if ok then fs' a else None) of None \<Rightarrow> (Inl EXIT_FAILURE, d1)
              | Some contents \<Rightarrow> install_args fs' args (opts'\<lparr>device_name := Some a\<rparr>) (d1\<lparr>dev_data := contents, dev_pos := 0\<rparr>))"
proof -
  let ?plain = "a \<noteq> ''--help'' \<and> a \<noteq> ''-h'' \<and> a \<noteq> ''--quiet'' \<and> a \<noteq> ''--force''
    \<and> a \<noteq> ''--no-gpt-to-mbr-isohybrid-conversion'' \<and> a \<noteq> ''--uninstall''"
  let ?file = "take 22 a = ''--uninstall-data-file=''"
  consider "a = ''--help''" | "a = ''-h''" | "a = ''--quiet''" | "a = ''--force''"
    | "a = ''--no-gpt-to-mbr-isohybrid-conversion''" | "a = ''--uninstall''"
    | "?plain" "?file" "drop 22 a = []" | "?plain" "?file" "drop 22 a \<noteq> []"
    | "?plain" "\<not> ?file" "device_name opts \<noteq> None" | "?plain" "\<not> ?file" "device_name opts = None" by blast
  then show thesis
  proof cases
    case 1
    then show ?thesis by (intro stop [of EXIT_SUCCESS]) simp
  next
    case 2
    then show ?thesis by (intro stop [of EXIT_SUCCESS]) simp
  next
    case 3
    then show ?thesis by (intro opt [of opts]) simp_all
  next
    case 4
    then show ?thesis by (intro opt [of "opts\<lparr>force := True\<rparr>"]) (simp_all add: opts_commute)
  next
    case 5
    then show ?thesis by (intro opt [of "opts\<lparr>gpt2mbr_allowed := False\<rparr>"]) (simp_all add: opts_commute)
  next
    case 6
    then show ?thesis by (intro opt [of "opts\<lparr>opt_uninstall := True\<rparr>"]) (simp_all add: uninstall_opt_def)
  next
    case 7
    then show ?thesis by (intro stop [of EXIT_FAILURE]) simp
  next
    case 8
    then show ?thesis by (intro opt [of "opts\<lparr>uninstall_file := Some (drop 22 a)\<rparr>"]) (simp_all add: opts_commute)
  next
    case 9
    then show ?thesis by (intro opt [of "opts\<lparr>part_ndx := Some a\<rparr>"]) (simp_all add: opts_commute)
  next
    case 10
    then show ?thesis by (intro dev) simp_all
  qed
qed

lemma fopen_step:
  assumes "(let (ok, d1) = lib_call d in case (if ok then fs a else None) of None \<Rightarrow> (Inl EXIT_FAILURE, d1)
     | Some contents \<Rightarrow> k contents d1) = (r, d')" "all_ok d"
  obtains "r = Inl EXIT_FAILURE" "d' = d\<lparr>lib_n := Suc (lib_n d)\<rparr>"
    | contents where "fs a = Some contents" "k contents (d\<lparr>lib_n := Suc (lib_n d)\<rparr>) = (r, d')"
  using assms by (auto simp: all_ok_call split: option.splits)

definition args_ran :: "files \<Rightarrow> string list \<Rightarrow> install_opts \<Rightarrow> device_state \<Rightarrow> int + install_opts \<Rightarrow> device_state \<Rightarrow> bool" where
  "args_ran fs args opts d r d' \<longleftrightarrow> started d' \<and> empty_lba d' = empty_lba d \<and> (\<forall>opts'. r = Inr opts' \<longrightarrow> device_opened fs opts' d'
     \<and> (device_name opts \<noteq> None \<longrightarrow> device_name opts' = device_name opts)
     \<and> (uninstall_opt \<notin> set args \<longrightarrow> opt_uninstall opts' = opt_uninstall opts))"

lemma install_args_ran:
  assumes "install_args fs args opts d = (r, d')" "started d" "device_opened fs opts d"
  shows "args_ran fs args opts d r d'"
  using assms
proof (induction args arbitrary: opts d)
  case Nil
  then show ?case by (auto simp: args_ran_def)
next
  case (Cons a args)
  show ?case
  proof (cases rule: install_args_Cons [of fs a args opts])
    case (stop code)
    then show ?thesis using Cons.prems by (auto simp: args_ran_def simp del: install_args.simps)
  next
    case (opt opts1)
    then have "args_ran fs args opts1 d r d'"
      using Cons.IH [of opts1 d] Cons.prems by (simp add: device_opened_def del: install_args.simps)
    with opt(3,4) show ?thesis by (auto simp: args_ran_def)
  next
    case dev
    have ok: "all_ok d" using Cons.prems(2) by (simp add: started_def)
    from Cons.prems(1) [unfolded dev(2) [OF dev(1)]] ok show ?thesis
    proof (cases rule: fopen_step)
      case 1
      then show ?thesis using Cons.prems(2) by (simp add: args_ran_def started_updates)
    next
      case (2 contents)
      have "started (d\<lparr>lib_n := Suc (lib_n d), dev_data := contents, dev_pos := 0\<rparr>)"
        using Cons.prems(2) by (simp add: started_updates)
      from Cons.IH [OF 2(2) this] 2(1) dev(1) show ?thesis by (auto simp: device_opened_def args_ran_def)
    qed
  qed
qed

lemma device_init_short:
  assumes "all_ok d" "length (dev_data d) < 512"
  shows "\<exists>d'. device_init d = (False, d') \<and> dev_data d' = dev_data d \<and> uninstall_data_i d' = uninstall_data_i d
     \<and> freed d' = freed d"
  using assms by (auto simp: device_init_def lib_call_def all_ok_def rewind_def fread1_def Let_def)

lemma nothing_saved: "uninstall_data_i d = 0 \<Longrightarrow> free_uninstall_data d = Some d"
  by (simp add: free_uninstall_data_def free_entries_def)

lemma saved_nonempty:
  assumes "undoable xs ws d" "\<forall>(b, l) \<in> set ws. b \<noteq> []"
  shows "\<forall>u \<in> set (saved d). sized u \<and> ud_data u \<noteq> []"
proof -
  have "map (\<lambda>(b, l). (length b, l)) (map entry_of (saved d)) = map (\<lambda>(b, l). (length b, l)) ws"
    using assms(1) old_ranges_sizes [OF undoable_in_range [OF assms(1)]] by (simp add: undoable_def)
  from arg_cong [OF this, of "map fst"] have e: "map (\<lambda>u. length (ud_data u)) (saved d) = map (\<lambda>w. length (fst w)) ws"
    by (simp add: entry_of_def comp_def split_beta)
  have "ud_data u \<noteq> []" if "u \<in> set (saved d)" for u
  proof -
    have "length (ud_data u) \<in> set (map (\<lambda>w. length (fst w)) ws)" using that by (simp flip: e)
    with assms(2) show ?thesis by auto
  qed
  then show ?thesis using assms(1) by (simp add: undoable_def)
qed

lemma success_cleanup:
  assumes "installing xs ws d" "\<forall>(b, l) \<in> set ws. b \<noteq> []"
  shows "\<exists>d'. install_cleanup big True to_file d = Some (d', if to_file then Some (file_bytes big (uninstall_data_i d) (rev (saved d))) else None)
     \<and> dev_data d' = dev_data d \<and> freed d' = freed d @ rev (map ud_ptr (saved d)) \<and> empty_lba d' = empty_lba d"
proof -
  note u = installing_undoable [OF assms(1)]
  have d: "all_ok d" "saved_ok d" "pointers_ok d" using u by (simp_all add: undoable_def)
  define d1 where "d1 = reverse_uninstall_data d"
  note rv = reverse_saved [OF d(2), folded d1_def]
  have d1: "all_ok d1" "dev_data d1 = dev_data d" "freed d1 = freed d" "empty_lba d1 = empty_lba d"
    using d(1) by (simp_all add: d1_def reverse_uninstall_data_def Let_def)
  have "\<forall>u \<in> set (saved d1). sized u \<and> ud_data u \<noteq> []" using saved_nonempty [OF u assms(2)] by (simp add: rv(1))
  from store_ok [OF d1(1) this, of big] obtain n where
    st: "store_uninstall_data big d1 = (True, Some (file_bytes big (uninstall_data_i d) (rev (saved d))), d1\<lparr>lib_n := n\<rparr>)"
    by (auto simp: rv)
  define d2 where "d2 = (if to_file then d1\<lparr>lib_n := n\<rparr> else d1)"
  have d2: "saved d2 = rev (saved d)" "unat (uninstall_data_i d2) \<le> length (uninstall_data d2)" "freed d2 = freed d"
    "dev_data d2 = dev_data d" "empty_lba d2 = empty_lba d"
    using rv d1 by (auto simp: d2_def saved_def saved_ok_def)
  have "\<forall>u \<in> set (saved d2). ud_ptr u \<noteq> 0" using d(3) by (auto simp: d2(1) pointers_ok_def)
  from free_uninstall_data_ok [OF d2(2) this] d2 st show ?thesis
    by (auto simp: install_cleanup_def d1_def [symmetric] d2_def rev_map Let_def)
qed

lemma freed_once:
  assumes "pointers_ok d" "freed d' = freed d @ rev (map ud_ptr (saved d))" "empty_lba d' = empty_lba d"
  shows "distinct (freed (free (empty_lba d') d'))"
  using assms by (auto simp: pointers_ok_def free_def)

lemma opened_installing:
  assumes "started d" "512 \<le> length (dev_data d)" "length (dev_data d) < 2 ^ 63" "empty_lba d = 0"
  obtains d' where "device_init d = (True, d')" "installing (dev_data d) [] d'" "usable d' = whole_blocks (dev_data d)"
proof -
  have st: "all_ok d" "saved_ok d" "uninstall_data_i d = 0" "\<not> uninstalling d" "freed d = []" "0 < heap_next d"
    using assms(1) by (simp_all add: started_def)
  from device_init_ok [OF st(1) assms(2,3)] obtain d' where
    d': "device_init d = (True, d')" "dev_ok d'" "all_ok d'" "block_size d' = 512" "dev_data d' = dev_data d"
    "\<not> uninstalling d'" "uninstall_data_i d' = 0" "uninstall_data d' = uninstall_data d"
    "uninstall_data_rev d' = uninstall_data_rev d" "freed d' = []" "heap_next d' = heap_next d"
    "cache_state d' = CACHE_CLEAN" "empty_lba d' = 0"
    using st assms(4) by auto
  have "saved_ok d'" "saved d' = []" using d' st(2) by (simp_all add: saved_ok_def saved_def)
  with installing_opened [of d'] d' st(6) show ?thesis
    by (intro that [of d']) (simp_all add: usable_def whole_blocks_def)
qed

text \<open>The files after a successful run: the device, and the uninstall data if a file was named for it.\<close>

definition installed_files :: "bool \<Rightarrow> install_opts \<Rightarrow> string \<Rightarrow> files \<Rightarrow> device_state \<Rightarrow> files" where
  "installed_files big opts dev fs d =
     (case uninstall_file opts of
        None \<Rightarrow> fs(dev \<mapsto> dev_data d)
      | Some f \<Rightarrow> (fs(dev \<mapsto> dev_data d))(f \<mapsto> file_bytes big (uninstall_data_i d) (rev (saved d))))"

lemma bios_install_run:
  assumes "started d" "512 < length img" "small_files fs" "args \<noteq> []"
    and "install_args fs args no_opts (d\<lparr>empty_lba := 0\<rparr>) = (Inr opts, d1)" "device_name opts = Some dev" "\<not> opt_uninstall opts"
  obtains (failed) d' where "bios_install big rand img args fs d = Some (EXIT_FAILURE, fs, d')" "distinct (freed d')"
      "\<And>xs. fs dev = Some xs \<Longrightarrow> 512 \<le> length xs \<Longrightarrow> \<exists>d2 d3. installing xs [] d2 \<and> usable d2 = whole_blocks xs
         \<and> install_body big rand img opts d2 = (None, d3)"
    | (installed) xs ws d2 d3 d' where "fs dev = Some xs" "512 \<le> length xs" "installing xs ws d3" "\<forall>(b, l) \<in> set ws. b \<noteq> []"
      "usable d3 = whole_blocks xs" "distinct (freed d')" "installing xs [] d2" "usable d2 = whole_blocks xs"
      "install_body big rand img opts d2 = (Some (), d3)"
      "bios_install big rand img args fs d = Some (EXIT_SUCCESS, installed_files big opts dev fs d3, d')"
proof -
  have "args_ran fs args no_opts (d\<lparr>empty_lba := 0\<rparr>) (Inr opts) d1"
    by (rule install_args_ran [OF assms(5)]) (simp_all add: assms(1) started_updates device_opened_def no_opts_def)
  then have d1: "started d1" "fs dev = Some (dev_data d1)" "empty_lba d1 = 0"
    using assms(6) by (auto simp: args_ran_def device_opened_def)
  have same: "fs(dev \<mapsto> dev_data d1) = fs" using d1(2) by (rule fun_upd_idem)
  have small: "length (dev_data d1) < 2 ^ 63" using d1(2) assms(3) by (simp add: small_files_def)
  note unf = bios_install_def assms(4-7)
  show thesis
  proof (cases "512 \<le> length (dev_data d1)")
    case False
    with device_init_short [of d1] d1(1) obtain d2 where "device_init d1 = (False, d2)" "dev_data d2 = dev_data d1"
      "uninstall_data_i d2 = 0" "freed d2 = []" by (auto simp: started_def)
    then show thesis using same nothing_saved False d1(2) by (intro failed [of d2]) (auto simp: unf)
  next
    case True
    obtain d2 where d2: "device_init d1 = (True, d2)" "installing (dev_data d1) [] d2" "usable d2 = whole_blocks (dev_data d1)"
      by (rule opened_installing [OF d1(1) True small d1(3)])
    then have "may_continue (dev_data d1) d2" by (auto simp: may_continue_def intro!: exI [of _ "[]"])
    moreover obtain r d3 where b: "install_body big rand img opts d2 = (r, d3)" by (cases "install_body big rand img opts d2")
    ultimately have t: "case r of None \<Rightarrow> may_undo (dev_data d1) d3 | Some _ \<Rightarrow> may_continue (dev_data d1) d3"
      using undo.body [OF assms(2), of "dev_data d1" big rand opts]
      by (auto simp: triple_def split: option.splits)
    show thesis
    proof (cases r)
      case None
      with t obtain ws where u: "undoable (dev_data d1) ws d3" by (auto simp: may_undo_def)
      from undoable_cleanup [OF u, of big "uninstall_file opts \<noteq> None"] obtain d4 where
        d4: "install_cleanup big False (uninstall_file opts \<noteq> None) d3 = Some (d4, None)" "dev_data d4 = dev_data d1"
        "freed d4 = freed d3 @ rev (map ud_ptr (saved d3))" "empty_lba d4 = empty_lba d3" by blast
      have "distinct (freed (free (empty_lba d4) d4))"
        using u by (intro freed_once [OF _ d4(3,4)]) (simp add: undoable_def)
      moreover have "bios_install big rand img args fs d = Some (EXIT_FAILURE, fs, free (empty_lba d4) d4)"
        using None d2(1) b d4 same by (simp add: unf)
      ultimately show thesis using None d1(2) d2 b by (intro failed) auto
    next
      case (Some x)
      with t obtain ws where ws: "installing (dev_data d1) ws d3" "\<forall>(b, l) \<in> set ws. b \<noteq> []"
        "usable d3 = whole_blocks (dev_data d1)" by (auto simp: may_continue_def)
      from success_cleanup [OF ws(1,2), of big "uninstall_file opts \<noteq> None"] obtain d4 where
        d4: "install_cleanup big True (uninstall_file opts \<noteq> None) d3 = Some (d4,
          if uninstall_file opts \<noteq> None then Some (file_bytes big (uninstall_data_i d3) (rev (saved d3))) else None)"
        "dev_data d4 = dev_data d3" "freed d4 = freed d3 @ rev (map ud_ptr (saved d3))" "empty_lba d4 = empty_lba d3"
        by blast
      have "distinct (freed (free (empty_lba d4) d4))"
        using ws(1) by (intro freed_once [OF _ d4(3,4)]) (simp add: installing_def undoable_def)
      moreover have "bios_install big rand img args fs d
          = Some (EXIT_SUCCESS, installed_files big opts dev fs d3, free (empty_lba d4) d4)"
        using Some d2(1) b d4(1,2) by (cases "uninstall_file opts") (simp_all add: unf installed_files_def)
      ultimately show thesis using d1(2) True ws d2(2,3) b Some by (intro installed) simp_all
    qed
  qed
qed

section \<open>The run that uninstalls\<close>

text \<open>With \<open>--uninstall\<close> in front, the same arguments choose the same device and the same file.\<close>

lemma install_args_again:
  assumes "install_args fs args opts d = (Inr opts', d')" "started d" "device_opened fs opts d" "started e"
    and "device_name opts' = Some dev" "fs' dev = Some xs" "device_name opts \<noteq> None \<Longrightarrow> dev_data e = xs"
  shows "\<exists>e'. install_args fs' args (opts\<lparr>opt_uninstall := True\<rparr>) e = (Inr (opts'\<lparr>opt_uninstall := True\<rparr>), e')
     \<and> started e' \<and> dev_data e' = xs \<and> empty_lba e' = empty_lba e"
  using assms(1-4,7)
proof (induction args arbitrary: opts d e)
  case Nil
  then show ?case using assms(5) by auto
next
  case (Cons a args)
  show ?case
  proof (cases rule: install_args_Cons [of fs a args opts])
    case (stop code)
    then show ?thesis using Cons.prems(1) by (simp del: install_args.simps)
  next
    case (opt opts1)
    then show ?thesis
      using Cons.IH [of opts1 d e] Cons.prems by (simp add: device_opened_def del: install_args.simps)
  next
    case dev
    have ok: "all_ok d" "all_ok e" using Cons.prems(2,4) by (simp_all add: started_def)
    from Cons.prems(1) [unfolded dev(2) [OF dev(1)]] ok(1) show ?thesis
    proof (cases rule: fopen_step)
      case (2 contents)
      let ?d = "d\<lparr>lib_n := Suc (lib_n d), dev_data := contents, dev_pos := 0\<rparr>"
      let ?e = "e\<lparr>lib_n := Suc (lib_n e), dev_data := xs, dev_pos := 0\<rparr>"
      have st: "started ?d" "started ?e" using Cons.prems(2,4) by (simp_all add: started_updates)
      have op: "device_opened fs (opts\<lparr>device_name := Some a\<rparr>) ?d" using 2(1) by (simp add: device_opened_def)
      note run = 2(2)
      from install_args_ran [OF run st(1) op] assms(5) have "a = dev" by (simp add: args_ran_def)
      then have "install_args fs' (a # args) (opts\<lparr>opt_uninstall := True\<rparr>) e
          = install_args fs' args (opts\<lparr>device_name := Some a, opt_uninstall := True\<rparr>) ?e"
        using dev assms(6) all_ok_call [OF ok(2)] by (simp add: opts_commute del: install_args.simps)
      with Cons.IH [OF run st(1) op st(2)] show ?thesis by (simp del: install_args.simps)
    qed simp
  qed
qed

lemma uninstall_run:
  assumes "undoable xs ws d" "\<forall>(b, l) \<in> set ws. b \<noteq> []" "usable d = whole_blocks xs" "512 \<le> length xs"
    and "started e" "dev_data e = dev_data d"
  shows "\<exists>e1 e'. device_init e = (True, e1) \<and> dev_data e' = xs
     \<and> uninstall_mode big (Some (file_bytes big (uninstall_data_i d) (rev (saved d)))) e1 = Some (True, e')"
proof -
  have d: "saved_ok d" "dev_sane d" "length (dev_data d) = length xs" using assms(1) by (simp_all add: undoable_def)
  have len: "512 \<le> length (dev_data e)" "length (dev_data e) < 2 ^ 63"
    using assms(4,6) d by (simp_all add: dev_sane_def)
  have e: "all_ok e" "saved_ok e" using assms(5) by (simp_all add: started_def)
  from device_init_ok [OF e(1) len] obtain e1 where
    e1: "device_init e = (True, e1)" "dev_ok e1" "all_ok e1" "block_size e1 = 512" "dev_data e1 = dev_data d"
    "uninstall_data e1 = uninstall_data e" "uninstall_data_rev e1 = uninstall_data_rev e"
    "uninstall_data_i e1 = uninstall_data_i e"
    using assms(6) by auto
  have ne: "\<forall>u \<in> set (rev (saved d)). sized u \<and> ud_data u \<noteq> []" using saved_nonempty [OF assms(1,2)] by simp
  have "saved_ok e1" "unat (uninstall_data_i d) \<le> UNINSTALL_DATA_MAX" using e(2) e1(6-8) d(1) by (simp_all add: saved_ok_def)
  with load_ok [OF e1(3) _ ne, of "uninstall_data_i d" big] saved_length [OF d(1)] obtain e2 where
    e2: "load_uninstall_data big (Some (file_bytes big (uninstall_data_i d) (rev (saved d)))) e1 = (True, e2)" "all_ok e2"
    "saved_ok e2" "dev_data e2 = dev_data e1" "block_size e2 = block_size e1" "cache e2 = cache e1"
    "map (\<lambda>u. (ud_data u, ud_loc u, ud_count u)) (saved e2) = map (\<lambda>u. (ud_data u, ud_loc u, ud_count u)) (rev (saved d))"
    by auto
  have "entry_of = (\<lambda>u. (ud_data u, ud_loc u))" by (simp add: fun_eq_iff entry_of_def)
  then have en: "map entry_of (saved e2) = rev (map entry_of (saved d))"
    using arg_cong [OF e2(7), of "map (\<lambda>(x, l, c). (x, l))"] by (simp add: comp_def rev_map)
  have "\<forall>u \<in> set (saved e2). sized u"
  proof -
    have "set (map (\<lambda>u. (ud_data u, ud_loc u, ud_count u)) (saved e2)) = (\<lambda>u. (ud_data u, ud_loc u, ud_count u)) ` set (saved d)"
      unfolding e2(7) by simp
    then have "\<exists>v \<in> set (saved d). ud_data v = ud_data u \<and> ud_count v = ud_count u" if "u \<in> set (saved e2)" for u
      using that by (simp add: set_eq_iff image_iff) metis
    then show ?thesis using ne by (fastforce simp: sized_def)
  qed
  moreover have "dev_sane e2" using e1(2) e2(4-6) by (simp add: dev_sane_def dev_ok_def)
  moreover have "in_range (usable e2) (map entry_of (saved e2))"
    using undo_restores(2) [OF assms(1)] assms(3) e2(4,5) e1(4,5) d(3) by (simp add: en usable_def whole_blocks_def)
  ultimately obtain e3 where e3: "uninstall e2 = (True, e3)" "dev_data e3 = xs" "uninstall_data e3 = uninstall_data e2"
    "uninstall_data_i e3 = uninstall_data_i e2"
    using uninstall_ok [of e2] e2(2,4) e1(5) undo_restores(1) [OF assms(1)] en by auto
  then have "free_uninstall_data e3 = Some (free_entries (unat (uninstall_data_i e2)) e3)"
    using e2(3) by (simp add: free_uninstall_data_def saved_ok_def)
  then show ?thesis using e1(1) e2(1) e3 by (auto simp: uninstall_mode_def free_entries_freed)
qed

section \<open>Properties\<close>


subsection \<open>Instances\<close>

lemma disk_started: "started (disk bytes)"
  by (simp add: started_def disk_def all_ok_def saved_ok_def)


end
