(* ===== verification/Limine_Mbr.thy ===== *)
theory Limine_Mbr
  imports Limine_Safety
begin

text \<open>
  What \<open>bios_install\<close> (\<open>limine/limine.c\<close>) puts on a device with an MBR: the exact contents of the device after the
  run, and the run that takes it back.

  \<open>installed_image\<close> says byte by byte what the device holds after \<open>write_stages\<close>; the program is executed on the
  contents of the device as the program sees them, which the layer below keeps.
\<close>

section \<open>Specification\<close>

text \<open>The boot sector keeps the timestamp and the partition table of the device and holds the location of
  stage 2, which is the rest of the image.\<close>

definition installed_image :: "u8 list \<Rightarrow> u64 \<Rightarrow> u8 list \<Rightarrow> u8 list" where
  "installed_image img loc xs = map (\<lambda>i.
     if 218 \<le> i \<and> i < 224 \<or> 440 \<le> i \<and> i < 510 then xs ! i
     else if 0x1a4 \<le> i \<and> i < 0x1ac then le_bytes 8 loc ! (i - 0x1a4)
     else if unat loc \<le> i \<and> i < unat loc + (length img - 512) then img ! (512 + (i - unat loc))
     else if i < 512 then img ! i
     else xs ! i) [0 ..< length xs]"

definition has_gpt :: "u8 list \<Rightarrow> bool" where
  "has_gpt xs \<longleftrightarrow> take 8 (drop 512 xs) = EFI_PART \<or> take 8 (drop 4096 xs) = EFI_PART"

definition file_system :: "nat \<Rightarrow> u8 list \<Rightarrow> bool" where
  "file_system off xs \<longleftrightarrow> take 4 (drop (off + 3) xs) = map of_char ''NTFS'' \<or> take 3 (drop (off + 54) xs) = map of_char ''FAT''
     \<or> take 3 (drop (off + 82) xs) = map of_char ''FAT'' \<or> take 5 (drop (off + 3) xs) = map of_char ''FAT32''
     \<or> le_word (take 2 (drop (off + 1080) xs)) = (0xef53 :: u16)"

text \<open>An entry of the partition table: its status byte is that of an MBR, and a partition starts at sector
  63 or later.\<close>

definition entry_ok :: "u8 list \<Rightarrow> nat \<Rightarrow> bool" where
  "entry_ok xs loc \<longleftrightarrow> (xs ! loc = 0x00 \<or> xs ! loc = 0x80)
     \<and> (xs ! (loc + 4) \<noteq> 0 \<longrightarrow> 63 \<le> (le_word (take 4 (drop (loc + 8) xs)) :: u32))"

definition mbr_disk :: "u8 list \<Rightarrow> bool" where
  "mbr_disk xs \<longleftrightarrow> 4192 \<le> whole_blocks xs \<and> \<not> has_gpt xs \<and> \<not> file_system 0 xs
     \<and> entry_ok xs 446 \<and> entry_ok xs 462 \<and> entry_ok xs 478 \<and> entry_ok xs 494"

definition active :: "u8 list \<Rightarrow> bool" where
  "active xs \<longleftrightarrow> xs ! 446 AND 0x80 \<noteq> 0 \<or> xs ! 462 AND 0x80 \<noteq> 0 \<or> xs ! 478 AND 0x80 \<noteq> 0 \<or> xs ! 494 AND 0x80 \<noteq> 0"

definition activated :: "u8 list \<Rightarrow> u8 list" where
  "activated xs = (if active xs then xs else xs[446 := 0x80])"

section \<open>Executing the installer\<close>

text \<open>\<open>runs xs m ws r vs\<close>: on a device that had the contents \<open>xs\<close>, after the writes \<open>ws\<close>, the program \<open>m\<close> returns \<open>r\<close>
  and the writes are \<open>vs\<close>.\<close>

definition runs :: "u8 list \<Rightarrow> 'a dm \<Rightarrow> (u8 list \<times> u64) list \<Rightarrow> 'a \<Rightarrow> (u8 list \<times> u64) list \<Rightarrow> bool" where
  "runs xs m ws r vs \<longleftrightarrow> (\<forall>d. installing xs ws d \<and> usable d = whole_blocks xs \<longrightarrow>
     (\<exists>d'. m d = (Some r, d') \<and> installing xs vs d' \<and> usable d' = whole_blocks xs))"

lemma runs_ret: "runs xs (dret x) ws x ws"
  by (simp add: runs_def dret_def)

lemma runs_bind: "runs xs m ws x us \<Longrightarrow> runs xs (f x) us y vs \<Longrightarrow> runs xs (dbind m f) ws y vs"
  by (fastforce simp: runs_def dbind_def)

lemma runs_read:
  assumes "unat loc + count \<le> whole_blocks xs"
  shows "runs xs (dread loc count) ws (take count (drop (unat loc) (written ws xs))) ws"
  unfolding runs_def
proof (intro allI impI, elim conjE)
  fix d assume d: "installing xs ws d" "usable d = whole_blocks xs"
  then have ok: "dev_ok d" "all_ok d" "view d = written ws xs" by (simp_all add: installing_def undoable_def)
  with device_read_ok [of d loc count] d assms obtain d' where
    d': "device_read loc count d = (Some (take count (drop (unat loc) (written ws xs))), d')" "dev_frame d d'" by auto
  with installing_read [OF d(1) d'(1)] usable_frame [OF d'(2)] d(2)
  show "\<exists>d'. dread loc count d = (Some (take count (drop (unat loc) (written ws xs))), d') \<and> installing xs ws d'
     \<and> usable d' = whole_blocks xs" by (simp add: dread_def)
qed

lemma runs_write:
  assumes "unat loc + length buffer \<le> whole_blocks xs" "length ws < UNINSTALL_DATA_MAX"
  shows "runs xs (dwrite buffer loc) ws () (ws @ [(buffer, loc)])"
  unfolding runs_def
proof (intro allI impI, elim conjE)
  fix d assume d: "installing xs ws d" "usable d = whole_blocks xs"
  note u = installing_undoable [OF d(1)]
  have "length (map entry_of (saved d)) = length (old_ranges ws xs)" using u by (simp add: undoable_def)
  moreover have "length (old_ranges ws xs) = length ws" using old_ranges_sizes [OF undoable_in_range [OF u]] map_eq_imp_length_eq by blast
  ultimately have "unat (uninstall_data_i d) = length ws" using u saved_length [of d] by (simp add: undoable_def)
  with installing_write [OF d(1), of loc buffer] assms d(2)
  show "\<exists>d'. dwrite buffer loc d = (Some (), d') \<and> installing xs (ws @ [(buffer, loc)]) d' \<and> usable d' = whole_blocks xs"
    by (auto simp: dwrite_def)
qed

lemma runs_flush: "runs xs dflush ws () ws"
  using installing_flush usable_frame by (fastforce simp: runs_def dflush_def)

text \<open>A program that ends with a flush leaves nothing in the cache.\<close>

definition ends_clean :: "'a dm \<Rightarrow> bool" where
  "ends_clean m \<longleftrightarrow> (\<forall>d x d'. m d = (Some x, d') \<longrightarrow> cache_state d' = CACHE_CLEAN)"

lemma ends_clean_bind: "(\<And>x. ends_clean (f x)) \<Longrightarrow> ends_clean (dbind m f)"
  by (auto simp: ends_clean_def dbind_def split: option.splits prod.splits)

lemma install_body_clean: "ends_clean (install_body big rand img opts)"
proof -
  have "ends_clean dflush"
    by (auto simp: ends_clean_def dflush_def device_flush_cache_def Let_def split: prod.splits if_splits)
  then show ?thesis by (auto intro!: ends_clean_bind simp: install_body_def write_stages_def)
qed

section \<open>The checks\<close>

lemma runs_probe:
  assumes "4192 \<le> whole_blocks xs" "\<not> has_gpt (written ws xs)"
  shows "runs xs (probe_gpt big [512, 4096]) ws None ws"
proof -
  have r: "runs xs (dread loc GPT_HEADER_SIZE) ws (take 96 (drop (unat loc) (written ws xs))) ws"
    if "unat loc + 96 \<le> whole_blocks xs" for loc
    using runs_read [of loc GPT_HEADER_SIZE] that by (simp add: GPT_HEADER_SIZE_def)
  have "take 8 (drop 512 (written ws xs)) \<noteq> EFI_PART" "take 8 (drop 4096 (written ws xs)) \<noteq> EFI_PART"
    using assms(2) by (simp_all add: has_gpt_def)
  then show ?thesis
    using assms(1) by (auto intro!: runs_bind [OF r] runs_ret simp: gpt_header_of_def min_def)
qed

lemma whole_blocks_le: "whole_blocks xs \<le> length xs"
  by (simp add: whole_blocks_def)

lemma runs_entry:
  assumes "unat loc + 12 \<le> whole_blocks xs" "unat loc < 1024" "length (written ws xs) = length xs"
    and "entry_ok (written ws xs) (unat loc)"
  shows "runs xs (check_mbr_entry big forced loc (mbr, act)) ws (mbr, act \<or> written ws xs ! unat loc AND 0x80 \<noteq> 0) ws"
proof -
  let ?ys = "written ws xs"
  have u: "unat (loc + 4) = unat loc + 4" "unat (loc + 8) = unat loc + 8" using assms(2) by (simp_all add: unat_word_ariths)
  have len: "unat loc + 12 \<le> length ?ys" using assms(1,3) whole_blocks_le [of xs] by simp
  have h: "hd (take 1 (drop (unat loc) ?ys)) = ?ys ! unat loc" "hd (take 1 (drop (unat loc + 4) ?ys)) = ?ys ! (unat loc + 4)"
    using len by (simp_all add: hd_drop_conv_nth)
  have l4: "length (take 4 (drop (unat loc + 8) ?ys)) = 4" using len by simp
  have "runs xs (dread loc 1) ws (take 1 (drop (unat loc) ?ys)) ws" "runs xs (dread (loc + 4) 1) ws (take 1 (drop (unat loc + 4) ?ys)) ws"
    "runs xs (dread (loc + 8) 4) ws (take 4 (drop (unat loc + 8) ?ys)) ws"
    using runs_read [of loc 1 xs ws] runs_read [of "loc + 4" 1 xs ws] runs_read [of "loc + 8" 4 xs ws] assms(1) u
    by (simp_all del: One_nat_def)
  note reads = this [THEN runs_bind]
  have "\<not> ENDSWAP32 big (native big (take 4 (drop (unat loc + 8) ?ys))) < 63" if "?ys ! (unat loc + 4) \<noteq> 0"
    using assms(4) that by (simp add: entry_ok_def endswap_loaded(2) [OF l4] not_less)
  with assms(4) show ?thesis
    unfolding check_mbr_entry_def split_conv
    by (intro reads(1)) (auto intro!: runs_bind [OF runs_ret] reads(2,3) runs_ret simp: h entry_ok_def Let_def simp del: One_nat_def)
qed

lemma runs_refuse:
  assumes "unat loc + k \<le> whole_blocks xs" "length magic = k" "take k (drop (unat loc) (written ws xs)) \<noteq> magic"
  shows "runs xs (refuse_or_wipe forced loc magic n) ws True ws"
  using assms by (auto intro!: runs_bind [OF runs_read] runs_ret simp: refuse_or_wipe_def)

lemma runs_validate:
  assumes "unat off + 1082 \<le> whole_blocks xs" "unat off < 2 ^ 63" "\<not> file_system (unat off) (written ws xs)"
    and "length (written ws xs) = length xs"
  shows "runs xs (validate_or_force big off forced) ws True ws"
proof -
  have u: "unat (off + 3) = unat off + 3" "unat (off + 54) = unat off + 54" "unat (off + 82) = unat off + 82"
    "unat (off + 1080) = unat off + 1080"
    using assms(2) by (simp_all add: unat_word_ariths)
  have l2: "length (take 2 (drop (unat off + 1080) (written ws xs))) = 2" using assms(1,4) whole_blocks_le [of xs] by simp
  have fs: "take 4 (drop (unat off + 3) (written ws xs)) \<noteq> map of_char ''NTFS''"
    "take 3 (drop (unat off + 54) (written ws xs)) \<noteq> map of_char ''FAT''"
    "take 3 (drop (unat off + 82) (written ws xs)) \<noteq> map of_char ''FAT''"
    "take 5 (drop (unat off + 3) (written ws xs)) \<noteq> map of_char ''FAT32''"
    "le_word (take 2 (drop (unat off + 1080) (written ws xs))) \<noteq> (0xef53 :: u16)"
    using assms(3) unfolding file_system_def by blast+
  have "runs xs (refuse_or_wipe forced (off + 3) (map of_char ''NTFS'') n) ws True ws"
    "runs xs (refuse_or_wipe forced (off + 54) (map of_char ''FAT'') n) ws True ws"
    "runs xs (refuse_or_wipe forced (off + 82) (map of_char ''FAT'') n) ws True ws"
    "runs xs (refuse_or_wipe forced (off + 3) (map of_char ''FAT32'') n) ws True ws" for n
    by (rule runs_refuse [where k = 4] runs_refuse [where k = 3] runs_refuse [where k = 5];
        use assms(1) fs in \<open>simp add: u; fail\<close>)+
  note refuse = this [THEN runs_bind]
  have "runs xs (dread (off + 1080) 2) ws (take 2 (drop (unat off + 1080) (written ws xs))) ws"
    using runs_read [of "off + 1080" 2 xs ws] assms(1) by (simp add: u)
  note hint = this [THEN runs_bind]
  show ?thesis
    unfolding validate_or_force_def
    by (rule refuse; simp only: not_True_eq_False if_False)+
      (rule hint, simp add: endswap_loaded(1) [OF l2] fs(5) runs_ret)
qed

text \<open>Writing the flag of the first partition.\<close>

definition activation :: "u8 list \<Rightarrow> (u8 list \<times> u64) list" where
  "activation xs = (if active xs then [] else [([0x80], 446)])"

lemma written_activation: "446 < length xs \<Longrightarrow> written (activation xs) xs = activated xs"
  by (auto simp: activation_def activated_def overwrite_in intro!: nth_equalityI) (auto simp: nth_list_update overwrite_in)

lemma runs_check_mbr:
  assumes "mbr_disk xs"
  shows "runs xs (check_mbr big forced) [] True (activation xs)"
proof -
  have d: "4192 \<le> whole_blocks xs" "\<not> file_system 0 xs" "entry_ok xs 446" "entry_ok xs 462" "entry_ok xs 478" "entry_ok xs 494"
    using assms by (simp_all add: mbr_disk_def)
  have e: "runs xs (check_mbr_entry big forced loc s) [] (fst s, snd s \<or> xs ! unat loc AND 0x80 \<noteq> 0) []"
    if "unat loc \<in> {446, 462, 478, 494}" for loc s
    using runs_entry [of loc xs "[]" big forced "fst s" "snd s"] that d by auto
  have w: "runs xs (dwrite [0x80] 446) [] () [([0x80], 446)]"
    using runs_write [of 446 "[0x80]" xs "[]"] d(1) by (simp add: UNINSTALL_DATA_MAX_def)
  have v: "runs xs (validate_or_force big 0 forced) [] True []" using d by (intro runs_validate) simp_all
  show ?thesis
    unfolding check_mbr_def
    by (rule runs_bind [OF e], simp)+
      (auto intro!: runs_bind [OF v] runs_bind [OF w] runs_ret simp: activation_def active_def)
qed

section \<open>The boot sector and stage 2\<close>

definition stage_writes :: "u8 list \<Rightarrow> u64 \<Rightarrow> u8 list \<Rightarrow> (u8 list \<times> u64) list" where
  "stage_writes img loc ys = [(take 512 img, 0), (drop 512 img, loc), (le_bytes 8 loc, 0x1a4),
     (take 6 (drop 218 ys), 218), (take 70 (drop 440 ys), 440)]"

lemma written_stages:
  assumes "512 \<le> length img" "unat loc + (length img - 512) \<le> length ys" "512 \<le> length ys"
  shows "written (stage_writes img loc ys) ys = installed_image img loc ys"
proof -
  define y1 where "y1 = overwrite ys 0 (take 512 img)"
  define y2 where "y2 = overwrite y1 (unat loc) (drop 512 img)"
  define y3 where "y3 = overwrite y2 0x1a4 (le_bytes 8 loc)"
  define y4 where "y4 = overwrite y3 218 (take 6 (drop 218 ys))"
  define y5 where "y5 = overwrite y4 440 (take 70 (drop 440 ys))"
  have y1: "length y1 = length ys" "\<And>i. i < length ys \<Longrightarrow> y1 ! i = (if i < 512 then img ! i else ys ! i)"
    using assms by (simp_all add: y1_def overwrite_in)
  have y2: "length y2 = length ys"
    "\<And>i. i < length ys \<Longrightarrow> y2 ! i = (if unat loc \<le> i \<and> i < unat loc + (length img - 512) then img ! (512 + (i - unat loc)) else y1 ! i)"
    using assms y1(1) by (simp_all add: y2_def overwrite_in)
  have y3: "length y3 = length ys"
    "\<And>i. i < length ys \<Longrightarrow> y3 ! i = (if 420 \<le> i \<and> i < 428 then le_bytes 8 loc ! (i - 420) else y2 ! i)"
    using assms y2(1) by (simp_all add: y3_def overwrite_in)
  have y4: "length y4 = length ys"
    "\<And>i. i < length ys \<Longrightarrow> y4 ! i = (if 218 \<le> i \<and> i < 224 then ys ! i else y3 ! i)"
    using assms y3(1) by (auto simp: y4_def overwrite_in)
  have y5: "length y5 = length ys"
    "\<And>i. i < length ys \<Longrightarrow> y5 ! i = (if 440 \<le> i \<and> i < 510 then ys ! i else y4 ! i)"
    using assms y4(1) by (auto simp: y5_def overwrite_in)
  have w: "written (stage_writes img loc ys) ys = y5"
    by (simp add: stage_writes_def y1_def y2_def y3_def y4_def y5_def)
  show ?thesis
    unfolding w
    by (rule nth_equalityI) (simp_all add: installed_image_def y1 y2 y3 y4 y5)
qed

lemma runs_stages:
  assumes "unat loc + (length img - 512) \<le> whole_blocks xs" "512 \<le> whole_blocks xs" "512 \<le> length img"
    and "length ws + 5 \<le> UNINSTALL_DATA_MAX" "length (written ws xs) = length xs"
  shows "runs xs (write_stages big img loc) ws () (ws @ stage_writes img loc (written ws xs))"
proof -
  let ?ys = "written ws xs"
  have len: "510 \<le> length ?ys" using assms(2,5) whole_blocks_le [of xs] by simp
  have "runs xs (dread 218 6) ws (take 6 (drop 218 ?ys)) ws" "runs xs (dread 440 70) ws (take 70 (drop 440 ?ys)) ws"
    using runs_read [of 218 6 xs ws] runs_read [of 440 70 xs ws] assms(2) by simp_all
  note reads = this [THEN runs_bind]
  have w: "runs xs (dwrite b l) (ws @ us) () (ws @ us @ [(b, l)])"
    if "unat l + length b \<le> whole_blocks xs" "length us < 5" for b l us
    using runs_write [OF that(1), of "ws @ us"] that(2) assms(4) by simp
  have "runs xs (dwrite (take 512 img) 0) ws () (ws @ [(take 512 img, 0)])"
    using w [of 0 "take 512 img" "[]"] assms(2) by simp
  moreover have "runs xs (dwrite (drop 512 img) loc) (ws @ [(take 512 img, 0)]) () (ws @ [(take 512 img, 0), (drop 512 img, loc)])"
    using w [of loc "drop 512 img" "[(take 512 img, 0)]"] assms(1) by simp
  moreover have "runs xs (dwrite (native_bytes big 8 (ENDSWAP64 big loc)) 0x1a4) (ws @ [(take 512 img, 0), (drop 512 img, loc)]) ()
      (ws @ [(take 512 img, 0), (drop 512 img, loc), (le_bytes 8 loc, 0x1a4)])"
    using w [of "0x1a4" "le_bytes 8 loc" "[(take 512 img, 0), (drop 512 img, loc)]"] assms(2) by (simp add: endswap_stored)
  moreover have "runs xs (dwrite (take 6 (drop 218 ?ys)) 218) (ws @ [(take 512 img, 0), (drop 512 img, loc), (le_bytes 8 loc, 0x1a4)]) ()
      (ws @ [(take 512 img, 0), (drop 512 img, loc), (le_bytes 8 loc, 0x1a4), (take 6 (drop 218 ?ys), 218)])"
    using w [of 218 "take 6 (drop 218 ?ys)" "[(take 512 img, 0), (drop 512 img, loc), (le_bytes 8 loc, 0x1a4)]"] assms(2) len by simp
  moreover have "runs xs (dwrite (take 70 (drop 440 ?ys)) 440)
      (ws @ [(take 512 img, 0), (drop 512 img, loc), (le_bytes 8 loc, 0x1a4), (take 6 (drop 218 ?ys), 218)]) () (ws @ stage_writes img loc ?ys)"
    using w [of 440 "take 70 (drop 440 ?ys)" "[(take 512 img, 0), (drop 512 img, loc), (le_bytes 8 loc, 0x1a4), (take 6 (drop 218 ?ys), 218)]"]
      assms(2) len by (simp add: stage_writes_def)
  ultimately show ?thesis
    unfolding write_stages_def by (intro reads) (rule runs_bind, assumption | rule runs_flush)+
qed

section \<open>A whole run\<close>

lemma activated_length [simp]: "length (activated xs) = length xs"
  by (simp add: activated_def)

lemma runs_body:
  assumes "mbr_disk xs" "512 \<le> length img" "length img \<le> whole_blocks xs"
  shows "runs xs (install_body big rand img opts) [] () (activation xs @ stage_writes img 512 (activated xs))"
proof -
  have d: "4192 \<le> whole_blocks xs" "\<not> has_gpt xs" using assms(1) by (simp_all add: mbr_disk_def)
  then have "446 < length xs" using whole_blocks_le [of xs] by simp
  note wa = written_activation [OF this]
  have "runs xs (probe_gpt big [512, 4096]) [] None []" using d by (intro runs_probe) simp_all
  note probe = this [THEN runs_bind] and mbr = runs_check_mbr [OF assms(1), THEN runs_bind]
  have "runs xs (write_stages big img 512) (activation xs) () (activation xs @ stage_writes img 512 (activated xs))"
    using runs_stages [of 512 img xs "activation xs" big] assms(2,3) d(1) wa
    by (simp add: activation_def UNINSTALL_DATA_MAX_def)
  then show ?thesis
    unfolding install_body_def
    by (intro probe) (auto intro!: runs_bind [OF runs_ret] runs_bind [OF mbr] runs_ret)
qed

lemma body_written:
  assumes "install_body big rand img opts d = (Some x, d')" "installing xs vs d'"
  shows "dev_data d' = written vs xs"
proof -
  have "cache_state d' = CACHE_CLEAN"
    using install_body_clean [of big rand img opts] assms(1) unfolding ends_clean_def by blast
  then show ?thesis using assms(2) by (simp add: installing_def view_def)
qed

lemma body_contents:
  assumes "mbr_disk xs" "512 \<le> length img" "length img \<le> whole_blocks xs" "installing xs [] d" "usable d = whole_blocks xs"
  shows "\<exists>d'. install_body big rand img opts d = (Some (), d') \<and> dev_data d' = installed_image img 512 (activated xs)"
proof -
  from runs_body [OF assms(1-3), of big rand opts] assms(4,5) obtain d' where
    d': "install_body big rand img opts d = (Some (), d')" "installing xs (activation xs @ stage_writes img 512 (activated xs)) d'"
    by (auto simp: runs_def)
  have "length img \<le> length xs" "4192 \<le> length xs"
    using assms(1,3) whole_blocks_le [of xs] by (simp_all add: mbr_disk_def)
  then show ?thesis
    using d'(1) body_written [OF d'] assms(2) written_stages [of img 512 "activated xs"]
    by (simp add: written_append written_activation)
qed

lemma mbr_installs:
  assumes "started d" "512 < length img" "small_files fs" "''--uninstall'' \<notin> set args"
    and "install_args fs args no_opts (d\<lparr>empty_lba := 0\<rparr>) = (Inr opts, d1)" "device_name opts = Some dev" "args \<noteq> []"
    and "fs dev = Some xs" "mbr_disk xs" "length img \<le> whole_blocks xs"
  shows "\<exists>d3 d'. bios_install big rand img args fs d = Some (EXIT_SUCCESS, installed_files big opts dev fs d3, d')
     \<and> dev_data d3 = installed_image img 512 (activated xs)"
proof -
  have "started (d\<lparr>empty_lba := 0\<rparr>)" "device_opened fs no_opts (d\<lparr>empty_lba := 0\<rparr>)"
    using assms(1) by (simp_all add: started_updates device_opened_def no_opts_def)
  from install_args_ran [OF assms(5) this] assms(4) have no: "\<not> opt_uninstall opts"
    by (simp add: args_ran_def uninstall_opt_def no_opts_def)
  have len: "512 \<le> length xs" "512 \<le> length img"
    using assms(2,9) whole_blocks_le [of xs] by (simp_all add: mbr_disk_def)
  note body = body_contents [OF assms(9) len(2) assms(10), of _ big rand opts]
  show ?thesis
  proof (cases rule: bios_install_run [OF assms(1-3,7,5,6) no, of big rand])
    case (1 d')
    from 1(3) [OF assms(8) len(1)] body show ?thesis by fastforce
  next
    case (2 ys ws d2 d3 d')
    then have "ys = xs" using assms(8) by simp
    with 2 body [of d2] show ?thesis by auto
  qed
qed

section \<open>Properties\<close>

text \<open>C8: installing on a device with an MBR succeeds and leaves exactly the boot image: when there is no GPT, no
  known file system and a sane partition table, the boot sector is that of the image except that
  timestamp and partition table are the device's own and the location of stage 2 is entered, stage
  2 follows the boot sector, and every other byte is unchanged. Only the active flag of the first
  partition is set when no partition is active. Every other file is as before.\<close>

theorem mbr_install_correct:
  assumes "started d" "512 < length img" "small_files fs" "''--uninstall'' \<notin> set args" "args \<noteq> []"
    and "install_args fs args no_opts (d\<lparr>empty_lba := 0\<rparr>) = (Inr opts, d1)" "device_name opts = Some dev"
    and "uninstall_file opts \<noteq> Some dev" "fs dev = Some xs" "mbr_disk xs" "length img \<le> whole_blocks xs"
  shows "\<exists>fs' d'. bios_install big rand img args fs d = Some (EXIT_SUCCESS, fs', d')
     \<and> fs' dev = Some (installed_image img 512 (activated xs))
     \<and> (\<forall>g. g \<noteq> dev \<and> uninstall_file opts \<noteq> Some g \<longrightarrow> fs' g = fs g)"
proof -
  from mbr_installs [OF assms(1-4,6,7,5,9-11), of big rand] obtain d3 d' where
    "bios_install big rand img args fs d = Some (EXIT_SUCCESS, installed_files big opts dev fs d3, d')"
    "dev_data d3 = installed_image img 512 (activated xs)" by blast
  with assms(8) show ?thesis by (cases "uninstall_file opts") (auto simp: installed_files_def)
qed

text \<open>C10: an installation that has succeeded can be taken back: when a run with a file for the uninstall data
  has installed the boot loader, a later run with the same arguments and \<open>--uninstall\<close> restores every
  byte of the device. Of all files only the uninstall data file is left changed.\<close>

theorem install_uninstall_round_trip:
  assumes "started d" "started e" "512 < length img" "small_files fs" "''--uninstall'' \<notin> set args"
    and "install_args fs args no_opts (d\<lparr>empty_lba := 0\<rparr>) = (Inr opts, d1)"
    and "device_name opts = Some dev" "uninstall_file opts = Some f" "f \<noteq> dev"
    and "bios_install big rand img args fs d = Some (EXIT_SUCCESS, fs', d')"
  shows "\<exists>e'. bios_install big rand' img (''--uninstall'' # args) fs' e = Some (EXIT_SUCCESS, fs(f := fs' f), e')"
proof -
  have ne: "args \<noteq> []" using assms(10) by (auto simp: bios_install_def EXIT_SUCCESS_def EXIT_FAILURE_def)
  have st: "started (d\<lparr>empty_lba := 0\<rparr>)" "device_opened fs no_opts (d\<lparr>empty_lba := 0\<rparr>)" "started (e\<lparr>empty_lba := 0\<rparr>)"
    using assms(1,2) by (simp_all add: started_updates device_opened_def no_opts_def)
  have no: "\<not> opt_uninstall opts"
    using install_args_ran [OF assms(6) st(1,2)] assms(5) by (simp add: args_ran_def uninstall_opt_def no_opts_def)
  obtain xs ws d3 where
    run: "fs dev = Some xs" "512 \<le> length xs" "installing xs ws d3" "\<forall>(b, l) \<in> set ws. b \<noteq> []"
    "usable d3 = whole_blocks xs" "fs' = installed_files big opts dev fs d3"
  proof (cases rule: bios_install_run [OF assms(1,3,4) ne assms(6,7) no, of big rand])
    case (1 d2)
    then show ?thesis using assms(10) by (simp add: EXIT_SUCCESS_def EXIT_FAILURE_def)
  next
    case (2 xs ws d2 d3 d4)
    then show ?thesis using assms(10) by (intro that [of xs ws d3]) simp_all
  qed
  have fs': "fs' dev = Some (dev_data d3)" "fs' f = Some (file_bytes big (uninstall_data_i d3) (rev (saved d3)))"
    "fs'(dev \<mapsto> xs) = fs(f := fs' f)"
    using run(1,6) assms(8,9) by (auto simp: installed_files_def)
  from install_args_again [OF assms(6) st(1,2,3) assms(7), of fs' "dev_data d3"] fs'(1) obtain e1 where
    e1: "install_args fs' args (no_opts\<lparr>opt_uninstall := True\<rparr>) (e\<lparr>empty_lba := 0\<rparr>) = (Inr (opts\<lparr>opt_uninstall := True\<rparr>), e1)"
    "started e1" "dev_data e1 = dev_data d3" by (auto simp: no_opts_def)
  from uninstall_run [OF installing_undoable [OF run(3)] run(4,5,2) e1(2,3), of big] obtain e2 e3 where
    e2: "device_init e1 = (True, e2)" "dev_data e3 = xs"
    "uninstall_mode big (fs' f) e2 = Some (True, e3)" by (auto simp: fs'(2))
  have "install_args fs' (''--uninstall'' # args) no_opts (e\<lparr>empty_lba := 0\<rparr>) = (Inr (opts\<lparr>opt_uninstall := True\<rparr>), e1)"
    using e1(1) by simp
  then show ?thesis
    using e2 assms(7,8) fs'(3) by (simp add: bios_install_def)
qed


subsection \<open>Instances\<close>

text \<open>An empty device of sixteen blocks, and an image with one block of stage 2.\<close>

definition blank :: "u8 list" where
  "blank = replicate 8192 0"

definition loader :: "u8 list" where
  "loader = replicate 1024 0xEB"

lemma blank_mbr: "mbr_disk blank" "length loader \<le> whole_blocks blank" "activated blank = blank[446 := 0x80]" "512 < length loader"
proof -
  have z: "take k (drop n blank) = replicate k 0" if "n + k \<le> 8192" for n k using that by (simp add: blank_def min_def)
  have ne: "replicate k 0 \<noteq> bs" if "bs \<noteq> []" "hd bs \<noteq> 0" for k and bs :: "u8 list" using that by (cases k) auto
  have "le_word (replicate n (0::u8)) = (0 :: u16)" for n by (induction n) simp_all
  then have "\<not> file_system 0 blank" by (simp add: file_system_def z ne)
  moreover have "\<not> has_gpt blank" by (simp add: has_gpt_def EFI_PART_def z ne)
  ultimately show "mbr_disk blank" by (simp add: mbr_disk_def whole_blocks_def entry_ok_def blank_def)
  show "length loader \<le> whole_blocks blank" "activated blank = blank[446 := 0x80]" "512 < length loader"
    by (simp_all add: loader_def whole_blocks_def blank_def activated_def active_def)
qed

lemma blank_args:
  "\<exists>d1. install_args [''disk'' \<mapsto> blank] [''disk''] no_opts ((disk [])\<lparr>empty_lba := 0\<rparr>)
     = (Inr (no_opts\<lparr>device_name := Some ''disk''\<rparr>), d1)"
  "\<exists>d1. install_args [''disk'' \<mapsto> blank] [''--uninstall-data-file=undo'', ''disk''] no_opts ((disk [])\<lparr>empty_lba := 0\<rparr>)
     = (Inr (no_opts\<lparr>uninstall_file := Some ''undo'', device_name := Some ''disk''\<rparr>), d1)"
  by (simp_all add: no_opts_def lib_call_def disk_def)

lemma blank_small: "small_files [''disk'' \<mapsto> blank]"
  by (simp add: small_files_def blank_def)

theorem mbr_install_correct_witness:
  "\<exists>fs' d'. bios_install False (\<lambda>_. 0) loader [''disk''] [''disk'' \<mapsto> blank] (disk []) = Some (EXIT_SUCCESS, fs', d')
     \<and> fs' ''disk'' = Some (installed_image loader 512 (blank[446 := 0x80]))"
proof -
  obtain d1 where "install_args [''disk'' \<mapsto> blank] [''disk''] no_opts ((disk [])\<lparr>empty_lba := 0\<rparr>)
     = (Inr (no_opts\<lparr>device_name := Some ''disk''\<rparr>), d1)" using blank_args(1) by blast
  from mbr_install_correct [OF disk_started blank_mbr(4) blank_small _ _ this, of "''disk''" blank False "\<lambda>_. 0"] blank_mbr
  show ?thesis by (auto simp: no_opts_def)
qed

theorem install_uninstall_round_trip_witness:
  "\<exists>fs' d' fs'' e'. bios_install False (\<lambda>_. 0) loader [''--uninstall-data-file=undo'', ''disk''] [''disk'' \<mapsto> blank] (disk [])
       = Some (EXIT_SUCCESS, fs', d')
     \<and> bios_install False (\<lambda>_. 0) loader [''--uninstall'', ''--uninstall-data-file=undo'', ''disk''] fs' (disk [])
       = Some (EXIT_SUCCESS, fs'', e')
     \<and> fs'' ''disk'' = Some blank"
proof -
  let ?args = "[''--uninstall-data-file=undo'', ''disk'']"
  let ?opts = "no_opts\<lparr>uninstall_file := Some ''undo'', device_name := Some ''disk''\<rparr>"
  obtain d1 where a: "install_args [''disk'' \<mapsto> blank] ?args no_opts ((disk [])\<lparr>empty_lba := 0\<rparr>) = (Inr ?opts, d1)"
    using blank_args(2) by blast
  have n: "''--uninstall'' \<notin> set ?args" by simp
  from mbr_installs [OF disk_started blank_mbr(4) blank_small n a, of "''disk''" blank False "\<lambda>_. 0"] blank_mbr(1,2)
  obtain fs' d' where r: "bios_install False (\<lambda>_. 0) loader ?args [''disk'' \<mapsto> blank] (disk []) = Some (EXIT_SUCCESS, fs', d')"
    by auto
  from install_uninstall_round_trip [OF disk_started disk_started [of "[]"] blank_mbr(4) blank_small n a _ _ _ r,
      of "''disk''" "''undo''" "\<lambda>_. 0"]
  obtain e' where "bios_install False (\<lambda>_. 0) loader (''--uninstall'' # ?args) fs' (disk [])
      = Some (EXIT_SUCCESS, [''disk'' \<mapsto> blank](''undo'' := fs' ''undo''), e')" by auto
  with r show ?thesis by fastforce
qed

end
