(* ===== verification/Limine_Gpt.thy ===== *)
theory Limine_Gpt
  imports Limine_Mbr
begin

text \<open>
  What \<open>bios_install\<close> (\<open>limine/limine.c\<close>) puts on a device with a GPT: stage 2 goes to a partition of the BIOS boot
  type, and nothing but this partition and the boot sector is touched.

  The header and the entries of the table are arbitrary bytes of the device, so the proof follows the
  program along every path on which it succeeds.
\<close>

section \<open>Specification\<close>

text \<open>The logical block size with which a header is found.\<close>

definition gpt_block_size :: "u8 list \<Rightarrow> nat option" where
  "gpt_block_size xs = (if take 8 (drop 512 xs) = EFI_PART then Some 512
     else if take 8 (drop 4096 xs) = EFI_PART then Some 4096 else None)"

text \<open>An entry of the table in block 1, read as little-endian bytes: a partition of the BIOS boot type with its first
  and its last block.\<close>

definition boot_partition :: "u8 list \<Rightarrow> nat \<Rightarrow> nat \<Rightarrow> nat \<Rightarrow> bool" where
  "boot_partition xs lb lo hi \<longleftrightarrow>
     (let h = drop lb xs;
          base = unat (le_word (take 8 (drop 72 h)) :: u64) * lb;
          number = unat (le_word (take 4 (drop 80 h)) :: u32);
          entry_size = unat (le_word (take 4 (drop 84 h)) :: u32)
      in \<exists>k < number. let e = drop (base + k * entry_size) xs in
           take 16 e = BIOS_BOOT_TYPE \<and> lo = unat (le_word (take 8 (drop 32 e)) :: u64)
           \<and> hi = unat (le_word (take 8 (drop 40 e)) :: u64))"

section \<open>Successful runs\<close>

text \<open>\<open>gives xs m ws Q\<close>: when \<open>m\<close> returns on a device that had the contents \<open>xs\<close>, after the writes \<open>ws\<close>, its result and
  the writes then made satisfy \<open>Q\<close>.\<close>

definition gives :: "u8 list \<Rightarrow> 'a dm \<Rightarrow> (u8 list \<times> u64) list \<Rightarrow> ('a \<Rightarrow> (u8 list \<times> u64) list \<Rightarrow> bool) \<Rightarrow> bool" where
  "gives xs m ws Q \<longleftrightarrow> (\<forall>d x d'. installing xs ws d \<and> usable d = whole_blocks xs \<and> m d = (Some x, d') \<longrightarrow>
     (\<exists>vs. installing xs vs d' \<and> usable d' = whole_blocks xs \<and> Q x vs))"

lemma gives_ret: "Q x ws \<Longrightarrow> gives xs (dret x) ws Q"
  by (auto simp: gives_def dret_def)

lemma gives_abort: "gives xs abort ws Q"
  by (simp add: gives_def abort_def)

lemma gives_bind:
  assumes "gives xs m ws P" "\<And>x vs. P x vs \<Longrightarrow> gives xs (f x) vs Q"
  shows "gives xs (dbind m f) ws Q"
  unfolding gives_def
proof (intro allI impI, elim conjE)
  fix d y d' assume d: "installing xs ws d" "usable d = whole_blocks xs" "dbind m f d = (Some y, d')"
  then obtain x d1 where m: "m d = (Some x, d1)" "f x d1 = (Some y, d')"
    by (auto simp: dbind_def split: option.splits prod.splits)
  with assms(1) d obtain vs where "installing xs vs d1" "usable d1 = whole_blocks xs" "P x vs" unfolding gives_def by blast
  with assms(2) [of x vs] m(2) show "\<exists>vs. installing xs vs d' \<and> usable d' = whole_blocks xs \<and> Q y vs"
    unfolding gives_def by blast
qed

lemma gives_weaken: "gives xs m ws P \<Longrightarrow> (\<And>x vs. P x vs \<Longrightarrow> Q x vs) \<Longrightarrow> gives xs m ws Q"
  unfolding gives_def by blast

lemma gives_cond: "(b \<Longrightarrow> gives xs m ws Q) \<Longrightarrow> (\<not> b \<Longrightarrow> gives xs n ws Q) \<Longrightarrow> gives xs (if b then m else n) ws Q"
  by simp

lemma gives_opt: "(x = None \<Longrightarrow> gives xs m ws Q) \<Longrightarrow> (\<And>a. x = Some a \<Longrightarrow> gives xs (f a) ws Q)
    \<Longrightarrow> gives xs (case x of None \<Rightarrow> m | Some a \<Rightarrow> f a) ws Q"
  by (cases x) simp_all

lemma gives_read:
  assumes "0 < count"
  shows "gives xs (dread loc count) ws (\<lambda>bs vs. vs = ws \<and> unat loc + count \<le> whole_blocks xs
     \<and> bs = take count (drop (unat loc) (written ws xs)) \<and> length bs = count)"
  unfolding gives_def
proof (intro allI impI, elim conjE)
  fix d x d' assume d: "installing xs ws d" "usable d = whole_blocks xs" "dread loc count d = (Some x, d')"
  have v: "view d = written ws xs" using d(1) by (simp add: installing_def)
  have r: "installing xs ws d'" "length x = count" "x = take count (drop (unat loc) (view d))"
    "unat loc + count \<le> usable d \<or> count = 0" "dev_frame d d'"
    using installing_read [OF d(1) d(3) [unfolded dread_def], unfolded option.case] by - (elim conjE, assumption)+
  have "unat loc + count \<le> whole_blocks xs" "usable d' = whole_blocks xs"
    using r(4) assms d(2) usable_frame [OF r(5)] by simp_all
  with r(1,2) r(3) [unfolded v] show "\<exists>vs. installing xs vs d' \<and> usable d' = whole_blocks xs \<and> vs = ws
     \<and> unat loc + count \<le> whole_blocks xs \<and> x = take count (drop (unat loc) (written ws xs)) \<and> length x = count"
    by (intro exI [of _ ws] conjI) (simp_all only:)
qed

lemma gives_write:
  assumes "buffer \<noteq> []"
  shows "gives xs (dwrite buffer loc) ws (\<lambda>_ vs. vs = ws @ [(buffer, loc)] \<and> unat loc + length buffer \<le> whole_blocks xs)"
  unfolding gives_def
proof (intro allI impI, elim conjE)
  fix d x d' assume d: "installing xs ws d" "usable d = whole_blocks xs" "dwrite buffer loc d = (Some x, d')"
  then have "device_write buffer loc d = (True, d')" by (auto simp: dwrite_def Let_def split: prod.splits if_splits)
  from installing_device_write [OF d(1) assms this] d(2)
  have "installing xs (ws @ [(buffer, loc)]) d'" "usable d' = whole_blocks xs" by simp_all
  moreover from this have "in_range (whole_blocks xs) (ws @ [(buffer, loc)])" by (simp add: installing_def undoable_def)
  ultimately show "\<exists>vs. installing xs vs d' \<and> usable d' = whole_blocks xs \<and> vs = ws @ [(buffer, loc)]
     \<and> unat loc + length buffer \<le> whole_blocks xs"
    by (simp add: in_range_append)
qed

lemma gives_flush: "gives xs dflush ws (\<lambda>_ vs. vs = ws)"
  unfolding gives_def
proof (intro allI impI, elim conjE)
  fix d x d' assume d: "installing xs ws d" "usable d = whole_blocks xs" "dflush d = (Some x, d')"
  with installing_flush [OF d(1)] usable_frame [of d d']
  show "\<exists>vs. installing xs vs d' \<and> usable d' = whole_blocks xs \<and> vs = ws" by (auto simp: dflush_def)
qed

section \<open>The table\<close>

lemma gives_pair: "(\<And>a b. x = (a, b) \<Longrightarrow> gives xs (f a b) ws Q) \<Longrightarrow> gives xs (case x of (a, b) \<Rightarrow> f a b) ws Q"
  by (cases x) simp

lemmas gives_paths = gives_ret gives_abort gives_cond gives_opt gives_pair

definition header_at :: "bool \<Rightarrow> nat \<Rightarrow> u8 list \<Rightarrow> gpt_table_header" where
  "header_at big lb xs = gpt_header_of big (take 96 (drop lb xs))"

lemma gives_probe:
  "gives xs (probe_gpt big [512, 4096]) ws (\<lambda>r vs. vs = ws
     \<and> r = map_option (\<lambda>lb. (header_at big lb (written ws xs), of_nat lb)) (gpt_block_size (written ws xs))
     \<and> (\<forall>lb. gpt_block_size (written ws xs) = Some lb \<longrightarrow> lb + 96 \<le> whole_blocks xs))"
  by (auto intro!: gives_paths gives_bind [OF gives_read]
      simp: GPT_HEADER_SIZE_def gpt_header_of_def header_at_def gpt_block_size_def)

lemma gives_secondary: "gives xs (check_secondary big h lb_size) ws (\<lambda>_ vs. vs = ws)"
  by (auto intro!: gives_paths gives_bind [OF gives_read] simp: check_secondary_def GPT_HEADER_SIZE_def Let_def)

lemma gives_no_conversion:
  "take 5 (drop 32769 (written ws xs)) \<noteq> map of_char ''CD001''
   \<Longrightarrow> gives xs (convert_gpt big rand h lb_size) ws (\<lambda>r vs. vs = ws \<and> r)"
  by (rule gives_weaken [of _ _ _ "\<lambda>r vs. vs = ws \<and> r"])
    (auto intro!: gives_paths gives_bind [OF gives_read] simp: convert_gpt_def)

lemma gives_refuse: "magic \<noteq> [] \<Longrightarrow> gives xs (refuse_or_wipe False loc magic n) ws (\<lambda>_ vs. vs = ws)"
  by (auto intro!: gives_paths gives_bind [OF gives_read] simp: refuse_or_wipe_def)

lemma gives_validate: "gives xs (validate_or_force big off False) ws (\<lambda>_ vs. vs = ws)"
  by (auto intro!: gives_paths gives_bind [OF gives_read] gives_bind [OF gives_refuse] simp: validate_or_force_def)

text \<open>Fields of structures that were read whole.\<close>

lemma field_loaded:
  assumes "length bs = n" "off + 8 \<le> n"
  shows "ENDSWAP64 big (field big bs off 8) = le_word (take 8 (drop off bs))"
    and "ENDSWAP32 big (field big bs off 4) = le_word (take 4 (drop off bs))"
  using assms by (simp_all add: field_def endswap_loaded)

lemma take_8_take: "off + k \<le> n \<Longrightarrow> take k (drop off (take n xs)) = take k (drop off xs)"
  by (simp add: drop_take min_def)

lemma header_fields:
  assumes "lb + 96 \<le> length ys"
  shows "ENDSWAP64 big (gh_partition_entry_lba (header_at big lb ys)) = le_word (take 8 (drop 72 (drop lb ys)))"
    "ENDSWAP32 big (gh_number_of_partition_entries (header_at big lb ys)) = le_word (take 4 (drop 80 (drop lb ys)))"
    "ENDSWAP32 big (gh_size_of_partition_entry (header_at big lb ys)) = le_word (take 4 (drop 84 (drop lb ys)))"
    "ENDSWAP64 big (gh_alternate_lba (header_at big lb ys)) = le_word (take 8 (drop 32 (drop lb ys)))"
  using assms field_loaded [of "take 96 (drop lb ys)" 96] take_8_take [of 32 8 96 "drop lb ys"] take_8_take [of 72 8 96 "drop lb ys"]
    take_8_take [of 80 4 96 "drop lb ys"] take_8_take [of 84 4 96 "drop lb ys"]
  by (simp_all add: header_at_def gpt_header_of_def)

lemma entry_fields:
  assumes "off + 128 \<le> length ys"
  shows "ENDSWAP64 big (ge_starting_lba (gpt_entry_of big (take 128 (drop off ys)))) = le_word (take 8 (drop 32 (drop off ys)))"
    "ENDSWAP64 big (ge_ending_lba (gpt_entry_of big (take 128 (drop off ys)))) = le_word (take 8 (drop 40 (drop off ys)))"
  using assms field_loaded(1) [of "take 128 (drop off ys)" 128] take_8_take [of 32 8 128 "drop off ys"]
    take_8_take [of 40 8 128 "drop off ys"]
  by (simp_all add: gpt_entry_of_def)

lemma entry_offset:
  assumes "add_u64_overflow base (of_nat k * ucast (entry_size :: u32)) = (False, off)" "k < 2 ^ 32"
  shows "unat off = unat base + k * unat entry_size"
proof -
  have "k * unat entry_size \<le> (2 ^ 32 - 1) * (2 ^ 32 - 1)"
    using assms(2) unsigned_less [of entry_size, where 'a = nat] by (intro mult_le_mono) simp_all
  then have "unat (of_nat k * ucast entry_size :: u64) = k * unat entry_size"
    using assms(2) by (simp add: unat_word_ariths unat_of_nat_u64 unat_ucast_u64)
  with add_u64_overflow_exact(2) [of base "of_nat k * ucast entry_size"] assms(1) show ?thesis by simp
qed

definition found :: "bool \<Rightarrow> u8 list \<Rightarrow> nat \<Rightarrow> gpt_entry \<Rightarrow> bool" where
  "found big ys off e \<longleftrightarrow> off + 128 \<le> length ys \<and> take 16 (drop off ys) = BIOS_BOOT_TYPE
     \<and> e = gpt_entry_of big (take 128 (drop off ys))"

lemma gives_detect:
  assumes "i + n \<le> 2 ^ 32" "length (written ws xs) = length xs"
  shows "gives xs (detect_partition big base entry_size i n) ws (\<lambda>e vs. vs = ws
     \<and> (\<exists>k. k < i + n \<and> found big (written ws xs) (unat base + k * unat entry_size) e))"
  using assms(1)
proof (induction n arbitrary: i)
  case 0
  then show ?case by (simp add: gives_abort)
next
  case (Suc n)
  have IH: "gives xs (detect_partition big base entry_size (i + 1) n) ws (\<lambda>e vs. vs = ws
     \<and> (\<exists>k. k < i + Suc n \<and> found big (written ws xs) (unat base + k * unat entry_size) e))"
    using Suc.IH [of "i + 1"] Suc.prems by simp
  have f: "\<exists>k < Suc (i + n). found big (written ws xs) (unat base + k * unat entry_size)
      (gpt_entry_of big (take 128 (drop (unat off) (written ws xs))))"
    if "add_u64_overflow base (of_nat i * ucast entry_size) = (False, off)" "unat off + 128 \<le> whole_blocks xs"
      "take 16 (drop (unat off) (written ws xs)) = BIOS_BOOT_TYPE" for off
    using entry_offset [OF that(1)] that(2,3) Suc.prems assms(2) whole_blocks_le [of xs]
    by (intro exI [of _ i]) (simp add: found_def)
  show ?case
    by (auto intro!: gives_paths gives_bind [OF gives_read] gives_weaken [OF IH] f
        simp: GPT_ENTRY_SIZE_def Let_def)
qed

lemma gives_chosen:
  assumes "length (written ws xs) = length xs"
  shows "gives xs (chosen_partition big False h base ndx) ws (\<lambda>e vs. vs = ws
     \<and> (\<exists>k < unat (ENDSWAP32 big (gh_number_of_partition_entries h)).
          found big (written ws xs) (unat base + k * unat (ENDSWAP32 big (gh_size_of_partition_entry h))) e))"
proof -
  have f: "found big (written ws xs) (unat base + unat num * unat entry_size) (gpt_entry_of big (take 128 (drop (unat off) (written ws xs))))"
    if "add_u64_overflow base (ucast num * ucast entry_size) = (False, off)" "unat off + 128 \<le> whole_blocks xs"
      "take 16 (drop (unat off) (written ws xs)) = BIOS_BOOT_TYPE" for off and num entry_size :: u32
  proof -
    have "of_nat (unat num) = (ucast num :: u64)" by (simp add: word_eq_iff_unsigned unat_ucast_u64 unat_of_nat_u64)
    with entry_offset [of base "unat num" entry_size off] that(1) unsigned_less [of num, where 'a = nat]
    have "unat off = unat base + unat num * unat entry_size" by simp
    with that(2,3) assms whole_blocks_le [of xs] show ?thesis by (simp add: found_def)
  qed
  show ?thesis
    by (auto intro!: gives_paths gives_bind [OF gives_read] f exI
        simp: chosen_partition_def GPT_ENTRY_SIZE_def Let_def word_le_nat_alt not_le)
qed

section \<open>The place of stage 2\<close>

lemma mul_checked: "mul_u64_overflow a b = (False, c) \<Longrightarrow> unat c = unat a * unat b"
  using mul_u64_overflow_exact(2) [of a b] by simp

lemma partition_bytes:
  assumes "\<not> hi < lo" "mul_u64_overflow (hi - lo + 1) lb = (False, sz)" "\<not> sz < 32768"
  shows "32768 \<le> (unat hi - unat lo + 1) * unat lb" "unat lo \<le> unat hi"
proof -
  show le: "unat lo \<le> unat hi" using assms(1) by (simp add: word_less_nat_alt)
  have sz: "unat sz = unat (hi - lo + 1) * unat lb" "32768 \<le> unat sz"
    using mul_checked [OF assms(2)] assms(3) by (simp_all add: word_less_nat_alt)
  have d: "unat (hi - lo) = unat hi - unat lo" using le by (simp add: unat_sub word_le_nat_alt)
  have "unat (hi - lo + 1) \<noteq> 0" using sz by (metis mult_0 not_numeral_le_zero)
  moreover have "unat (hi - lo + 1) = (unat (hi - lo) + 1) mod 2 ^ 64" by (simp add: unat_word_ariths)
  ultimately have "unat (hi - lo + 1) = unat hi - unat lo + 1"
    using unat_u64_less(1) [of "hi - lo"] d by (cases "unat (hi - lo) + 1 = 2 ^ 64") simp_all
  with sz show "32768 \<le> (unat hi - unat lo + 1) * unat lb" by simp
qed

definition stage2_place :: "u8 list \<Rightarrow> nat \<Rightarrow> u64 \<Rightarrow> bool" where
  "stage2_place xs lb loc \<longleftrightarrow> (\<exists>lo hi. boot_partition xs lb lo hi \<and> lo \<le> hi \<and> 32768 \<le> (hi - lo + 1) * lb \<and> unat loc = lo * lb)"

lemma gives_stage2_loc:
  assumes "length (written ws xs) = length xs" "unat lb + 96 \<le> whole_blocks xs"
  shows "gives xs (gpt_stage2_loc big False (header_at big (unat lb) (written ws xs)) lb ndx) ws
     (\<lambda>loc vs. vs = ws \<and> stage2_place (written ws xs) (unat lb) loc)"
proof -
  let ?ys = "written ws xs" and ?h = "header_at big (unat lb) (written ws xs)"
  let ?n = "ENDSWAP32 big (gh_number_of_partition_entries ?h)" and ?s = "ENDSWAP32 big (gh_size_of_partition_entry ?h)"
  have "unat lb + 96 \<le> length ?ys" using assms whole_blocks_le [of xs] by simp
  note h = header_fields [OF this, of big]
  have n: "unat ?n \<le> 2 ^ 32" using unsigned_less [of ?n, where 'a = nat] by simp
  let ?Q = "\<lambda>base e vs. vs = ws \<and> (\<exists>k < unat ?n. found big ?ys (unat base + k * unat ?s) e)"
  have e: "gives xs (case ndx of Some s \<Rightarrow> chosen_partition big False ?h base s
       | None \<Rightarrow> detect_partition big base ?s 0 (unat ?n)) ws (?Q base)" for base
    using gives_chosen [OF assms(1), of big ?h base] gives_detect [of 0 "unat ?n" ws xs big base ?s] n assms(1)
    by (auto intro!: gives_opt)
  have place: "stage2_place ?ys (unat lb) loc"
    if "mul_u64_overflow (ENDSWAP64 big (gh_partition_entry_lba ?h)) lb = (False, base)"
      and "k < unat ?n" "found big ?ys (unat base + k * unat ?s) e"
      and "\<not> ENDSWAP64 big (ge_ending_lba e) < ENDSWAP64 big (ge_starting_lba e)"
      and "mul_u64_overflow (ENDSWAP64 big (ge_ending_lba e) - ENDSWAP64 big (ge_starting_lba e) + 1) lb = (False, sz)" "\<not> sz < 32768"
      and "mul_u64_overflow (ENDSWAP64 big (ge_starting_lba e)) lb = (False, loc)" for base k e sz loc
  proof -
    let ?off = "unat base + k * unat ?s"
    have fe: "?off + 128 \<le> length ?ys" "take 16 (drop ?off ?ys) = BIOS_BOOT_TYPE" "e = gpt_entry_of big (take 128 (drop ?off ?ys))"
      using that(3) by (simp_all add: found_def)
    have "boot_partition ?ys (unat lb) (unat (ENDSWAP64 big (ge_starting_lba e))) (unat (ENDSWAP64 big (ge_ending_lba e)))"
      unfolding boot_partition_def Let_def h [symmetric] mul_checked [OF that(1), symmetric]
      using that(2) fe entry_fields [OF fe(1), of big] by (intro exI [of _ k]) simp
    with partition_bytes [OF that(4-6)] mul_checked [OF that(7)] show ?thesis unfolding stage2_place_def by blast
  qed
  show ?thesis
    unfolding gpt_stage2_loc_def Let_def
    by (auto intro!: gives_paths gives_bind [OF e] gives_bind [OF gives_validate] intro: place)
qed

lemma gives_stages:
  assumes "512 < length img" "length (written ws xs) = length xs"
  shows "gives xs (write_stages big img loc) ws (\<lambda>_ vs. vs = ws @ stage_writes img loc (written ws xs)
     \<and> unat loc + (length img - 512) \<le> length xs \<and> 512 \<le> length xs)"
proof -
  have ne: "take 512 img \<noteq> []" "drop 512 img \<noteq> []" "length (take 512 img) = 512" using assms(1) by auto
  show ?thesis
    unfolding write_stages_def
    using ne whole_blocks_le [of xs]
    by (auto intro!: gives_bind [OF gives_read] gives_bind [OF gives_write] gives_weaken [OF gives_flush]
        simp: stage_writes_def endswap_stored)
qed

section \<open>A whole run\<close>

lemma gives_body:
  assumes "512 < length img" "gpt_block_size xs = Some lb" "\<not> force opts"
    and "gpt2mbr_allowed opts \<Longrightarrow> take 5 (drop 32769 xs) \<noteq> map of_char ''CD001''"
  shows "gives xs (install_body big rand img opts) [] (\<lambda>_ vs. \<exists>loc. stage2_place xs lb loc \<and> vs = stage_writes img loc xs
     \<and> unat loc + (length img - 512) \<le> length xs \<and> 512 \<le> length xs)"
proof -
  have lb: "unat (of_nat lb :: u64) = lb" using assms(2) by (auto simp: gpt_block_size_def split: if_splits)
  define cv where "cv h l = (if gpt2mbr_allowed opts then convert_gpt big rand h l else dret True)" for h l
  have conv: "gives xs (cv h l) [] (\<lambda>r vs. vs = [] \<and> r)" for h l
    using gives_no_conversion [of "[]" xs big rand h l] assms(4) by (auto intro!: gives_paths simp: cv_def)
  have keep: "gives xs (dbind (check_secondary big h l) (\<lambda>_. dbind (cv h l) (\<lambda>still. dret (if still then gpt else None)))) []
     (\<lambda>r vs. vs = [] \<and> r = gpt)" for h l and gpt :: "(gpt_table_header \<times> u64) option"
    by (auto intro!: gives_bind [OF gives_secondary] gives_bind [OF conv] gives_ret)
  have place: "gives xs (gpt_stage2_loc big (force opts) (header_at big lb xs) (of_nat lb) (part_ndx opts)) []
     (\<lambda>loc vs. vs = [] \<and> stage2_place xs lb loc)" if "lb + 96 \<le> whole_blocks xs"
    using gives_stage2_loc [of "[]" xs "of_nat lb" big "part_ndx opts"] that lb assms(3) by simp
  have stages: "gives xs (write_stages big img loc) [] (\<lambda>_ vs. vs = stage_writes img loc xs
     \<and> unat loc + (length img - 512) \<le> length xs \<and> 512 \<le> length xs)" for loc
    using gives_stages [OF assms(1), of "[]" xs big loc] by simp
  show ?thesis
    unfolding install_body_def cv_def [symmetric]
    by (rule gives_bind [OF gives_probe])
      (auto simp: assms(2) intro!: gives_bind [OF keep] gives_bind [OF place] gives_weaken [OF stages])
qed

section \<open>Properties\<close>


subsection \<open>Instances\<close>

text \<open>A device of 68 blocks with a GPT of one entry: a BIOS boot partition of 64 blocks behind the table, and the
  secondary header behind the partition.\<close>

definition gpt_disk :: "u8 list" where
  "gpt_disk = replicate 512 0
     @ (EFI_PART @ replicate 24 0 @ le_bytes 8 (67 :: u64) @ replicate 32 0 @ le_bytes 8 (2 :: u64)
        @ le_bytes 4 (1 :: u32) @ le_bytes 4 (128 :: u32) @ replicate 424 0)
     @ (BIOS_BOOT_TYPE @ replicate 16 0 @ le_bytes 8 (3 :: u64) @ le_bytes 8 (66 :: u64) @ replicate 464 0)
     @ replicate 32768 0 @ EFI_PART @ replicate 504 0"

lemma magic_lengths [simp]: "length EFI_PART = 8" "length BIOS_BOOT_TYPE = 16"
  by (simp_all add: EFI_PART_def BIOS_BOOT_TYPE_def)

lemma gpt_disk_length: "length gpt_disk = 34816" "whole_blocks gpt_disk = 34816"
  by (simp_all add: gpt_disk_def whole_blocks_def)

lemma gpt_disk_header:
  "take 8 (drop 512 gpt_disk) = EFI_PART" "take 8 (drop 34304 gpt_disk) = EFI_PART"
  "take 8 (drop 32 (drop 512 gpt_disk)) = le_bytes 8 (67 :: u64)" "take 8 (drop 72 (drop 512 gpt_disk)) = le_bytes 8 (2 :: u64)"
  "take 4 (drop 80 (drop 512 gpt_disk)) = le_bytes 4 (1 :: u32)" "take 4 (drop 84 (drop 512 gpt_disk)) = le_bytes 4 (128 :: u32)"
  by (simp_all add: gpt_disk_def)

lemma gpt_disk_entry:
  "take 16 (drop 1024 gpt_disk) = BIOS_BOOT_TYPE" "take 8 (drop 32 (drop 1024 gpt_disk)) = le_bytes 8 (3 :: u64)"
  "take 8 (drop 40 (drop 1024 gpt_disk)) = le_bytes 8 (66 :: u64)"
  by (simp_all add: gpt_disk_def)

lemma gpt_disk_zero: "1536 \<le> n \<Longrightarrow> n + k \<le> 34304 \<Longrightarrow> take k (drop n gpt_disk) = replicate k 0"
proof -
  assume n: "1536 \<le> n" "n + k \<le> 34304"
  have "drop 1536 gpt_disk = replicate 32768 0 @ EFI_PART @ replicate 504 0" by (simp add: gpt_disk_def)
  moreover have "drop n gpt_disk = drop (n - 1536) (drop 1536 gpt_disk)" using n by simp
  ultimately show ?thesis using n by (simp add: min_def)
qed

lemma gpt_disk_fields:
  "ENDSWAP64 big (gh_partition_entry_lba (header_at big 512 gpt_disk)) = 2"
  "ENDSWAP32 big (gh_number_of_partition_entries (header_at big 512 gpt_disk)) = 1"
  "ENDSWAP32 big (gh_size_of_partition_entry (header_at big 512 gpt_disk)) = 128"
  "ENDSWAP64 big (gh_alternate_lba (header_at big 512 gpt_disk)) = 67"
  "ENDSWAP64 big (ge_starting_lba (gpt_entry_of big (take 128 (drop 1024 gpt_disk)))) = 3"
  "ENDSWAP64 big (ge_ending_lba (gpt_entry_of big (take 128 (drop 1024 gpt_disk)))) = 66"
  using header_fields [of 512 gpt_disk big] entry_fields [of 1024 gpt_disk big] gpt_disk_length(1)
  unfolding gpt_disk_header gpt_disk_entry by (simp_all add: le_word_bytes)

lemma gpt_disk_nowhere: "\<not> file_system 1536 gpt_disk" "take 5 (drop 32769 gpt_disk) \<noteq> map of_char ''CD001''"
proof -
  have ne: "replicate k 0 \<noteq> bs" if "bs \<noteq> []" "hd bs \<noteq> 0" for k and bs :: "u8 list" using that by (cases k) auto
  have "le_word (replicate n (0::u8)) = (0 :: u16)" for n by (induction n) simp_all
  then show "\<not> file_system 1536 gpt_disk" by (simp add: file_system_def gpt_disk_zero ne)
  show "take 5 (drop 32769 gpt_disk) \<noteq> map of_char ''CD001''" by (simp add: gpt_disk_zero ne)
qed

lemma gpt_disk_runs:
  assumes "gpt2mbr_allowed opts" "\<not> force opts" "part_ndx opts = None" "512 \<le> length img" "length img \<le> 33280"
  shows "\<exists>vs. runs gpt_disk (install_body big rand img opts) [] () vs"
proof -
  let ?xs = gpt_disk and ?h = "header_at big 512 gpt_disk"
  have r: "runs ?xs (dread loc count) [] (take count (drop (unat loc) ?xs)) []" if "unat loc + count \<le> 34816" for loc count
    using runs_read [of loc count ?xs "[]"] that by (simp add: gpt_disk_length)
  have probe: "runs ?xs (probe_gpt big [512, 4096]) [] (Some (?h, 512)) []"
    using gpt_disk_header(1)
    by (auto intro!: runs_bind [OF r] runs_ret simp: GPT_HEADER_SIZE_def gpt_header_of_def header_at_def)
  have sec: "runs ?xs (check_secondary big ?h 512) [] () []"
    using gpt_disk_header(2)
    by (auto intro!: runs_bind [OF r] runs_ret simp: check_secondary_def gpt_disk_fields GPT_ENTRY_SIZE_def GPT_HEADER_SIZE_def
        gpt_header_of_def mul_u64_overflow_exact)
  have conv: "runs ?xs (convert_gpt big rand ?h 512) [] True []"
    using gpt_disk_nowhere(2) by (auto intro!: runs_bind [OF r] runs_ret simp: convert_gpt_def)
  have valid: "runs ?xs (validate_or_force big 1536 False) [] True []"
    using runs_validate [of 1536 ?xs "[]" big False] gpt_disk_nowhere(1) by (simp add: gpt_disk_length)
  let ?e = "gpt_entry_of big (take 128 (drop 1024 ?xs))"
  have "runs ?xs (detect_partition big 1024 128 0 (Suc 0)) [] ?e []"
    using gpt_disk_entry(1)
    by (auto intro!: runs_bind [OF r] runs_ret simp: GPT_ENTRY_SIZE_def add_u64_overflow_exact Let_def)
  then have place: "runs ?xs (gpt_stage2_loc big False ?h 512 None) [] 1536 []"
    by (auto intro!: runs_bind [of _ _ _ ?e "[]"] runs_bind [OF valid] runs_ret
        simp: gpt_stage2_loc_def gpt_disk_fields mul_u64_overflow_exact Let_def)
  have len: "1536 + (length img - 512) \<le> 34816" using assms(4,5) by simp
  have stages: "runs ?xs (write_stages big img 1536) [] () (stage_writes img 1536 ?xs)"
    using runs_stages [of 1536 img ?xs "[]" big] len assms(4) by (simp add: gpt_disk_length UNINSTALL_DATA_MAX_def)
  show ?thesis
    unfolding install_body_def
    by (rule exI [of _ "stage_writes img 1536 ?xs"], rule runs_bind [OF probe])
      (use assms in \<open>auto intro!: runs_bind [OF runs_bind [OF sec]] runs_bind [OF conv] runs_ret runs_bind [OF place] stages\<close>)
qed

lemma gpt_args:
  "\<exists>d1. install_args [''disk'' \<mapsto> gpt_disk] [''disk''] no_opts ((disk [])\<lparr>empty_lba := 0\<rparr>)
     = (Inr (no_opts\<lparr>device_name := Some ''disk''\<rparr>), d1)"
  by (simp add: no_opts_def lib_call_def disk_def)

lemma gpt_disk_installs:
  "\<exists>fs' d'. bios_install False (\<lambda>_. 0) loader [''disk''] [''disk'' \<mapsto> gpt_disk] (disk []) = Some (EXIT_SUCCESS, fs', d')"
proof -
  let ?opts = "no_opts\<lparr>device_name := Some ''disk''\<rparr>" and ?fs = "[''disk'' \<mapsto> gpt_disk]"
  obtain d1 where a: "install_args ?fs [''disk''] no_opts ((disk [])\<lparr>empty_lba := 0\<rparr>) = (Inr ?opts, d1)" using gpt_args by blast
  have sm: "small_files ?fs" by (simp add: small_files_def gpt_disk_length)
  have no: "device_name ?opts = Some ''disk''" "\<not> opt_uninstall ?opts" "[''disk''] \<noteq> []" by (simp_all add: no_opts_def)
  obtain vs where r: "runs gpt_disk (install_body False (\<lambda>_. 0) loader ?opts) [] () vs"
    using gpt_disk_runs [of ?opts loader False "\<lambda>_. 0"] by (auto simp: no_opts_def loader_def)
  show ?thesis
  proof (cases rule: bios_install_run [OF disk_started blank_mbr(4) sm no(3) a no(1,2), of False "\<lambda>_. 0"])
    case (1 d')
    from 1(3) [of gpt_disk] r show ?thesis by (fastforce simp: runs_def gpt_disk_length)
  next
    case 2
    then show ?thesis by blast
  qed
qed


end
